(* ===== verification/Prelude.thy ===== *)
theory Prelude
  imports Main "HOL-Library.Word"
begin

section \<open>Shared types, collections and lemmas\<close>

text \<open>
  The types every component names (machine integers of the C++ code at their width,
  byte strings), the named collections the component proofs draw on, and generic lemmas on
  lists and words. \<open>std::size_t\<close> is taken at 64 bits.
\<close>

type_synonym u16 = "16 word"
type_synonym u32 = "32 word"
type_synonym u64 = "64 word"
type_synonym size_t = "64 word"

named_theorems route_simps \<open>the tests of the built-in filters\<close>
named_theorems lane_simps \<open>what is queued in a lane, and whether it is in order and open\<close>
named_theorems pipeline_simps \<open>the pipeline's invariant and its parts\<close>

subsection \<open>Lists\<close>

definition count_if :: "('a \<Rightarrow> bool) \<Rightarrow> 'a list \<Rightarrow> nat" where
  "count_if p xs = length (filter p xs)"

lemma count_if_Nil [simp]: "count_if p [] = 0"
  by (simp add: count_if_def)

lemma count_if_Cons [simp]: "count_if p (x # xs) = (if p x then 1 else 0) + count_if p xs"
  by (simp add: count_if_def)

lemma count_if_append [simp]: "count_if p (xs @ ys) = count_if p xs + count_if p ys"
  by (simp add: count_if_def)

text \<open>The effect of one update on a count: what the old element gave goes, the new one's comes.\<close>

lemma count_if_update:
  "i < length xs \<Longrightarrow>
   count_if p (xs[i := y]) + (if p (xs ! i) then 1 else 0) = count_if p xs + (if p y then 1 else 0)"
proof (induction xs arbitrary: i)
  case Nil
  then show ?case by simp
next
  case (Cons x xs)
  then show ?case by (cases i) auto
qed

lemma count_if_pos: "i < length xs \<Longrightarrow> p (xs ! i) \<Longrightarrow> 0 < count_if p xs"
  by (auto simp: count_if_def filter_empty_conv)

lemma count_if_update_iff:
  assumes "i < length xs" "p (xs ! i) = p y"
  shows "count_if p (xs[i := y]) = count_if p xs"
  using count_if_update [OF assms(1), of p y] assms(2) by (simp split: if_splits)

text \<open>One element apart: the count of the others, whatever is put in its place.\<close>

lemma count_if_others:
  assumes "i < length xs"
  obtains n where "\<And>y. count_if p (xs[i := y]) = n + (if p y then 1 else 0)"
    "count_if p xs = n + (if p (xs ! i) then 1 else 0)"
proof
  let ?n = "count_if p xs - (if p (xs ! i) then 1 else 0)"
  have le: "(if p (xs ! i) then 1 else 0) \<le> count_if p xs"
    using count_if_pos [OF assms, of p] by auto
  then show "count_if p xs = ?n + (if p (xs ! i) then 1 else 0)" by simp
  show "count_if p (xs[i := y]) = ?n + (if p y then 1 else 0)" for y
    using count_if_update [OF assms, of p y] le by simp
qed

lemma count_if_map_same: "(\<And>x. x \<in> set xs \<Longrightarrow> p (f x) = p x) \<Longrightarrow> count_if p (map f xs) = count_if p xs"
  by (induction xs) auto

subsection \<open>Words\<close>

lemma unat_succ_less:
  fixes n c :: "'w::len word"
  assumes "n < c"
  shows "unat (n + 1) = Suc (unat n)"
proof -
  have "unat n < unat c" using assms by (simp add: word_less_nat_alt)
  moreover have "unat c < 2 ^ LENGTH('w)" by (rule unsigned_less)
  ultimately have "unat n + 1 < 2 ^ LENGTH('w)" by linarith
  then show ?thesis by (simp add: unat_word_ariths)
qed

lemma unat_pred_pos:
  fixes n :: "'w::len word"
  assumes "0 < unat n"
  shows "Suc (unat (n - 1)) = unat n"
proof -
  have "n \<noteq> 0" using assms by (cases "n = 0") auto
  then show ?thesis using assms by (simp add: unat_minus_one)
qed

subsection \<open>Invariants of step relations\<close>

text \<open>The contract between a step relation and its invariant, and what it gives along any run.\<close>

locale invariant_system =
  fixes init :: "'s \<Rightarrow> bool" and step :: "'s \<Rightarrow> 's \<Rightarrow> bool" and inv :: "'s \<Rightarrow> bool"
  assumes init_inv: "init s \<Longrightarrow> inv s"
    and step_inv: "inv s \<Longrightarrow> step s t \<Longrightarrow> inv t"
begin

lemma run_inv: "step\<^sup>*\<^sup>* s t \<Longrightarrow> inv s \<Longrightarrow> inv t"
  by (induction rule: rtranclp_induct) (auto intro: step_inv)

lemma reach_inv: "init s \<Longrightarrow> step\<^sup>*\<^sup>* s t \<Longrightarrow> inv t"
  using run_inv init_inv by blast

end

end
