(* ===== verification/Event_Model.thy ===== *)
theory Event_Model
  imports Prelude
begin

section \<open>Severities and events\<close>

text \<open>
  The data of \<open>include/sylog/severity.hpp\<close> and \<open>include/sylog/event.hpp\<close>: a severity is a
  class with four constant members, modelled as a record whose defaults are those of
  \<open>severity_base\<close>; the six built-in severities override them as the C++ classes do, and the
  type of built-ins is ordered by priority. An event is a record with one field per data
  member of \<open>Event\<close>; its setters are record updates.
\<close>

subsection \<open>Severities\<close>

record severity =
  sev_name :: string
  sev_priority :: u16
  sev_force_sync :: bool
  sev_flush_after :: bool

definition severity_base :: severity where
  "severity_base =
     \<lparr>sev_name = ''CUSTOM'', sev_priority = 0, sev_force_sync = False, sev_flush_after = False\<rparr>"

definition trace_severity :: severity where
  "trace_severity = severity_base\<lparr>sev_name := ''TRACE'', sev_priority := 100\<rparr>"

definition debug_severity :: severity where
  "debug_severity = severity_base\<lparr>sev_name := ''DEBUG'', sev_priority := 200\<rparr>"

definition info_severity :: severity where
  "info_severity = severity_base\<lparr>sev_name := ''INFO'', sev_priority := 300\<rparr>"

definition warn_severity :: severity where
  "warn_severity = severity_base\<lparr>sev_name := ''WARN'', sev_priority := 400\<rparr>"

definition error_severity :: severity where
  "error_severity = severity_base\<lparr>sev_name := ''ERROR'', sev_priority := 500\<rparr>"

definition fatal_severity :: severity where
  "fatal_severity = severity_base\<lparr>sev_name := ''FATAL'', sev_priority := 600,
     sev_force_sync := True, sev_flush_after := True\<rparr>"

lemmas severity_defs =
  severity_base_def trace_severity_def debug_severity_def info_severity_def
  warn_severity_def error_severity_def fatal_severity_def

lemma builtin_priorities [simp]:
  "sev_priority trace_severity = 100" "sev_priority debug_severity = 200"
  "sev_priority info_severity = 300" "sev_priority warn_severity = 400"
  "sev_priority error_severity = 500" "sev_priority fatal_severity = 600"
  by (simp_all add: severity_defs)

text \<open>The closed set of built-in severities, for statements that range over all of them.\<close>

datatype builtin = Trace | Debug | Info | Warn | Error | Fatal

primrec builtin_severity :: "builtin \<Rightarrow> severity" where
  "builtin_severity Trace = trace_severity"
| "builtin_severity Debug = debug_severity"
| "builtin_severity Info = info_severity"
| "builtin_severity Warn = warn_severity"
| "builtin_severity Error = error_severity"
| "builtin_severity Fatal = fatal_severity"

instantiation builtin :: linorder
begin

definition less_eq_builtin :: "builtin \<Rightarrow> builtin \<Rightarrow> bool" where
  "a \<le> b \<longleftrightarrow> sev_priority (builtin_severity a) \<le> sev_priority (builtin_severity b)"

definition less_builtin :: "builtin \<Rightarrow> builtin \<Rightarrow> bool" where
  "a < b \<longleftrightarrow> sev_priority (builtin_severity a) < sev_priority (builtin_severity b)"

instance
proof
  fix a b c :: builtin
  show "(a < b) = (a \<le> b \<and> \<not> b \<le> a)"
    by (auto simp: less_eq_builtin_def less_builtin_def)
  show "a \<le> a" by (simp add: less_eq_builtin_def)
  show "a \<le> b \<Longrightarrow> b \<le> c \<Longrightarrow> a \<le> c" by (simp add: less_eq_builtin_def)
  show "a \<le> b \<Longrightarrow> b \<le> a \<Longrightarrow> a = b"
    by (cases a; cases b) (simp_all add: less_eq_builtin_def)
  show "a \<le> b \<or> b \<le> a" by (auto simp: less_eq_builtin_def)
qed

end

lemma builtin_priority_bounds:
  "100 \<le> sev_priority (builtin_severity b)" "sev_priority (builtin_severity b) \<le> 600"
  by (cases b; simp)+

lemma builtin_name_nonempty [simp]: "sev_name (builtin_severity b) \<noteq> []"
  by (cases b) (simp_all add: severity_defs)

subsection \<open>Events\<close>

text \<open>
  \<open>FieldValue\<close> is the variant of \<open>event.hpp\<close>. A \<open>std::int64_t\<close> is a 64-bit word read with
  \<open>sint\<close>; a \<open>double\<close> is its IEEE-754 bit pattern.
\<close>

datatype field_value =
    FNull
  | FBool bool
  | FInt "64 word"
  | FDouble "64 word"
  | FString string

record field =
  field_key :: string
  field_val :: field_value

record source_location =
  loc_file :: string
  loc_line :: u32
  loc_func :: string

record event =
  ev_timestamp :: int
  ev_severity_name :: string
  ev_severity_priority :: u16
  ev_endpoint :: string
  ev_message :: string
  ev_source :: source_location
  ev_thread_id :: nat
  ev_fields :: "field list"

text \<open>The default constructor, with the member initialisers of the class.\<close>

definition default_event :: event where
  "default_event =
     \<lparr>ev_timestamp = 0, ev_severity_name = ''INFO'', ev_severity_priority = 300,
      ev_endpoint = [], ev_message = [],
      ev_source = \<lparr>loc_file = [], loc_line = 0, loc_func = []\<rparr>,
      ev_thread_id = 0, ev_fields = []\<rparr>"

definition set_timestamp :: "int \<Rightarrow> event \<Rightarrow> event" where
  "set_timestamp v e = e\<lparr>ev_timestamp := v\<rparr>"

definition set_severity :: "string \<Rightarrow> u16 \<Rightarrow> event \<Rightarrow> event" where
  "set_severity name priority e =
     e\<lparr>ev_severity_name := name, ev_severity_priority := priority\<rparr>"

definition set_endpoint :: "string \<Rightarrow> event \<Rightarrow> event" where
  "set_endpoint endpoint e = e\<lparr>ev_endpoint := endpoint\<rparr>"

definition set_message :: "string \<Rightarrow> event \<Rightarrow> event" where
  "set_message message e = e\<lparr>ev_message := message\<rparr>"

definition set_source :: "source_location \<Rightarrow> event \<Rightarrow> event" where
  "set_source loc e = e\<lparr>ev_source := loc\<rparr>"

definition set_thread_id :: "nat \<Rightarrow> event \<Rightarrow> event" where
  "set_thread_id tid e = e\<lparr>ev_thread_id := tid\<rparr>"

definition set_fields :: "field list \<Rightarrow> event \<Rightarrow> event" where
  "set_fields fs e = e\<lparr>ev_fields := fs\<rparr>"

text \<open>
  \<open>Logger::make_event_\<close> (\<open>logger.hpp\<close>): the timestamp is the clock reading of the call, the
  thread identity that of the caller.
\<close>

definition make_event ::
  "severity \<Rightarrow> string \<Rightarrow> int \<Rightarrow> nat \<Rightarrow> source_location \<Rightarrow> string \<Rightarrow> event" where
  "make_event sev endpoint now tid loc message =
     (let e0 = set_timestamp now default_event;
          e1 = set_severity (sev_name sev) (sev_priority sev) e0;
          e2 = set_endpoint endpoint e1;
          e3 = set_source loc e2;
          e4 = set_thread_id tid e3
      in set_message message e4)"

lemmas event_setter_defs = set_timestamp_def set_severity_def set_endpoint_def set_message_def
  set_source_def set_thread_id_def

lemma make_event_sel [simp]:
  "ev_timestamp (make_event sev ep now tid loc m) = now"
  "ev_severity_name (make_event sev ep now tid loc m) = sev_name sev"
  "ev_severity_priority (make_event sev ep now tid loc m) = sev_priority sev"
  "ev_endpoint (make_event sev ep now tid loc m) = ep"
  "ev_message (make_event sev ep now tid loc m) = m"
  "ev_source (make_event sev ep now tid loc m) = loc"
  "ev_thread_id (make_event sev ep now tid loc m) = tid"
  "ev_fields (make_event sev ep now tid loc m) = []"
  by (simp_all add: make_event_def event_setter_defs default_event_def Let_def)

lemma set_fields_sel [simp]:
  "ev_endpoint (set_fields fs e) = ev_endpoint e"
  "ev_severity_priority (set_fields fs e) = ev_severity_priority e"
  "ev_severity_name (set_fields fs e) = ev_severity_name e"
  "ev_message (set_fields fs e) = ev_message e"
  "ev_fields (set_fields fs e) = fs"
  by (simp_all add: set_fields_def)

end
