(* ===== verification/Text_Format.thy ===== *)
theory Text_Format
  imports Event_Model
begin

section \<open>Strings, number formatting and time stamps\<close>

text \<open>
  What the renderers use of \<open>std::string\<close>, \<open>std::format\<close> and \<open>snprintf\<close>: substring search
  and replacement, decimal output with zero padding, and the two time formats of
  \<open>pattern_renderer.cpp\<close> and \<open>file_sink.cpp\<close>. The conversion of a clock value to local
  broken-down time depends on the platform's time zone: it is the parameter \<open>local_tm\<close>.
\<close>

subsection \<open>Search and replacement\<close>

fun starts_with :: "string \<Rightarrow> string \<Rightarrow> bool" where
  "starts_with [] s = True"
| "starts_with (k # ks) [] = False"
| "starts_with (k # ks) (c # cs) = (k = c \<and> starts_with ks cs)"

text \<open>The first position at which the key occurs; \<open>None\<close> is \<open>npos\<close>.\<close>

fun find_at :: "string \<Rightarrow> string \<Rightarrow> nat option" where
  "find_at key [] = (if key = [] then Some 0 else None)"
| "find_at key (c # cs) =
     (if starts_with key (c # cs) then Some 0 else map_option Suc (find_at key cs))"

text \<open>\<open>s.find(key, pos)\<close> and \<open>s.replace(pos, n, val)\<close> for \<open>pos \<le> s.size()\<close>.\<close>

definition std_find :: "string \<Rightarrow> string \<Rightarrow> nat \<Rightarrow> nat option" where
  "std_find s key pos =
     (if pos \<le> length s then map_option (\<lambda>i. pos + i) (find_at key (drop pos s)) else None)"

definition std_replace :: "string \<Rightarrow> nat \<Rightarrow> nat \<Rightarrow> string \<Rightarrow> string" where
  "std_replace s pos n val = take pos s @ val @ drop (pos + n) s"

lemma starts_with_append [simp]: "starts_with key (key @ s)"
  by (induction key) auto

lemma starts_with_iff: "starts_with key s \<longleftrightarrow> (\<exists>t. s = key @ t)"
proof (induction key s rule: starts_with.induct)
  case (3 k ks c cs)
  then show ?case by auto
qed auto

lemma starts_with_length: "starts_with key s \<Longrightarrow> length key \<le> length s"
  by (auto simp: starts_with_iff)

lemma starts_with_drop: "starts_with key s \<Longrightarrow> key @ drop (length key) s = s"
  by (auto simp: starts_with_iff)

lemma find_at_Some:
  "find_at key s = Some i \<Longrightarrow> i \<le> length s \<and> starts_with key (drop i s)"
proof (induction key s arbitrary: i rule: find_at.induct)
  case (1 key)
  then show ?case by (auto split: if_splits)
next
  case (2 key c cs)
  then show ?case by (auto split: if_splits)
qed

lemma find_at_first:
  "find_at key s = Some i \<Longrightarrow> j < i \<Longrightarrow> \<not> starts_with key (drop j s)"
proof (induction key s arbitrary: i j rule: find_at.induct)
  case (1 key)
  then show ?case by (auto split: if_splits)
next
  case (2 key c cs)
  then show ?case by (cases j) (auto split: if_splits)
qed

lemma find_at_None:
  "find_at key s = None \<Longrightarrow> \<not> starts_with key (drop j s)"
proof (induction key s arbitrary: j rule: find_at.induct)
  case (1 key)
  then show ?case by (cases key) (auto split: if_splits)
next
  case (2 key c cs)
  then show ?case by (cases j) (auto split: if_splits)
qed

lemma find_at_decomp:
  "find_at key s = Some i \<Longrightarrow> s = take i s @ key @ drop (i + length key) s"
  by (metis append_take_drop_id drop_drop find_at_Some starts_with_drop add.commute)

subsection \<open>Decimal numbers\<close>

definition digit_char :: "nat \<Rightarrow> char" where
  "digit_char d = char_of (48 + d)"

fun dec :: "nat \<Rightarrow> string" where
  "dec n = (if n < 10 then [digit_char n] else dec (n div 10) @ [digit_char (n mod 10)])"

declare dec.simps [simp del]

definition fmt_int :: "int \<Rightarrow> string" where
  "fmt_int i = (if i < 0 then ''-'' @ dec (nat (- i)) else dec (nat i))"

text \<open>\<open>%0wd\<close> and \<open>{:0wd}\<close>: zeros between the sign and the digits up to the width.\<close>

definition fmt_pad :: "nat \<Rightarrow> int \<Rightarrow> string" where
  "fmt_pad w i =
     (let sign = (if i < 0 then ''-'' else []); digits = dec (nat \<bar>i\<bar>)
      in sign @ replicate (w - length sign - length digits) (CHR ''0'') @ digits)"

text \<open>Reading decimal digits back, to state that formatting loses nothing.\<close>

definition is_digit :: "char \<Rightarrow> bool" where
  "is_digit c \<longleftrightarrow> 48 \<le> (of_char c :: nat) \<and> (of_char c :: nat) < 58"

definition undec :: "string \<Rightarrow> nat" where
  "undec s = foldl (\<lambda>a c. 10 * a + (of_char c - 48)) 0 s"

lemma of_digit_char: "d < 10 \<Longrightarrow> of_char (digit_char d) = 48 + d"
  by (simp add: digit_char_def of_char_of)

lemma is_digit_digit_char: "d < 10 \<Longrightarrow> is_digit (digit_char d)"
  by (simp add: is_digit_def of_digit_char)

lemma dec_nonempty [simp]: "dec n \<noteq> []"
  by (subst dec.simps) simp

lemma dec_digits: "c \<in> set (dec n) \<Longrightarrow> is_digit c"
proof (induction n arbitrary: c rule: dec.induct)
  case (1 n)
  show ?case
  proof (cases "n < 10")
    case True
    then show ?thesis using "1.prems" by (simp add: dec.simps [of n] is_digit_digit_char)
  next
    case False
    then show ?thesis using 1 by (auto simp: dec.simps [of n] is_digit_digit_char)
  qed
qed

lemma undec_append: "undec (xs @ [c]) = 10 * undec xs + (of_char c - 48)"
  by (simp add: undec_def)

lemma undec_dec [simp]: "undec (dec n) = n"
proof (induction n rule: dec.induct)
  case (1 n)
  show ?case
  proof (cases "n < 10")
    case True
    then show ?thesis by (simp add: dec.simps [of n] undec_def of_digit_char)
  next
    case False
    then show ?thesis using 1 by (simp add: dec.simps [of n] undec_append of_digit_char)
  qed
qed

lemma dec_inj: "dec m = dec n \<longleftrightarrow> m = n"
  by (metis undec_dec)

lemma undec_zeros [simp]: "undec (replicate k (CHR ''0'') @ s) = undec s"
proof -
  have "foldl (\<lambda>a c. 10 * a + (of_char c - 48)) 0 (replicate k (CHR ''0'')) = (0::nat)"
    by (induction k) auto
  then show ?thesis by (simp add: undec_def)
qed

lemma dec_length: "n < 10 ^ Suc k \<Longrightarrow> length (dec n) \<le> Suc k"
proof (induction k arbitrary: n)
  case 0
  then show ?case by (simp add: dec.simps [of n])
next
  case (Suc k)
  show ?case
  proof (cases "n < 10")
    case True
    then show ?thesis by (simp add: dec.simps [of n])
  next
    case False
    moreover have "n div 10 < 10 ^ Suc k" using Suc.prems by (simp add: less_mult_imp_div_less)
    ultimately show ?thesis using Suc.IH by (simp add: dec.simps [of n])
  qed
qed

lemma fmt_pad_nonneg:
  "0 \<le> i \<Longrightarrow> fmt_pad w i = replicate (w - length (dec (nat i))) (CHR ''0'') @ dec (nat i)"
  by (simp add: fmt_pad_def Let_def)

lemma fmt_pad_length:
  assumes "0 \<le> i" "i < 10 ^ Suc k"
  shows "length (fmt_pad (Suc k) i) = Suc k"
proof -
  have "nat i < 10 ^ Suc k" using assms by (simp add: nat_less_iff)
  then have "length (dec (nat i)) \<le> Suc k" by (rule dec_length)
  with assms(1) show ?thesis by (simp add: fmt_pad_nonneg)
qed

lemma undec_fmt_pad: "0 \<le> i \<Longrightarrow> undec (fmt_pad w i) = nat i"
  by (simp add: fmt_pad_nonneg)

subsection \<open>Time stamps\<close>

text \<open>
  \<open>std::tm\<close>, with the fields the code reads. The buffer of \<open>PatternRenderer::format_time\<close>
  has 32 bytes, of which \<open>snprintf\<close> fills at most 31 before the terminating zero.
\<close>

record tm =
  tm_year :: int
  tm_mon :: int
  tm_mday :: int
  tm_hour :: int
  tm_min :: int
  tm_sec :: int

definition snprintf_buf :: "nat \<Rightarrow> string \<Rightarrow> string" where
  "snprintf_buf n s = take (n - 1) s"

definition format_time :: "(int \<Rightarrow> tm) \<Rightarrow> int \<Rightarrow> string" where
  "format_time local_tm tp =
     (let t = local_tm tp
      in snprintf_buf 32
           (fmt_pad 4 (tm_year t + 1900) @ ''-'' @ fmt_pad 2 (tm_mon t + 1) @ ''-'' @
            fmt_pad 2 (tm_mday t) @ '' '' @ fmt_pad 2 (tm_hour t) @ '':'' @
            fmt_pad 2 (tm_min t) @ '':'' @ fmt_pad 2 (tm_sec t)))"

definition today_ymd :: "(int \<Rightarrow> tm) \<Rightarrow> int \<Rightarrow> string" where
  "today_ymd local_tm now =
     (let t = local_tm now
      in fmt_pad 4 (tm_year t + 1900) @ fmt_pad 2 (tm_mon t + 1) @ fmt_pad 2 (tm_mday t))"

text \<open>The ranges \<open>localtime_r\<close> documents, for years of four digits.\<close>

definition tm_ok :: "tm \<Rightarrow> bool" where
  "tm_ok t \<longleftrightarrow> 0 \<le> tm_year t + 1900 \<and> tm_year t + 1900 < 10000 \<and>
     0 \<le> tm_mon t \<and> tm_mon t < 12 \<and> 1 \<le> tm_mday t \<and> tm_mday t \<le> 31 \<and>
     0 \<le> tm_hour t \<and> tm_hour t < 24 \<and> 0 \<le> tm_min t \<and> tm_min t < 60 \<and>
     0 \<le> tm_sec t \<and> tm_sec t \<le> 60"

text \<open>A reader for the fixed columns of the format.\<close>

definition column :: "nat \<Rightarrow> nat \<Rightarrow> string \<Rightarrow> int" where
  "column pos n s = int (undec (take n (drop pos s)))"

definition read_time :: "string \<Rightarrow> tm" where
  "read_time s =
     \<lparr>tm_year = column 0 4 s - 1900, tm_mon = column 5 2 s - 1, tm_mday = column 8 2 s,
      tm_hour = column 11 2 s, tm_min = column 14 2 s, tm_sec = column 17 2 s\<rparr>"

lemma fmt_pad_2: "0 \<le> i \<Longrightarrow> i < 100 \<Longrightarrow> length (fmt_pad 2 i) = 2"
  using fmt_pad_length [of i 1] by (simp add: numeral_2_eq_2)

lemma fmt_pad_4: "0 \<le> i \<Longrightarrow> i < 10000 \<Longrightarrow> length (fmt_pad 4 i) = 4"
  using fmt_pad_length [of i 3] by (simp add: eval_nat_numeral)

lemma tm_ok_lengths:
  assumes "tm_ok t"
  shows "length (fmt_pad 4 (tm_year t + 1900)) = 4" "length (fmt_pad 2 (tm_mon t + 1)) = 2"
    "length (fmt_pad 2 (tm_mday t)) = 2" "length (fmt_pad 2 (tm_hour t)) = 2"
    "length (fmt_pad 2 (tm_min t)) = 2" "length (fmt_pad 2 (tm_sec t)) = 2"
  using assms by (simp_all add: tm_ok_def fmt_pad_2 fmt_pad_4)

lemma tm_ok_undec:
  assumes "tm_ok t"
  shows "undec (fmt_pad 4 (tm_year t + 1900)) = nat (tm_year t + 1900)"
    "undec (fmt_pad 2 (tm_mon t + 1)) = nat (tm_mon t + 1)"
    "undec (fmt_pad 2 (tm_mday t)) = nat (tm_mday t)"
    "undec (fmt_pad 2 (tm_hour t)) = nat (tm_hour t)"
    "undec (fmt_pad 2 (tm_min t)) = nat (tm_min t)"
    "undec (fmt_pad 2 (tm_sec t)) = nat (tm_sec t)"
  using assms by (simp_all add: tm_ok_def undec_fmt_pad)

lemma format_time_bounded: "length (format_time local_tm tp) \<le> 31"
  by (simp add: format_time_def snprintf_buf_def Let_def)

text \<open>
  For broken-down times in the ranges \<open>localtime_r\<close> documents, the time stamp has exactly
  19 characters, so the 32-byte buffer never truncates it, and every field can be read back
  from its column.
\<close>

theorem format_time_roundtrip:
  assumes "tm_ok (local_tm tp)"
  shows "length (format_time local_tm tp) = 19 \<and> read_time (format_time local_tm tp) = local_tm tp"
proof -
  let ?t = "local_tm tp"
  note len = tm_ok_lengths [OF assms] and und = tm_ok_undec [OF assms]
  have "read_time (format_time local_tm tp) = ?t"
    using assms
    by (simp add: format_time_def snprintf_buf_def Let_def read_time_def column_def len und tm_ok_def)
  then show ?thesis
    by (simp add: format_time_def snprintf_buf_def Let_def len)
qed

definition sample_tm :: tm where
  "sample_tm = \<lparr>tm_year = 126, tm_mon = 0, tm_mday = 9, tm_hour = 7, tm_min = 5, tm_sec = 30\<rparr>"

lemma sample_tm_ok: "tm_ok sample_tm"
  by (simp add: tm_ok_def sample_tm_def)

theorem format_time_roundtrip_witness:
  "length (format_time (\<lambda>_. sample_tm) 0) = 19 \<and>
   read_time (format_time (\<lambda>_. sample_tm) 0) = sample_tm"
  by (rule format_time_roundtrip [OF sample_tm_ok])

text \<open>
  The day string of the file sink has eight characters and tells two days apart exactly
  when their dates differ, so comparing the strings is comparing the calendar days.
\<close>

theorem today_ymd_identifies_day:
  assumes "tm_ok (local_tm a)" "tm_ok (local_tm b)"
  shows "length (today_ymd local_tm a) = 8 \<and>
    (today_ymd local_tm a = today_ymd local_tm b \<longleftrightarrow>
       tm_year (local_tm a) = tm_year (local_tm b) \<and> tm_mon (local_tm a) = tm_mon (local_tm b) \<and>
       tm_mday (local_tm a) = tm_mday (local_tm b))"
proof -
  note la = tm_ok_lengths [OF assms(1)] and lb = tm_ok_lengths [OF assms(2)]
  note ua = tm_ok_undec [OF assms(1)] and ub = tm_ok_undec [OF assms(2)]
  have pad: "fmt_pad w i = fmt_pad w j \<longleftrightarrow> i = j" if "0 \<le> i" "0 \<le> j" for w i j
    using that undec_fmt_pad by (metis eq_nat_nat_iff)
  show ?thesis using assms by (simp add: today_ymd_def Let_def la lb pad tm_ok_def)
qed

definition next_day_tm :: tm where
  "next_day_tm = sample_tm\<lparr>tm_mday := 10\<rparr>"

theorem today_ymd_identifies_day_witness:
  "today_ymd (\<lambda>i. if i = 0 then sample_tm else next_day_tm) 0
   \<noteq> today_ymd (\<lambda>i. if i = 0 then sample_tm else next_day_tm) 1"
  using today_ymd_identifies_day [of "\<lambda>i. if i = 0 then sample_tm else next_day_tm" 0 1]
  by (simp add: tm_ok_def sample_tm_def next_day_tm_def)

subsection \<open>The platform\<close>

text \<open>
  What the renderers obtain from the platform: local broken-down time
  (\<open>to_time_t\<close> and \<open>localtime_r\<close>), \<open>std::hash<std::thread::id>\<close>, and the shortest
  round-trip text \<open>std::format("{}", double)\<close> gives for a bit pattern.
\<close>

record platform =
  pf_local_tm :: "int \<Rightarrow> tm"
  pf_tid_hash :: "nat \<Rightarrow> u64"
  pf_fmt_double :: "64 word \<Rightarrow> string"

end
