(* ===== verification/Filters.thy ===== *)
theory Filters
  imports Text_Format
begin

section \<open>Filters\<close>

text \<open>
  \<open>SeverityFilter\<close> and \<open>EndpointFilter\<close> of \<open>logger.hpp\<close> and \<open>logger.cpp\<close>, and user-defined
  filters as functions. Routes and the pipeline share filters through \<open>std::shared_ptr\<close>, and
  an endpoint filter can be changed after it was added: filters live in a store, and a pointer
  is an optional address in it (\<open>None\<close> is a null pointer).
\<close>

datatype filter =
    SeverityFilter u16
  | EndpointFilter "string list" "string list" \<comment> \<open>allowed and denied prefixes\<close>
  | CustomFilter "event \<Rightarrow> bool"

type_synonym filter_ref = nat
type_synonym filter_ptr = "filter_ref option"
type_synonym filter_store = "filter_ref \<Rightarrow> filter"

definition at_least :: "severity \<Rightarrow> filter" where
  "at_least minimum = SeverityFilter (sev_priority minimum)"

definition severity_pass :: "u16 \<Rightarrow> event \<Rightarrow> bool" where
  "severity_pass minimum_priority e \<longleftrightarrow> ev_severity_priority e \<ge> minimum_priority"

definition matches_prefix :: "string \<Rightarrow> string \<Rightarrow> bool" where
  "matches_prefix ep pre =
     (if pre = [] then True
      else if length ep < length pre then False
      else take (length pre) ep = pre)"

fun matches_any :: "string \<Rightarrow> string list \<Rightarrow> bool" where
  "matches_any ep [] = False"
| "matches_any ep (p # ps) = (if matches_prefix ep p then True else matches_any ep ps)"

definition endpoint_pass :: "string list \<Rightarrow> string list \<Rightarrow> event \<Rightarrow> bool" where
  "endpoint_pass allow_prefixes deny_prefixes e =
     (if matches_any (ev_endpoint e) deny_prefixes then False
      else if allow_prefixes = [] then True
      else matches_any (ev_endpoint e) allow_prefixes)"

primrec filter_pass :: "filter \<Rightarrow> event \<Rightarrow> bool" where
  "filter_pass (SeverityFilter m) e = severity_pass m e"
| "filter_pass (EndpointFilter a d) e = endpoint_pass a d e"
| "filter_pass (CustomFilter p) e = p e"

text \<open>\<open>EndpointFilter::allow\<close> and \<open>deny\<close>, on the filter at an address.\<close>

primrec add_allow :: "string \<Rightarrow> filter \<Rightarrow> filter" where
  "add_allow p (EndpointFilter a d) = EndpointFilter (a @ [p]) d"
| "add_allow p (SeverityFilter m) = SeverityFilter m"
| "add_allow p (CustomFilter f) = CustomFilter f"

primrec add_deny :: "string \<Rightarrow> filter \<Rightarrow> filter" where
  "add_deny p (EndpointFilter a d) = EndpointFilter a (d @ [p])"
| "add_deny p (SeverityFilter m) = SeverityFilter m"
| "add_deny p (CustomFilter f) = CustomFilter f"

definition filter_allow :: "filter_ref \<Rightarrow> string \<Rightarrow> filter_store \<Rightarrow> filter_store" where
  "filter_allow r p fs = fs(r := add_allow p (fs r))"

definition filter_deny :: "filter_ref \<Rightarrow> string \<Rightarrow> filter_store \<Rightarrow> filter_store" where
  "filter_deny r p fs = fs(r := add_deny p (fs r))"

text \<open>
  The loop that \<open>dispatch_sync_\<close>, \<open>submit\<close> and \<open>route_passes_\<close> share: null pointers are
  skipped, and the first filter that refuses the event ends it.
\<close>

fun filters_pass :: "filter_store \<Rightarrow> filter_ptr list \<Rightarrow> event \<Rightarrow> bool" where
  "filters_pass fs [] e = True"
| "filters_pass fs (None # ps) e = filters_pass fs ps e"
| "filters_pass fs (Some r # ps) e = (if \<not> filter_pass (fs r) e then False else filters_pass fs ps e)"

lemmas [route_simps] = severity_pass_def endpoint_pass_def matches_prefix_def

subsection \<open>Meaning of the filters\<close>

lemma matches_prefix_iff: "matches_prefix ep pre \<longleftrightarrow> starts_with pre ep"
proof -
  have "take (length pre) ep = pre \<longleftrightarrow> (\<exists>t. ep = pre @ t)"
    by (metis append_eq_conv_conj append_take_drop_id)
  moreover have "length ep < length pre \<Longrightarrow> \<not> (\<exists>t. ep = pre @ t)" by auto
  ultimately show ?thesis by (auto simp: matches_prefix_def starts_with_iff)
qed

lemma matches_any_iff: "matches_any ep ps \<longleftrightarrow> (\<exists>p \<in> set ps. starts_with p ep)"
  by (induction ps) (auto simp: matches_prefix_iff)

lemma filters_pass_iff:
  "filters_pass fs ps e \<longleftrightarrow> (\<forall>r. Some r \<in> set ps \<longrightarrow> filter_pass (fs r) e)"
  by (induction fs ps e rule: filters_pass.induct) auto

lemma endpoint_pass_iff:
  "endpoint_pass a d e \<longleftrightarrow>
     \<not> (\<exists>p \<in> set d. starts_with p (ev_endpoint e)) \<and>
     (a = [] \<or> (\<exists>p \<in> set a. starts_with p (ev_endpoint e)))"
  by (auto simp: endpoint_pass_def matches_any_iff)

lemma endpoint_pass_cong:
  "ev_endpoint e = ev_endpoint e' \<Longrightarrow> endpoint_pass a d e = endpoint_pass a d e'"
  by (simp add: endpoint_pass_def)

text \<open>
  An endpoint filter passes an event exactly when no denied prefix starts its endpoint and
  the allow list is empty or one of its prefixes starts the endpoint: deny wins over allow, and
  the empty prefix matches everything.
\<close>

theorem endpoint_filter_meaning:
  "filter_pass (EndpointFilter a d) e \<longleftrightarrow>
     \<not> (\<exists>p \<in> set d. \<exists>t. ev_endpoint e = p @ t) \<and>
     (a = [] \<or> (\<exists>p \<in> set a. \<exists>t. ev_endpoint e = p @ t))"
  by (simp add: endpoint_pass_iff starts_with_iff)

theorem endpoint_filter_meaning_witness:
  "filter_pass (EndpointFilter [''net.'', ''ui.''] [''net.secret''])
      (default_event\<lparr>ev_endpoint := ''net.main''\<rparr>) \<and>
   \<not> filter_pass (EndpointFilter [''net.'', ''ui.''] [''net.secret''])
      (default_event\<lparr>ev_endpoint := ''net.secret.module''\<rparr>)"
  by (subst (1 2) endpoint_filter_meaning) simp

text \<open>
  Changing a shared endpoint filter acts as its name says for every route that holds it:
  \<open>deny\<close> only ever removes events, and \<open>allow\<close> only ever adds events, unless the allow list was
  empty, when the first \<open>allow\<close> restricts the filter to its prefix.
\<close>

theorem allow_deny_monotone:
  "(filter_pass (filter_deny r p fs q) e \<longrightarrow> filter_pass (fs q) e) \<and>
   (filter_pass (fs q) e \<longrightarrow>
      (\<exists>d. fs r = EndpointFilter [] d) \<or> filter_pass (filter_allow r p fs q) e) \<and>
   (fs r = EndpointFilter [] d \<longrightarrow>
      filter_pass (filter_allow r p fs r) e =
        (filter_pass (fs r) e \<and> starts_with p (ev_endpoint e)))"
  by (cases "fs r"; cases "q = r")
    (auto simp: filter_deny_def filter_allow_def endpoint_pass_iff)

theorem allow_deny_monotone_witness:
  "\<not> filter_pass (filter_allow 0 ''net'' (\<lambda>_. EndpointFilter [] []) 0)
       (default_event\<lparr>ev_endpoint := ''ui''\<rparr>)"
  using allow_deny_monotone [of 0 "''net''" "\<lambda>_. EndpointFilter [] []" 0
      "default_event\<lparr>ev_endpoint := ''ui''\<rparr>" "[]"]
  by simp

end
