(* ===== verification/Pattern_Renderer.thy ===== *)
theory Pattern_Renderer
  imports Text_Format
begin

section \<open>The pattern and ANSI renderers\<close>

text \<open>
  \<open>src/renderers/pattern_renderer.cpp\<close>. \<open>replace_all\<close> is the loop of the lambda in
  \<open>PatternRenderer::render\<close>; \<open>subst_all\<close> is the one-pass substitution it is equal to.
  A pattern is expanded token after token, in the order of \<open>token_order\<close>.
\<close>

abbreviation newline :: char where
  "newline \<equiv> CHR 0x0A"

text \<open>The tail both the renderers and the default rendering of a route share.\<close>

definition terminate_line :: "string \<Rightarrow> string" where
  "terminate_line out = (if out \<noteq> [] \<and> last out \<noteq> newline then out @ [newline] else out)"

lemma terminate_line_last: "terminate_line out \<noteq> [] \<Longrightarrow> last (terminate_line out) = newline"
  by (auto simp: terminate_line_def)

lemma terminate_line_empty [simp]: "terminate_line out = [] \<longleftrightarrow> out = []"
  by (auto simp: terminate_line_def)

subsection \<open>Replacing every occurrence\<close>

text \<open>
  The loop: find the key at or after \<open>pos\<close>, replace it, continue behind the inserted text.
  The C++ loop does not terminate for an empty key; its nine callers pass non-empty literals,
  and the model returns at once there.
\<close>

function replace_loop :: "string \<Rightarrow> string \<Rightarrow> string \<Rightarrow> nat \<Rightarrow> string" where
  "replace_loop key val out pos =
     (if key = [] then out else
      case std_find out key pos of
        None \<Rightarrow> out
      | Some p \<Rightarrow> replace_loop key val (std_replace out p (length key) val) (p + length val))"
  by pat_completeness auto
termination
proof (relation "measure (\<lambda>(key, val, out, pos). length out - pos)")
  fix key val out :: string and pos p :: nat
  assume "key \<noteq> []" and f: "std_find out key pos = Some p"
  from f obtain i where i: "find_at key (drop pos out) = Some i" "p = pos + i" "pos \<le> length out"
    by (auto simp: std_find_def split: if_splits)
  from find_at_Some [OF i(1)] have "starts_with key (drop p out)"
    by (simp add: i(2) add.commute)
  from starts_with_length [OF this] \<open>key \<noteq> []\<close>
  have "p + length key \<le> length out" and key: "0 < length key"
    by (cases "p \<le> length out"; auto)+
  then have "length out - (length key + (pos + i)) < length out - pos"
    unfolding i(2) by linarith
  then show "((key, val, std_replace out p (length key) val, p + length val), key, val, out, pos)
      \<in> measure (\<lambda>(key, val, out, pos). length out - pos)"
    using i(2) by (simp add: std_replace_def)
qed simp

declare replace_loop.simps [simp del]

definition replace_all :: "string \<Rightarrow> string \<Rightarrow> string \<Rightarrow> string" where
  "replace_all key val out = replace_loop key val out 0"

fun subst_all :: "string \<Rightarrow> string \<Rightarrow> string \<Rightarrow> string" where
  "subst_all key val [] = []"
| "subst_all key val (c # cs) =
     (if key \<noteq> [] \<and> starts_with key (c # cs) then val @ subst_all key val (drop (length key) (c # cs))
      else c # subst_all key val cs)"

lemma subst_all_None: "find_at key s = None \<Longrightarrow> subst_all key val s = s"
  by (induction key s rule: find_at.induct) (auto split: if_splits)

lemma subst_all_Some:
  "key \<noteq> [] \<Longrightarrow> find_at key s = Some i \<Longrightarrow>
   subst_all key val s = take i s @ val @ subst_all key val (drop (i + length key) s)"
proof (induction key s arbitrary: i rule: find_at.induct)
  case (1 key)
  then show ?case by (simp split: if_splits)
next
  case (2 key c cs)
  then show ?case by (auto split: if_splits)
qed

lemma replace_loop_subst:
  "key \<noteq> [] \<Longrightarrow> pos \<le> length out \<Longrightarrow>
   replace_loop key val out pos = take pos out @ subst_all key val (drop pos out)"
proof (induction key val out pos rule: replace_loop.induct)
  case (1 key val out pos)
  show ?case
  proof (cases "find_at key (drop pos out)")
    case None
    then show ?thesis using "1.prems"
      by (simp add: replace_loop.simps [of key val out pos] std_find_def subst_all_None)
  next
    case (Some i)
    let ?out = "std_replace out (pos + i) (length key) val"
    from find_at_Some [OF Some] "1.prems"(2) have i: "pos + i \<le> length out" by auto
    have find: "std_find out key pos = Some (pos + i)"
      using Some "1.prems" by (simp add: std_find_def)
    have "replace_loop key val ?out (pos + i + length val)
          = take (pos + i + length val) ?out @ subst_all key val (drop (pos + i + length val) ?out)"
      using "1.IH" [OF "1.prems"(1) find "1.prems"(1)] i by (simp add: std_replace_def)
    also have "take (pos + i + length val) ?out = take (pos + i) out @ val"
      using i by (simp add: std_replace_def)
    also have "drop (pos + i + length val) ?out = drop (pos + i + length key) out"
      using i by (simp add: std_replace_def)
    finally have "replace_loop key val out pos
        = take (pos + i) out @ val @ subst_all key val (drop (pos + i + length key) out)"
      by (simp add: replace_loop.simps [of key val out pos] find "1.prems"(1))
    moreover have "take (pos + i) out = take pos out @ take i (drop pos out)"
      by (rule take_add)
    moreover have "drop (i + length key) (drop pos out) = drop (pos + i + length key) out"
      by (simp add: add.commute add.left_commute)
    ultimately show ?thesis
      by (simp only: subst_all_Some [OF "1.prems"(1) Some] append_assoc)
  qed
qed

lemma replace_all_subst: "key \<noteq> [] \<Longrightarrow> replace_all key val out = subst_all key val out"
  by (simp add: replace_all_def replace_loop_subst)

text \<open>
  C39. The in-place replacement loop of the pattern renderer, with its moving position, is the
  one-pass substitution: every occurrence of the token is replaced from left to right, and the
  inserted text is never searched again for the same token.
\<close>

theorem replace_all_is_substitution:
  assumes "key \<noteq> []"
  shows "replace_all key val out = subst_all key val out"
  using assms by (rule replace_all_subst)

theorem replace_all_is_substitution_witness:
  "replace_all ''{a}'' ''x{a}'' ''1{a}2{a}'' = ''1x{a}2x{a}''"
  using replace_all_is_substitution [of "''{a}''" "''x{a}''" "''1{a}2{a}''"] by simp

subsection \<open>The pattern renderer\<close>

datatype token =
  TTime | TSeverity | TPriority | TEndpoint | TMessage | TFile | TLine | TFunc | TTid

primrec token_key :: "token \<Rightarrow> string" where
  "token_key TTime = ''{time}''"
| "token_key TSeverity = ''{severity}''"
| "token_key TPriority = ''{severity_priority}''"
| "token_key TEndpoint = ''{endpoint}''"
| "token_key TMessage = ''{message}''"
| "token_key TFile = ''{file}''"
| "token_key TLine = ''{line}''"
| "token_key TFunc = ''{func}''"
| "token_key TTid = ''{tid}''"

primrec token_value :: "platform \<Rightarrow> event \<Rightarrow> token \<Rightarrow> string" where
  "token_value P e TTime = format_time (pf_local_tm P) (ev_timestamp e)"
| "token_value P e TSeverity = ev_severity_name e"
| "token_value P e TPriority = dec (unat (ev_severity_priority e))"
| "token_value P e TEndpoint = ev_endpoint e"
| "token_value P e TMessage = ev_message e"
| "token_value P e TFile = loc_file (ev_source e)"
| "token_value P e TLine = dec (unat (loc_line (ev_source e)))"
| "token_value P e TFunc = loc_func (ev_source e)"
| "token_value P e TTid = dec (unat (pf_tid_hash P (ev_thread_id e)))"

definition token_order :: "token list" where
  "token_order = [TTime, TSeverity, TPriority, TEndpoint, TMessage, TFile, TLine, TFunc, TTid]"

definition pattern_render :: "platform \<Rightarrow> string \<Rightarrow> event \<Rightarrow> string" where
  "pattern_render P pat e =
     terminate_line
       (fold (\<lambda>t out. replace_all (token_key t) (token_value P e t) out) token_order pat)"

lemma token_key_nonempty [simp]: "token_key t \<noteq> []"
  by (cases t) simp_all

lemma token_key_Cons: "\<exists>k. token_key t = CHR ''{'' # k \<and> CHR ''{'' \<notin> set k"
  by (cases t) simp_all

lemma token_key_prefix_free: "starts_with (token_key t) (token_key u @ s) \<longleftrightarrow> t = u"
  by (cases t; cases u) simp_all

lemma token_order_all: "set token_order = UNIV"
proof -
  have "t \<in> set token_order" for t by (cases t) (simp_all add: token_order_def)
  then show ?thesis by auto
qed

text \<open>A pattern as literal text and tokens, and its simultaneous expansion.\<close>

datatype segment = Lit string | Tok token

primrec seg_text :: "segment \<Rightarrow> string" where
  "seg_text (Lit s) = s"
| "seg_text (Tok t) = token_key t"

primrec seg_value :: "(token \<Rightarrow> string) \<Rightarrow> segment \<Rightarrow> string" where
  "seg_value f (Lit s) = s"
| "seg_value f (Tok t) = f t"

abbreviation pattern_text :: "segment list \<Rightarrow> string" where
  "pattern_text segs \<equiv> concat (map seg_text segs)"

abbreviation pattern_value :: "(token \<Rightarrow> string) \<Rightarrow> segment list \<Rightarrow> string" where
  "pattern_value f segs \<equiv> concat (map (seg_value f) segs)"

text \<open>Literal text and inserted values are free of the opening brace.\<close>

definition brace_free :: "(token \<Rightarrow> string) \<Rightarrow> segment list \<Rightarrow> bool" where
  "brace_free f segs \<longleftrightarrow> (\<forall>s \<in> set segs. CHR ''{'' \<notin>
     set (case s of Lit l \<Rightarrow> l | Tok t \<Rightarrow> f t))"

lemma subst_all_skip:
  "CHR ''{'' \<notin> set a \<Longrightarrow> subst_all (CHR ''{'' # k) v (a @ b) = a @ subst_all (CHR ''{'' # k) v b"
  by (induction a) auto

lemma subst_all_token_skip:
  assumes "CHR ''{'' \<notin> set a"
  shows "subst_all (token_key t) v (a @ b) = a @ subst_all (token_key t) v b"
  using token_key_Cons [of t] subst_all_skip [OF assms] by auto

lemma subst_all_token:
  "subst_all (token_key t) v (token_key u @ s) =
     (if t = u then v else token_key u) @ subst_all (token_key t) v s"
proof -
  obtain k where k: "token_key u = CHR ''{'' # k" "CHR ''{'' \<notin> set k"
    using token_key_Cons by blast
  have "starts_with (token_key t) (CHR ''{'' # k @ s) \<longleftrightarrow> t = u"
    using token_key_prefix_free [of t u s] by (simp add: k(1))
  then show ?thesis
    using k subst_all_token_skip [OF k(2), of t v s] by (auto simp: k(1))
qed

text \<open>One replacement step: the tokens already replaced are those of \<open>D\<close>.\<close>

definition stage :: "(token \<Rightarrow> string) \<Rightarrow> token set \<Rightarrow> token \<Rightarrow> string" where
  "stage f D t = (if t \<in> D then f t else token_key t)"

lemma stage_in: "t \<in> D \<Longrightarrow> stage f D t = f t"
  and stage_out: "t \<notin> D \<Longrightarrow> stage f D t = token_key t"
  by (simp_all add: stage_def)

lemma replace_stage:
  assumes "brace_free f segs" "t \<notin> D"
  shows "replace_all (token_key t) (f t) (pattern_value (stage f D) segs)
       = pattern_value (stage f (insert t D)) segs"
proof -
  have "subst_all (token_key t) (f t) (pattern_value (stage f D) segs)
      = pattern_value (stage f (insert t D)) segs"
    using assms
  proof (induction segs)
    case Nil
    then show ?case by simp
  next
    case (Cons s segs)
    then have IH: "subst_all (token_key t) (f t) (pattern_value (stage f D) segs)
      = pattern_value (stage f (insert t D)) segs"
      by (simp add: brace_free_def)
    show ?case
    proof (cases s)
      case (Lit l)
      then show ?thesis using Cons.prems IH by (simp add: subst_all_token_skip brace_free_def)
    next
      case (Tok u)
      then have free: "CHR ''{'' \<notin> set (f u)" using Cons.prems(1) by (simp add: brace_free_def)
      show ?thesis
      proof (cases "u \<in> D")
        case True
        with free IH Tok show ?thesis by (simp add: stage_in subst_all_token_skip)
      next
        case False
        with IH Tok Cons.prems(2) show ?thesis
          by (cases "t = u") (simp_all add: stage_in stage_out subst_all_token)
      qed
    qed
  qed
  then show ?thesis by (simp add: replace_all_subst)
qed

lemma fold_replace_stage:
  assumes "brace_free f segs" "distinct ts" "set ts \<inter> D = {}"
  shows "fold (\<lambda>t out. replace_all (token_key t) (f t) out) ts (pattern_value (stage f D) segs)
       = pattern_value (stage f (D \<union> set ts)) segs"
  using assms(2,3)
proof (induction ts arbitrary: D)
  case Nil
  then show ?case by simp
next
  case (Cons t ts)
  then have "fold (\<lambda>t out. replace_all (token_key t) (f t) out) ts
      (pattern_value (stage f (insert t D)) segs)
    = pattern_value (stage f (insert t D \<union> set ts)) segs"
    by auto
  with Cons.prems show ?case by (simp add: replace_stage [OF assms(1)])
qed

lemma pattern_value_key: "pattern_value token_key segs = pattern_text segs"
proof -
  have "seg_value token_key = seg_text"
  proof
    show "seg_value token_key s = seg_text s" for s by (cases s) simp_all
  qed
  then show ?thesis by simp
qed

lemma stage_empty: "stage f {} = token_key" and stage_UNIV: "stage f UNIV = f"
  by (auto simp: stage_def)

lemma pattern_expands:
  assumes "brace_free (token_value P e) segs"
  shows "pattern_render P (pattern_text segs) e
       = terminate_line (pattern_value (token_value P e) segs)"
proof -
  have "distinct token_order" by (simp add: token_order_def)
  from fold_replace_stage [OF assms this, of "{}"] show ?thesis
    by (simp add: pattern_render_def token_order_all stage_empty stage_UNIV pattern_value_key)
qed


definition plain_platform :: platform where
  "plain_platform =
     \<lparr>pf_local_tm = (\<lambda>_. sample_tm), pf_tid_hash = (\<lambda>_. 7), pf_fmt_double = (\<lambda>_. ''0.5'')\<rparr>"

definition sample_event :: event where
  "sample_event = default_event\<lparr>ev_endpoint := ''core'', ev_message := ''hi''\<rparr>"


text \<open>
  Token text inside an inserted value is expanded by the later replacements: a message
  that contains \<open>{tid}\<close> is rendered with the thread identity in it, although the documents
  say that text other than the pattern's tokens is copied literally.
\<close>

theorem pattern_message_is_expanded:
  "pattern_render P ''{message}'' (e\<lparr>ev_message := ''id={tid}''\<rparr>)
   = ''id='' @ dec (unat (pf_tid_hash P (ev_thread_id e))) @ [newline]"
proof -
  have digits: "last (dec n) \<noteq> newline" for n
    using dec_digits [of "last (dec n)" n] by (auto simp: is_digit_def)
  show ?thesis
    by (simp add: pattern_render_def token_order_def replace_all_subst terminate_line_def digits)
qed

subsection \<open>The ANSI console renderer\<close>

definition esc :: char where
  "esc = CHR 0x1B"

definition ansi_for :: "u16 \<Rightarrow> string" where
  "ansi_for priority =
     (if priority \<ge> sev_priority fatal_severity then esc # ''[35m''
      else if priority \<ge> sev_priority error_severity then esc # ''[31m''
      else if priority \<ge> sev_priority warn_severity then esc # ''[33m''
      else if priority \<ge> sev_priority info_severity then esc # ''[32m''
      else if priority \<ge> sev_priority debug_severity then esc # ''[36m''
      else esc # ''[90m'')"

definition ansi_reset :: string where
  "ansi_reset = esc # ''[0m''"

definition ansi_render :: "platform \<Rightarrow> string \<Rightarrow> event \<Rightarrow> string" where
  "ansi_render P pat e =
     (let out = pattern_render P pat e;
          sev = ev_severity_name e
      in case std_find out sev 0 of
           None \<Rightarrow> out
         | Some pos \<Rightarrow>
             std_replace out pos (length sev) (ansi_for (ev_severity_priority e) @ sev @ ansi_reset))"

lemma std_find_0: "std_find s key 0 = find_at key s"
  by (cases "find_at key s") (simp_all add: std_find_def)

lemma ansi_render_cases:
  "ansi_render P pat e =
     (case find_at (ev_severity_name e) (pattern_render P pat e) of
        None \<Rightarrow> pattern_render P pat e
      | Some pos \<Rightarrow>
          take pos (pattern_render P pat e) @ ansi_for (ev_severity_priority e) @
          ev_severity_name e @ ansi_reset @
          drop (pos + length (ev_severity_name e)) (pattern_render P pat e))"
  by (simp add: ansi_render_def Let_def std_find_0 std_replace_def split: option.split)

text \<open>
  The ANSI renderer changes nothing but the first occurrence of the severity name in the
  rendered line, which it wraps in the colour of the event's priority and the reset sequence;
  a line without the name is left as the pattern renderer made it.
\<close>

theorem ansi_render_wraps_first:
  "(\<exists>pre post. pattern_render P pat e = pre @ ev_severity_name e @ post \<and>
      (\<forall>j < length pre. \<not> starts_with (ev_severity_name e) (drop j (pattern_render P pat e))) \<and>
      ansi_render P pat e =
        pre @ ansi_for (ev_severity_priority e) @ ev_severity_name e @ ansi_reset @ post)
   \<or> (\<forall>j. \<not> starts_with (ev_severity_name e) (drop j (pattern_render P pat e))) \<and>
     ansi_render P pat e = pattern_render P pat e"
proof (cases "find_at (ev_severity_name e) (pattern_render P pat e)")
  case None
  then show ?thesis by (simp add: ansi_render_cases find_at_None)
next
  case (Some pos)
  from find_at_decomp [OF Some] find_at_first [OF Some] find_at_Some [OF Some] show ?thesis
    by (intro disjI1 exI [of _ "take pos (pattern_render P pat e)"]
        exI [of _ "drop (pos + length (ev_severity_name e)) (pattern_render P pat e)"])
      (simp add: ansi_render_cases Some)
qed

theorem ansi_render_wraps_first_witness:
  "ansi_render plain_platform ''{severity} {message}'' sample_event =
   ansi_for 300 @ ''INFO'' @ ansi_reset @ '' hi'' @ [newline]"
proof -
  have out: "pattern_render plain_platform ''{severity} {message}'' sample_event
      = ''INFO hi'' @ [newline]"
    by (simp add: pattern_render_def token_order_def replace_all_subst terminate_line_def
        sample_event_def default_event_def)
  have name: "ev_severity_name sample_event = ''INFO''" "ev_severity_priority sample_event = 300"
    by (simp_all add: sample_event_def default_event_def)
  from ansi_render_wraps_first [of plain_platform "''{severity} {message}''" sample_event]
  show ?thesis
    apply (simp only: out name)
    apply (elim disjE exE conjE)
    subgoal premises prems for pre post
    proof -
      have "length pre = 0"
      proof (rule ccontr)
        assume "length pre \<noteq> 0"
        with prems(2) have "\<not> starts_with ''INFO'' (''INFO hi'' @ [newline])"
          by (metis drop0 gr0I)
        then show False by simp
      qed
      with prems(1,3) show ?thesis by simp
    qed
    by (metis drop0 starts_with_append append_assoc append_Cons append_Nil)
qed

text \<open>The colours follow the priority thresholds of the built-in severities.\<close>

lemma ansi_for_builtin:
  "inj (\<lambda>b. ansi_for (sev_priority (builtin_severity b)))"
proof (rule injI)
  fix a b
  show "ansi_for (sev_priority (builtin_severity a)) = ansi_for (sev_priority (builtin_severity b))
        \<Longrightarrow> a = b"
    by (cases a; cases b) (simp_all add: ansi_for_def)
qed

text \<open>
  What a sink gets from either renderer is empty or ends in a newline. For the ANSI renderer
  this needs a severity name that is not empty and has no newline, as all built-in names are.
\<close>

lemma pattern_render_newline: "pattern_render P pat e \<noteq> [] \<Longrightarrow> last (pattern_render P pat e) = newline"
  unfolding pattern_render_def by (rule terminate_line_last)

lemma ansi_render_newline:
  assumes "ev_severity_name e \<noteq> []" "newline \<notin> set (ev_severity_name e)" "ansi_render P pat e \<noteq> []"
  shows "last (ansi_render P pat e) = newline"
proof (cases "find_at (ev_severity_name e) (pattern_render P pat e)")
  case None
  then show ?thesis using assms(3) by (simp add: ansi_render_cases pattern_render_newline)
next
  case (Some pos)
  let ?out = "pattern_render P pat e" and ?sev = "ev_severity_name e"
  let ?post = "drop (pos + length ?sev) ?out"
  have out: "?out = (take pos ?out @ ?sev) @ ?post" using find_at_decomp [OF Some] by simp
  then have ne: "?out \<noteq> []" using assms(1) by auto
  then have last: "last ?out = newline" by (rule pattern_render_newline)
  have "?post \<noteq> []"
  proof
    assume "?post = []"
    with out have "?out = take pos ?out @ ?sev" by simp
    then have "last ?out = last ?sev" using assms(1) by (metis last_appendR)
    with last assms(1,2) show False by (metis last_in_set)
  qed
  moreover have "last ?out = last ?post" using out \<open>?post \<noteq> []\<close> by (metis last_appendR)
  ultimately show ?thesis using last by (simp add: ansi_render_cases Some)
qed

end
