(* ===== verification/Json_Renderer.thy ===== *)
theory Json_Renderer
  imports Pattern_Renderer
begin

section \<open>The JSON renderer\<close>

text \<open>
  \<open>src/renderers/json_renderer.cpp\<close>. The C++ functions append to a string; so do the
  definitions. The specification side is an abstract document (\<open>json\<close>), its printer and an
  independent reader that accepts objects, strings, numbers and the three literals of RFC 8259
  without white space: what it reads is JSON.
\<close>

subsection \<open>The renderer\<close>

abbreviation dquote :: char where "dquote \<equiv> CHR 0x22"
abbreviation backslash :: char where "backslash \<equiv> CHR 0x5C"

definition hex_char :: "nat \<Rightarrow> char" where
  "hex_char d = (if d < 10 then char_of (48 + d) else char_of (87 + d))"

fun hex :: "nat \<Rightarrow> string" where
  "hex n = (if n < 16 then [hex_char n] else hex (n div 16) @ [hex_char (n mod 16)])"

declare hex.simps [simp del]

text \<open>\<open>{:04x}\<close>.\<close>

definition fmt_hex04 :: "nat \<Rightarrow> string" where
  "fmt_hex04 n = replicate (4 - length (hex n)) (CHR ''0'') @ hex n"

definition json_escape_char :: "char \<Rightarrow> string" where
  "json_escape_char c =
     (if c = dquote then [backslash, dquote]
      else if c = backslash then [backslash, backslash]
      else if c = CHR 0x08 then [backslash, CHR ''b'']
      else if c = CHR 0x0C then [backslash, CHR ''f'']
      else if c = CHR 0x0A then [backslash, CHR ''n'']
      else if c = CHR 0x0D then [backslash, CHR ''r'']
      else if c = CHR 0x09 then [backslash, CHR ''t'']
      else if (of_char c :: nat) < 0x20 then [backslash, CHR ''u''] @ fmt_hex04 (of_char c)
      else [c])"

fun json_escape_loop :: "string \<Rightarrow> string \<Rightarrow> string" where
  "json_escape_loop out [] = out"
| "json_escape_loop out (c # cs) = json_escape_loop (out @ json_escape_char c) cs"

definition json_escape_append :: "string \<Rightarrow> string \<Rightarrow> string" where
  "json_escape_append out s = json_escape_loop (out @ [dquote]) s @ [dquote]"

fun json_value_append :: "platform \<Rightarrow> string \<Rightarrow> field_value \<Rightarrow> string" where
  "json_value_append P out FNull = out @ ''null''"
| "json_value_append P out (FBool b) = out @ (if b then ''true'' else ''false'')"
| "json_value_append P out (FInt i) = out @ fmt_int (sint i)"
| "json_value_append P out (FDouble d) = out @ pf_fmt_double P d"
| "json_value_append P out (FString s) = json_escape_append out s"

text \<open>The loop over the fields; \<open>i\<close> is its index, which decides on the comma.\<close>

fun json_fields_append :: "platform \<Rightarrow> nat \<Rightarrow> string \<Rightarrow> field list \<Rightarrow> string" where
  "json_fields_append P i out [] = out"
| "json_fields_append P i out (f # fs) =
     (let out1 = (if i \<noteq> 0 then out @ '','' else out);
          out2 = json_escape_append out1 (field_key f) @ '':''
      in json_fields_append P (Suc i) (json_value_append P out2 (field_val f)) fs)"

record json_renderer =
  include_source :: bool
  include_thread :: bool
  include_fields :: bool

definition default_json_renderer :: json_renderer where
  "default_json_renderer =
     \<lparr>include_source = True, include_thread = True, include_fields = True\<rparr>"

abbreviation quoted_key :: "string \<Rightarrow> string" where
  "quoted_key k \<equiv> [dquote] @ k @ [dquote, CHR '':'']"

definition json_render :: "platform \<Rightarrow> json_renderer \<Rightarrow> event \<Rightarrow> string" where
  "json_render P r e =
     (let out = ''{'';
          out = json_escape_append (out @ quoted_key ''time'')
                  (format_time (pf_local_tm P) (ev_timestamp e));
          out = json_escape_append (out @ '','' @ quoted_key ''level'') (ev_severity_name e);
          out = json_escape_append (out @ '','' @ quoted_key ''endpoint'') (ev_endpoint e);
          out = json_escape_append (out @ '','' @ quoted_key ''message'') (ev_message e);
          out = (if include_thread r
                 then out @ '','' @ quoted_key ''tid'' @ dec (unat (pf_tid_hash P (ev_thread_id e)))
                 else out);
          out = (if include_source r then
                   (let o1 = json_escape_append
                               (out @ '','' @ quoted_key ''source'' @ ''{'' @ quoted_key ''file'')
                               (loc_file (ev_source e));
                        o2 = o1 @ '','' @ quoted_key ''line'' @ dec (unat (loc_line (ev_source e)));
                        o3 = json_escape_append (o2 @ '','' @ quoted_key ''func'')
                               (loc_func (ev_source e))
                    in o3 @ ''}'')
                 else out);
          out = (if include_fields r \<and> ev_fields e \<noteq> [] then
                   json_fields_append P 0 (out @ '','' @ quoted_key ''fields'' @ ''{'') (ev_fields e)
                   @ ''}''
                 else out)
      in out @ ''}'' @ [newline])"

subsection \<open>Documents, printer and reader\<close>

datatype json =
    JNull
  | JBool bool
  | JNum string
  | JStr string
  | JObj "(string \<times> json) list"

definition json_quote :: "string \<Rightarrow> string" where
  "json_quote s = dquote # concat (map json_escape_char s) @ [dquote]"

fun print_json :: "json \<Rightarrow> string" and print_members :: "(string \<times> json) list \<Rightarrow> string" where
  "print_json JNull = ''null''"
| "print_json (JBool b) = (if b then ''true'' else ''false'')"
| "print_json (JNum t) = t"
| "print_json (JStr s) = json_quote s"
| "print_json (JObj ms) = ''{'' @ print_members ms @ ''}''"
| "print_members [] = []"
| "print_members ((k, v) # ms) =
     json_quote k @ '':'' @ print_json v @ (if ms = [] then [] else '','' @ print_members ms)"

text \<open>Number tokens: the grammar of RFC 8259, section 6.\<close>

definition digits1 :: "string \<Rightarrow> bool" where
  "digits1 s \<longleftrightarrow> s \<noteq> [] \<and> list_all is_digit s"

definition json_int_part :: "string \<Rightarrow> bool" where
  "json_int_part s \<longleftrightarrow> digits1 s \<and> (s = ''0'' \<or> hd s \<noteq> CHR ''0'')"

definition json_exp_part :: "string \<Rightarrow> bool" where
  "json_exp_part s \<longleftrightarrow>
     (case s of [] \<Rightarrow> True
      | c # cs \<Rightarrow> (c = CHR ''e'' \<or> c = CHR ''E'') \<and>
          digits1 (if cs \<noteq> [] \<and> (hd cs = CHR ''+'' \<or> hd cs = CHR ''-'') then tl cs else cs))"

definition json_frac_exp :: "string \<Rightarrow> bool" where
  "json_frac_exp s \<longleftrightarrow>
     (case s of [] \<Rightarrow> True
      | c # cs \<Rightarrow> (if c = CHR ''.''
                   then digits1 (takeWhile is_digit cs) \<and> json_exp_part (dropWhile is_digit cs)
                   else json_exp_part s))"

definition json_number :: "string \<Rightarrow> bool" where
  "json_number s \<longleftrightarrow>
     (let u = (if s \<noteq> [] \<and> hd s = CHR ''-'' then tl s else s)
      in json_int_part (takeWhile is_digit u) \<and> json_frac_exp (dropWhile is_digit u))"

definition number_char :: "char \<Rightarrow> bool" where
  "number_char c \<longleftrightarrow> is_digit c \<or> c \<in> set ''+-.eE''"

definition hex_value :: "char \<Rightarrow> nat option" where
  "hex_value c =
     (let n = of_char c
      in if 48 \<le> n \<and> n < 58 then Some (n - 48)
         else if 97 \<le> n \<and> n < 103 then Some (n - 87)
         else if 65 \<le> n \<and> n < 71 then Some (n - 55) else None)"

fun read_hex :: "nat \<Rightarrow> string \<Rightarrow> nat option" where
  "read_hex a [] = Some a"
| "read_hex a (c # cs) = (case hex_value c of None \<Rightarrow> None | Some d \<Rightarrow> read_hex (16 * a + d) cs)"

definition simple_escape :: "char \<Rightarrow> char option" where
  "simple_escape c = map_of
     [(dquote, dquote), (backslash, backslash), (CHR ''/'', CHR ''/''), (CHR ''b'', CHR 0x08),
      (CHR ''f'', CHR 0x0C), (CHR ''n'', CHR 0x0A), (CHR ''r'', CHR 0x0D), (CHR ''t'', CHR 0x09)] c"

text \<open>
  The rest of a string token, behind its opening quote. Raw control characters are refused;
  \<open>\u\<close> escapes are read for code points of one byte, below 128.
\<close>

fun read_str :: "string \<Rightarrow> (string \<times> string) option" where
  "read_str [] = None"
| "read_str (c # cs) =
     (if c = dquote then Some ([], cs)
      else if c = backslash then
        (case cs of
           [] \<Rightarrow> None
         | d # ds \<Rightarrow>
             (case simple_escape d of
                Some x \<Rightarrow> map_option (apfst (Cons x)) (read_str ds)
              | None \<Rightarrow>
                  (case ds of
                     h1 # h2 # h3 # h4 # rest \<Rightarrow>
                       (case read_hex 0 [h1, h2, h3, h4] of
                          Some n \<Rightarrow> if d = CHR ''u'' \<and> n < 128
                                    then map_option (apfst (Cons (char_of n))) (read_str rest)
                                    else None
                        | None \<Rightarrow> None)
                   | _ \<Rightarrow> None)))
      else if (of_char c :: nat) < 0x20 then None
      else map_option (apfst (Cons c)) (read_str cs))"

text \<open>The fuel bounds the nesting and the number of members; the length of the text is enough.\<close>

fun read_value :: "nat \<Rightarrow> string \<Rightarrow> (json \<times> string) option"
  and read_members :: "nat \<Rightarrow> string \<Rightarrow> ((string \<times> json) list \<times> string) option" where
  "read_value 0 s = None"
| "read_value (Suc n) s =
     (if starts_with [dquote] s then map_option (apfst JStr) (read_str (tl s))
      else if starts_with ''{}'' s then Some (JObj [], drop 2 s)
      else if starts_with ''{'' s then
        (case read_members n (tl s) of
           Some (ms, r) \<Rightarrow> if starts_with ''}'' r then Some (JObj ms, tl r) else None
         | None \<Rightarrow> None)
      else if starts_with ''null'' s then Some (JNull, drop 4 s)
      else if starts_with ''true'' s then Some (JBool True, drop 4 s)
      else if starts_with ''false'' s then Some (JBool False, drop 5 s)
      else if json_number (takeWhile number_char s)
        then Some (JNum (takeWhile number_char s), dropWhile number_char s)
      else None)"
| "read_members 0 s = None"
| "read_members (Suc n) s =
     (if starts_with [dquote] s then
        (case read_str (tl s) of
           Some (k, r) \<Rightarrow>
             if starts_with '':'' r then
               (case read_value n (tl r) of
                  Some (v, r2) \<Rightarrow>
                    if starts_with '','' r2
                    then map_option (apfst (Cons (k, v))) (read_members n (tl r2))
                    else Some ([(k, v)], r2)
                | None \<Rightarrow> None)
             else None
         | None \<Rightarrow> None)
      else None)"

text \<open>A whole text: one value, then at most the newline.\<close>

definition read_json :: "string \<Rightarrow> json option" where
  "read_json s =
     (case read_value (length s) s of
        Some (j, r) \<Rightarrow> if r = [] \<or> r = [newline] then Some j else None
      | None \<Rightarrow> None)"

subsection \<open>Escaping and reading strings\<close>

lemma json_escape_loop: "json_escape_loop out s = out @ concat (map json_escape_char s)"
  by (induction s arbitrary: out) auto

lemma json_escape_append: "json_escape_append out s = out @ json_quote s"
  by (simp add: json_escape_append_def json_escape_loop json_quote_def)

lemma hex_value_char: "d < 16 \<Longrightarrow> hex_value (hex_char d) = Some d"
  by (simp add: hex_value_def hex_char_def Let_def of_char_of)

lemma hex_char_printable: "d < 16 \<Longrightarrow> 32 \<le> (of_char (hex_char d) :: nat)"
  by (simp add: hex_char_def of_char_of)

lemma char_of_48: "char_of (48 :: nat) = CHR ''0''"
  by code_simp

lemma fmt_hex04_byte:
  assumes "n < 256"
  shows "fmt_hex04 n = [CHR ''0'', CHR ''0'', hex_char (n div 16), hex_char (n mod 16)]"
proof (cases "n < 16")
  case True
  then show ?thesis
    by (simp add: fmt_hex04_def hex.simps [of n] hex_char_def numeral_3_eq_3 char_of_48)
next
  case False
  moreover have "n div 16 < 16" using assms by linarith
  ultimately show ?thesis
    by (simp add: fmt_hex04_def hex.simps [of n] hex.simps [of "n div 16"] numeral_2_eq_2)
qed

lemma hex04:
  assumes "n < 32"
  shows "length (fmt_hex04 n) = 4" "read_hex 0 (fmt_hex04 n) = Some n"
    "list_all (\<lambda>c. 32 \<le> (of_char c :: nat)) (fmt_hex04 n)"
proof -
  have "n div 16 < 16" "n mod 16 < 16" "n < 256" using assms by simp_all
  moreover have "hex_value (CHR ''0'') = Some 0" by (simp add: hex_value_def)
  ultimately show "length (fmt_hex04 n) = 4" "read_hex 0 (fmt_hex04 n) = Some n"
    "list_all (\<lambda>c. 32 \<le> (of_char c :: nat)) (fmt_hex04 n)"
    by (simp_all add: fmt_hex04_byte hex_value_char hex_char_printable)
qed

lemma length_4E:
  assumes "length xs = 4"
  obtains a b c d where "xs = [a, b, c, d]"
proof -
  have "length xs = Suc (Suc (Suc (Suc 0)))" using assms by simp
  then show ?thesis using that by (auto simp only: length_Suc_conv length_0_conv)
qed

lemma simple_escape_table [simp]:
  "simple_escape dquote = Some dquote" "simple_escape backslash = Some backslash"
  "simple_escape (CHR ''b'') = Some (CHR 0x08)" "simple_escape (CHR ''f'') = Some (CHR 0x0C)"
  "simple_escape (CHR ''n'') = Some (CHR 0x0A)" "simple_escape (CHR ''r'') = Some (CHR 0x0D)"
  "simple_escape (CHR ''t'') = Some (CHR 0x09)" "simple_escape (CHR ''u'') = None"
  by (simp_all add: simple_escape_def)

lemma read_str_escape:
  "read_str (json_escape_char c @ rest) = map_option (apfst (Cons c)) (read_str rest)"
proof (cases "c \<in> {dquote, backslash, CHR 0x08, CHR 0x0C, CHR 0x0A, CHR 0x0D, CHR 0x09}")
  case True
  then show ?thesis by (elim insertE) (simp_all add: json_escape_char_def)
next
  case special: False
  show ?thesis
  proof (cases "(of_char c :: nat) < 32")
    case True
    obtain h1 h2 h3 h4 where h: "fmt_hex04 (of_char c) = [h1, h2, h3, h4]"
      using hex04(1) [OF True] by (rule length_4E)
    have "read_hex 0 [h1, h2, h3, h4] = Some (of_char c)"
      using hex04(2) [OF True] by (simp only: h)
    with special True h show ?thesis by (simp add: json_escape_char_def del: read_hex.simps)
  next
    case False
    with special show ?thesis by (simp add: json_escape_char_def)
  qed
qed

lemma read_str_quote: "read_str (concat (map json_escape_char s) @ dquote # rest) = Some (s, rest)"
  by (induction s) (simp_all add: read_str_escape)

lemma json_escape_printable: "list_all (\<lambda>c. 32 \<le> (of_char c :: nat)) (json_escape_char c)"
  using hex04(3) [of "of_char c"] by (simp add: json_escape_char_def)

lemma json_quote_printable: "list_all (\<lambda>c. 32 \<le> (of_char c :: nat)) (json_quote s)"
  by (simp add: json_quote_def list_all_iff)
    (use json_escape_printable in \<open>auto simp: list_all_iff\<close>)

lemma is_prefix_quote: "json_quote s @ r = dquote # concat (map json_escape_char s) @ dquote # r"
  by (simp add: json_quote_def)

text \<open>
  Escaping loses nothing: the body of a rendered string token reads back as the original
  bytes, whatever quotes, backslashes and control characters they contain, and the reader
  stops exactly at the closing quote the renderer put.
\<close>

theorem json_escape_roundtrip:
  "\<exists>body. json_escape_append out s = out @ dquote # body \<and> read_str (body @ rest) = Some (s, rest)"
proof (intro exI conjI)
  show "json_escape_append out s = out @ dquote # (concat (map json_escape_char s) @ [dquote])"
    by (simp add: json_escape_append json_quote_def)
  show "read_str ((concat (map json_escape_char s) @ [dquote]) @ rest) = Some (s, rest)"
    by (simp add: read_str_quote)
qed

subsection \<open>Numbers\<close>

lemma takeWhile_dec [simp]:
  "takeWhile is_digit (dec n) = dec n" "dropWhile is_digit (dec n) = []"
  by (simp_all add: dec_digits)

lemma hd_dec_nonzero: "0 < n \<Longrightarrow> hd (dec n) \<noteq> CHR ''0''"
proof (induction n rule: dec.induct)
  case (1 n)
  show ?case
  proof (cases "n < 10")
    case True
    then have "of_char (digit_char n) \<noteq> (48 :: nat)" using 1 by (simp add: of_digit_char)
    then show ?thesis using True by (auto simp: dec.simps [of n])
  next
    case False
    then show ?thesis using 1 by (simp add: dec.simps [of n] hd_append)
  qed
qed

lemma json_number_dec: "json_number (dec n)"
proof -
  have "hd (dec n) \<noteq> CHR ''-''" using dec_digits [of "hd (dec n)" n] by (auto simp: is_digit_def)
  moreover have "json_int_part (dec n)"
    using hd_dec_nonzero [of n] dec_digits [of _ n]
    by (cases "n = 0")
      (auto simp: json_int_part_def digits1_def list_all_iff dec.simps [of 0] digit_char_def)
  ultimately show ?thesis by (simp add: json_number_def json_frac_exp_def)
qed

lemma json_number_fmt_int: "json_number (fmt_int i)"
proof (cases "i < 0")
  case True
  then show ?thesis
    using json_number_dec [of "nat (- i)"] dec_digits [of "hd (dec (nat (- i)))" "nat (- i)"]
    by (auto simp: fmt_int_def json_number_def is_digit_def split: if_splits)
next
  case False
  then show ?thesis by (simp add: fmt_int_def json_number_dec)
qed

lemma number_char_digit: "is_digit c \<Longrightarrow> number_char c"
  by (simp add: number_char_def)

lemma digits1_chars: "digits1 s \<Longrightarrow> list_all number_char s"
  by (auto simp: digits1_def list_all_iff number_char_def)

lemma json_exp_chars: "json_exp_part s \<Longrightarrow> list_all number_char s"
proof (cases s)
  case (Cons c cs)
  assume "json_exp_part s"
  with Cons show ?thesis
    by (cases cs) (auto simp: json_exp_part_def number_char_def dest!: digits1_chars split: if_splits)
qed simp

lemma list_all_split: "list_all p (takeWhile q s) \<Longrightarrow> list_all p (dropWhile q s) \<Longrightarrow> list_all p s"
  by (metis list_all_append takeWhile_dropWhile_id)

lemma json_frac_exp_chars: "json_frac_exp s \<Longrightarrow> list_all number_char s"
proof (cases s)
  case (Cons c cs)
  assume a: "json_frac_exp s"
  show ?thesis
  proof (cases "c = CHR ''.''")
    case True
    with a Cons have "list_all number_char cs"
      by (auto simp: json_frac_exp_def intro: list_all_split digits1_chars json_exp_chars)
    with Cons True show ?thesis by (simp add: number_char_def)
  next
    case False
    with a Cons have "json_exp_part s" by (simp add: json_frac_exp_def)
    then show ?thesis by (rule json_exp_chars)
  qed
qed simp

lemma json_number_chars:
  assumes "json_number t"
  shows "list_all number_char t"
proof -
  let ?u = "if t \<noteq> [] \<and> hd t = CHR ''-'' then tl t else t"
  have "list_all number_char (takeWhile is_digit ?u)" "list_all number_char (dropWhile is_digit ?u)"
    using assms unfolding json_number_def Let_def json_int_part_def
    by (blast intro: digits1_chars json_frac_exp_chars)+
  then have "list_all number_char ?u" by (rule list_all_split)
  then show ?thesis by (cases t) (auto simp: number_char_def split: if_splits)
qed

lemma json_number_first:
  assumes "json_number t"
  obtains c cs where "t = c # cs" "is_digit c \<or> c = CHR ''-''"
proof (cases t)
  case Nil
  with assms show ?thesis by (simp add: json_number_def json_int_part_def digits1_def)
next
  case (Cons c cs)
  with assms have "is_digit c \<or> c = CHR ''-''"
    by (auto simp: json_number_def json_int_part_def digits1_def Let_def split: if_splits)
  with Cons that show ?thesis by blast
qed

subsection \<open>Reading what the printer prints\<close>

fun json_ok :: "json \<Rightarrow> bool" and members_ok :: "(string \<times> json) list \<Rightarrow> bool" where
  "json_ok (JNum t) = json_number t"
| "json_ok (JObj ms) = members_ok ms"
| "json_ok JNull = True"
| "json_ok (JBool b) = True"
| "json_ok (JStr s) = True"
| "members_ok [] = True"
| "members_ok ((k, v) # ms) = (json_ok v \<and> members_ok ms)"

definition ends_token :: "string \<Rightarrow> bool" where
  "ends_token r \<longleftrightarrow> r = [] \<or> \<not> number_char (hd r)"

lemma ends_token_punct [simp]:
  "ends_token []" "ends_token (CHR '','' # r)" "ends_token (CHR ''}'' # r)" "ends_token (newline # r)"
  by (simp_all add: ends_token_def number_char_def is_digit_def)

lemma take_number:
  assumes "list_all number_char t" "ends_token r"
  shows "takeWhile number_char (t @ r) = t" "dropWhile number_char (t @ r) = r"
proof -
  have "takeWhile number_char r = []" "dropWhile number_char r = r"
    using assms(2) by (cases r; simp add: ends_token_def)+
  with assms(1) show "takeWhile number_char (t @ r) = t" "dropWhile number_char (t @ r) = r"
    by (simp_all add: list_all_iff)
qed

lemma print_json_nonempty: "json_ok j \<Longrightarrow> print_json j \<noteq> []"
proof (cases j)
  case (JNum t)
  assume "json_ok j"
  with JNum have "json_number t" by simp
  then obtain c cs where "t = c # cs" by (rule json_number_first)
  with JNum show ?thesis by simp
qed (simp_all add: json_quote_def)

lemma read_value_number:
  assumes "json_number t" "ends_token r"
  shows "read_value (Suc n) (t @ r) = Some (JNum t, r)"
proof -
  obtain c cs where t: "t = c # cs" and c: "is_digit c \<or> c = CHR ''-''"
    using assms(1) by (rule json_number_first)
  have "c \<noteq> dquote \<and> c \<noteq> CHR ''{'' \<and> c \<noteq> CHR ''n'' \<and> c \<noteq> CHR ''t'' \<and> c \<noteq> CHR ''f''"
    using c by (auto simp: is_digit_def)
  then have "\<not> starts_with [dquote] (t @ r)" "\<not> starts_with ''{}'' (t @ r)"
    "\<not> starts_with ''{'' (t @ r)" "\<not> starts_with ''null'' (t @ r)"
    "\<not> starts_with ''true'' (t @ r)" "\<not> starts_with ''false'' (t @ r)"
    by (auto simp: t)
  with assms(1) take_number [OF json_number_chars [OF assms(1)] assms(2)] show ?thesis
    by simp
qed

lemma print_members_Cons:
  "print_members ((k, v) # ms) = dquote # concat (map json_escape_char k) @ dquote # '':'' @
     print_json v @ (if ms = [] then [] else '','' @ print_members ms)"
  by (simp add: json_quote_def)

lemma read_print:
  "(\<forall>j r. json_ok j \<longrightarrow> length (print_json j) \<le> n \<longrightarrow> ends_token r \<longrightarrow>
      read_value n (print_json j @ r) = Some (j, r)) \<and>
   (\<forall>ms r. members_ok ms \<longrightarrow> ms \<noteq> [] \<longrightarrow> length (print_members ms) \<le> n \<longrightarrow>
      read_members n (print_members ms @ CHR ''}'' # r) = Some (ms, CHR ''}'' # r))"
proof (induction n)
  case 0
  have "print_members ms \<noteq> []" if "ms \<noteq> []" for ms
    using that by (cases ms) (auto simp: json_quote_def)
  with print_json_nonempty show ?case by simp
next
  case (Suc n)
  then have val: "read_value n (print_json j @ r) = Some (j, r)"
    if "json_ok j" "length (print_json j) \<le> n" "ends_token r" for j r
    using that by blast
  from Suc have mem: "read_members n (print_members ms @ CHR ''}'' # r) = Some (ms, CHR ''}'' # r)"
    if "members_ok ms" "ms \<noteq> []" "length (print_members ms) \<le> n" for ms r
    using that by blast
  have vals: "read_value (Suc n) (print_json j @ r) = Some (j, r)"
    if ok: "json_ok j" and len: "length (print_json j) \<le> Suc n" and fin: "ends_token r" for j r
  proof (cases j)
    case (JNum t)
    with ok fin show ?thesis by (simp add: read_value_number del: read_value.simps)
  next
    case (JStr s)
    then show ?thesis by (simp add: is_prefix_quote read_str_quote)
  next
    case (JObj ms)
    show ?thesis
    proof (cases "ms = []")
      case True
      with JObj show ?thesis by simp
    next
      case False
      then obtain k v ms' where ms: "ms = (k, v) # ms'" by (cases ms) auto
      have "members_ok ms" using ok JObj by simp
      moreover have "length (print_members ms) \<le> n" using len JObj by simp
      ultimately have "read_members n (print_members ms @ CHR ''}'' # r) = Some (ms, CHR ''}'' # r)"
        using False by (intro mem)
      moreover have "\<not> starts_with ''{}'' (CHR ''{'' # print_members ms @ CHR ''}'' # r)"
        by (simp add: ms json_quote_def)
      ultimately show ?thesis by (simp add: JObj)
    qed
  qed (simp_all split: if_splits)
  have members: "read_members (Suc n) (print_members ms @ CHR ''}'' # r) = Some (ms, CHR ''}'' # r)"
    if ok: "members_ok ms" and ne: "ms \<noteq> []" and len: "length (print_members ms) \<le> Suc n" for ms r
  proof -
    obtain k v ms' where ms: "ms = (k, v) # ms'" using ne by (cases ms) auto
    show ?thesis
    proof (cases "ms' = []")
      case True
      have "read_value n (print_json v @ CHR ''}'' # r) = Some (v, CHR ''}'' # r)"
        using ok len True by (intro val) (simp_all add: ms print_members_Cons)
      with True show ?thesis by (simp add: ms print_members_Cons read_str_quote del: print_members.simps)
    next
      case False
      have "read_value n (print_json v @ CHR '','' # print_members ms' @ CHR ''}'' # r)
          = Some (v, CHR '','' # print_members ms' @ CHR ''}'' # r)"
        using ok len False by (intro val) (simp_all add: ms print_members_Cons del: print_members.simps)
      moreover have "read_members n (print_members ms' @ CHR ''}'' # r) = Some (ms', CHR ''}'' # r)"
        using ok len False by (intro mem) (simp_all add: ms print_members_Cons del: print_members.simps)
      ultimately show ?thesis using False
        by (simp add: ms print_members_Cons read_str_quote del: print_members.simps)
    qed
  qed
  show ?case using vals members by blast
qed

lemma read_json_print:
  assumes "json_ok j" "r = [] \<or> r = [newline]"
  shows "read_json (print_json j @ r) = Some j"
proof -
  have mono: "length (print_json j) \<le> length (print_json j @ r)" by simp
  have "ends_token r" using assms(2) by auto
  with read_print [of "length (print_json j @ r)"] assms(1) mono
  have "read_value (length (print_json j @ r)) (print_json j @ r) = Some (j, r)" by blast
  with assms(2) show ?thesis by (simp add: read_json_def del: read_value.simps)
qed

subsection \<open>The document of an event\<close>

primrec field_json :: "platform \<Rightarrow> field_value \<Rightarrow> json" where
  "field_json P FNull = JNull"
| "field_json P (FBool b) = JBool b"
| "field_json P (FInt i) = JNum (fmt_int (sint i))"
| "field_json P (FDouble d) = JNum (pf_fmt_double P d)"
| "field_json P (FString s) = JStr s"

definition fields_json :: "platform \<Rightarrow> field list \<Rightarrow> (string \<times> json) list" where
  "fields_json P fs = map (\<lambda>f. (field_key f, field_json P (field_val f))) fs"

definition event_json :: "platform \<Rightarrow> json_renderer \<Rightarrow> event \<Rightarrow> json" where
  "event_json P r e = JObj
     ([(''time'', JStr (format_time (pf_local_tm P) (ev_timestamp e))),
       (''level'', JStr (ev_severity_name e)),
       (''endpoint'', JStr (ev_endpoint e)),
       (''message'', JStr (ev_message e))] @
      (if include_thread r
       then [(''tid'', JNum (dec (unat (pf_tid_hash P (ev_thread_id e)))))] else []) @
      (if include_source r
       then [(''source'', JObj
               [(''file'', JStr (loc_file (ev_source e))),
                (''line'', JNum (dec (unat (loc_line (ev_source e))))),
                (''func'', JStr (loc_func (ev_source e)))])] else []) @
      (if include_fields r \<and> ev_fields e \<noteq> []
       then [(''fields'', JObj (fields_json P (ev_fields e)))] else []))"

text \<open>
  A number token is what \<open>std::format\<close> gives for a finite \<open>double\<close>; infinities and NaN come
  out as \<open>inf\<close> and \<open>nan\<close>, which are not.
\<close>

definition numeric_fields :: "platform \<Rightarrow> field list \<Rightarrow> bool" where
  "numeric_fields P fs \<longleftrightarrow> list_all
     (\<lambda>f. case field_val f of FDouble d \<Rightarrow> json_number (pf_fmt_double P d) | _ \<Rightarrow> True) fs"

lemma json_value_append: "json_value_append P out v = out @ print_json (field_json P v)"
  by (cases v) (simp_all add: json_escape_append)

lemma json_fields_append:
  "json_fields_append P i out fs =
     out @ (if i \<noteq> 0 \<and> fs \<noteq> [] then '','' else []) @ print_members (fields_json P fs)"
proof (induction fs arbitrary: i out)
  case Nil
  then show ?case by (simp add: fields_json_def)
next
  case (Cons f fs)
  then show ?case
    by (simp add: Let_def json_value_append json_escape_append fields_json_def)
qed

lemma quote_plain:
  "json_quote ''time'' = [dquote] @ ''time'' @ [dquote]"
  "json_quote ''level'' = [dquote] @ ''level'' @ [dquote]"
  "json_quote ''endpoint'' = [dquote] @ ''endpoint'' @ [dquote]"
  "json_quote ''message'' = [dquote] @ ''message'' @ [dquote]"
  "json_quote ''tid'' = [dquote] @ ''tid'' @ [dquote]"
  "json_quote ''source'' = [dquote] @ ''source'' @ [dquote]"
  "json_quote ''file'' = [dquote] @ ''file'' @ [dquote]"
  "json_quote ''line'' = [dquote] @ ''line'' @ [dquote]"
  "json_quote ''func'' = [dquote] @ ''func'' @ [dquote]"
  "json_quote ''fields'' = [dquote] @ ''fields'' @ [dquote]"
  by (simp_all add: json_quote_def json_escape_char_def)

lemma json_render_prints: "json_render P r e = print_json (event_json P r e) @ [newline]"
  by (cases "include_thread r"; cases "include_source r"; cases "include_fields r \<and> ev_fields e \<noteq> []")
    (simp_all add: json_render_def event_json_def Let_def json_escape_append json_fields_append quote_plain)

lemma members_ok_iff: "members_ok ms \<longleftrightarrow> (\<forall>(k, v) \<in> set ms. json_ok v)"
  by (induction ms) auto

lemma event_json_ok:
  assumes "numeric_fields P (ev_fields e)"
  shows "json_ok (event_json P r e)"
proof -
  have "json_ok (field_json P (field_val f))" if "f \<in> set (ev_fields e)" for f
    using assms that
    by (cases "field_val f") (auto simp: numeric_fields_def list_all_iff json_number_fmt_int)
  then show ?thesis
    by (auto simp: event_json_def members_ok_iff fields_json_def json_number_dec)
qed

text \<open>
  C36. Every rendered event reads back, through an independent reader of JSON, as the document
  that holds exactly its time, level, endpoint and message, and the thread, source and fields
  the renderer's flags ask for: the output is valid JSON and nothing in the event can break out
  of its place. The one condition is that the \<open>double\<close> fields are finite, so that their text is
  a number.
\<close>

theorem json_render_roundtrip:
  assumes "numeric_fields P (ev_fields e)"
  shows "read_json (json_render P r e) = Some (event_json P r e)"
  by (simp add: json_render_prints read_json_print event_json_ok assms)

definition fields_event :: event where
  "fields_event = sample_event\<lparr>ev_fields :=
     [\<lparr>field_key = ''user'', field_val = FString [dquote, newline]\<rparr>,
      \<lparr>field_key = ''n'', field_val = FInt (- 7)\<rparr>,
      \<lparr>field_key = ''ratio'', field_val = FDouble 0\<rparr>]\<rparr>"

lemma fields_event_numeric: "numeric_fields plain_platform (ev_fields fields_event)"
  by (simp add: numeric_fields_def fields_event_def plain_platform_def json_number_def
      json_int_part_def json_frac_exp_def json_exp_part_def digits1_def is_digit_def)

theorem json_render_roundtrip_witness:
  "read_json (json_render plain_platform default_json_renderer fields_event)
   = Some (event_json plain_platform default_json_renderer fields_event)"
  by (rule json_render_roundtrip [OF fields_event_numeric])

subsection \<open>One event, one line\<close>

abbreviation printable :: "string \<Rightarrow> bool" where
  "printable s \<equiv> list_all (\<lambda>c. 32 \<le> (of_char c :: nat)) s"

lemma number_printable: "json_number t \<Longrightarrow> printable t"
  by (drule json_number_chars) (auto simp: list_all_iff number_char_def is_digit_def)

lemma print_printable:
  "json_ok j \<Longrightarrow> printable (print_json j)"
  "members_ok ms \<Longrightarrow> printable (print_members ms)"
  by (induction j and ms rule: print_json_print_members.induct)
    (simp_all add: json_quote_printable number_printable)

text \<open>
  A JSON record is exactly one line: no byte of an event, not even a newline in its message
  or in a field, reaches the output as a control character, and the only newline is the last
  byte. Log lines cannot be forged through the message.
\<close>

theorem json_render_single_line:
  assumes "numeric_fields P (ev_fields e)"
  shows "\<exists>body. json_render P r e = body @ [newline] \<and> (\<forall>c \<in> set body. 32 \<le> (of_char c :: nat))"
  using print_printable(1) [OF event_json_ok [OF assms, of r]]
  by (auto simp: json_render_prints list_all_iff)

theorem json_render_single_line_witness:
  "\<exists>body. json_render plain_platform default_json_renderer fields_event = body @ [newline] \<and>
     (\<forall>c \<in> set body. 32 \<le> (of_char c :: nat))"
  by (rule json_render_single_line [OF fields_event_numeric])

text \<open>
  A field that holds a NaN, for which \<open>std::format\<close> gives the text \<open>nan\<close>, is copied
  into the record without quotes: the record then ends in \<open>"x":nan}}\<close>, which no JSON reader
  accepts (RFC 8259 has no such token).
\<close>

theorem json_render_nan_field:
  assumes "pf_fmt_double P d = ''nan''"
    "ev_fields e = [\<lparr>field_key = ''x'', field_val = FDouble d\<rparr>]" "include_fields r"
  shows "\<exists>pre. json_render P r e = pre @ [dquote] @ ''x'' @ [dquote] @ '':nan}}'' @ [newline]
    \<and> \<not> json_number ''nan''"
proof -
  have "json_quote ''x'' = [dquote] @ ''x'' @ [dquote]"
    by (simp add: json_quote_def json_escape_char_def)
  then show ?thesis
    using assms
    by (simp add: json_render_def Let_def json_escape_append json_number_def json_int_part_def
        digits1_def is_digit_def)
qed

theorem json_render_nan_field_witness:
  "\<exists>pre. json_render (plain_platform\<lparr>pf_fmt_double := (\<lambda>_. ''nan'')\<rparr>) default_json_renderer
       (sample_event\<lparr>ev_fields := [\<lparr>field_key = ''x'', field_val = FDouble 0x7FF8000000000000\<rparr>]\<rparr>)
     = pre @ [dquote] @ ''x'' @ [dquote] @ '':nan}}'' @ [newline] \<and> \<not> json_number ''nan''"
  by (rule json_render_nan_field) (simp_all add: default_json_renderer_def)

end
