(* ===== verification/Renderers.thy ===== *)
theory Renderers
  imports Json_Renderer
begin

section \<open>The renderer interface\<close>

text \<open>
  \<open>IRenderer\<close> (\<open>include/sylog/renderer.hpp\<close>) and the rendering step that
  \<open>Pipeline::dispatch_sync_\<close> and \<open>SinkCrossbar::process_\<close> share. The locale
  \<open>line_renderer\<close> is the contract sinks rely on: what they are given is empty or a sequence of
  whole lines; every renderer of the library is shown to keep it.
\<close>

datatype renderer =
    PatternRenderer string
  | AnsiConsoleRenderer string
  | JsonRenderer json_renderer
  | CustomRenderer "event \<Rightarrow> string"

primrec render :: "platform \<Rightarrow> renderer \<Rightarrow> event \<Rightarrow> string" where
  "render P (PatternRenderer pat) e = pattern_render P pat e"
| "render P (AnsiConsoleRenderer pat) e = ansi_render P pat e"
| "render P (JsonRenderer r) e = json_render P r e"
| "render P (CustomRenderer f) e = f e"

text \<open>Without a renderer, the message with a newline added when it is missing.\<close>

definition default_render :: "event \<Rightarrow> string" where
  "default_render e =
     (let buffer = ev_message e
      in if buffer \<noteq> [] \<and> last buffer \<noteq> newline then buffer @ [newline] else buffer)"

definition render_with :: "platform \<Rightarrow> renderer option \<Rightarrow> event \<Rightarrow> string" where
  "render_with P r e = (case r of Some rr \<Rightarrow> render P rr e | None \<Rightarrow> default_render e)"

subsection \<open>The contract\<close>

definition whole_lines :: "string \<Rightarrow> bool" where
  "whole_lines s \<longleftrightarrow> s = [] \<or> last s = newline"

lemma whole_lines_append: "whole_lines s \<Longrightarrow> whole_lines t \<Longrightarrow> whole_lines (s @ t)"
  by (cases t) (auto simp: whole_lines_def)

lemma whole_linesI: "(s \<noteq> [] \<Longrightarrow> last s = newline) \<Longrightarrow> whole_lines s"
  by (auto simp: whole_lines_def)

lemma whole_lines_newline: "whole_lines s \<Longrightarrow> s \<noteq> [] \<Longrightarrow> newline \<in> set s"
  by (metis last_in_set whole_lines_def)

locale line_renderer =
  fixes rend :: "event \<Rightarrow> string" and admissible :: "event \<Rightarrow> bool"
  assumes rend_lines: "admissible e \<Longrightarrow> whole_lines (rend e)"
begin

lemma stream_lines:
  assumes "whole_lines before" "list_all admissible es"
  shows "whole_lines (before @ concat (map rend es))"
  using assms
proof (induction es arbitrary: before)
  case Nil
  then show ?case by simp
next
  case (Cons e es)
  then have "whole_lines (before @ rend e)" by (simp add: whole_lines_append rend_lines)
  with Cons show ?case by (simp flip: append_assoc)
qed

lemma stream_count:
  assumes "list_all admissible es"
  shows "count_if (\<lambda>e. rend e \<noteq> []) es \<le> count_if (\<lambda>c. c = newline) (concat (map rend es))"
  using assms
proof (induction es)
  case Nil
  then show ?case by simp
next
  case (Cons e es)
  have "rend e \<noteq> [] \<Longrightarrow> 0 < count_if (\<lambda>c. c = newline) (rend e)"
    using Cons.prems whole_lines_newline [OF rend_lines [of e]]
    by (auto simp: count_if_def filter_empty_conv)
  with Cons show ?case by auto
qed

end

interpretation pattern_lines: line_renderer "pattern_render P pat" "\<lambda>_. True" for P pat
  by unfold_locales (rule whole_linesI, rule pattern_render_newline)

definition plain_severity :: "event \<Rightarrow> bool" where
  "plain_severity e \<longleftrightarrow> ev_severity_name e \<noteq> [] \<and> newline \<notin> set (ev_severity_name e)"

interpretation ansi_lines: line_renderer "ansi_render P pat" plain_severity for P pat
  by unfold_locales (rule whole_linesI, simp add: plain_severity_def ansi_render_newline)

interpretation json_lines: line_renderer "json_render P r" "\<lambda>_. True" for P r
  by unfold_locales (simp add: whole_lines_def json_render_prints)

interpretation default_lines: line_renderer default_render "\<lambda>_. True"
  by unfold_locales (auto simp: whole_lines_def default_render_def Let_def)

text \<open>The built-in renderers together; a user-defined one has its own obligation.\<close>

definition builtin_renderer :: "renderer option \<Rightarrow> bool" where
  "builtin_renderer r \<longleftrightarrow> (\<forall>f. r \<noteq> Some (CustomRenderer f))"

lemma render_with_lines:
  assumes "builtin_renderer r" "plain_severity e"
  shows "whole_lines (render_with P r e)"
proof (cases r)
  case None
  then show ?thesis using default_lines.rend_lines by (simp add: render_with_def)
next
  case (Some rr)
  with assms show ?thesis
    by (cases rr) (simp_all add: render_with_def builtin_renderer_def
        pattern_lines.rend_lines ansi_lines.rend_lines json_lines.rend_lines)
qed

interpretation route_lines:
  line_renderer "render_with P r" "\<lambda>e. builtin_renderer r \<and> plain_severity e" for P r
  by unfold_locales (blast intro: render_with_lines)

text \<open>
  Whatever built-in renderer a route has, or none, a sink that was at the start of a line
  is at the start of a line after any sequence of events whose severity names are non-empty and
  free of newlines, and it has received at least one newline for every event with output: two
  events are never joined on one line.
\<close>

theorem rendered_stream_is_whole_lines:
  assumes "builtin_renderer r" "list_all plain_severity es" "whole_lines before"
  shows "whole_lines (before @ concat (map (render_with P r) es)) \<and>
    count_if (\<lambda>e. render_with P r e \<noteq> []) es
      \<le> count_if (\<lambda>c. c = newline) (concat (map (render_with P r) es))"
proof -
  have "list_all (\<lambda>e. builtin_renderer r \<and> plain_severity e) es"
    using assms(1,2) by (simp add: list_all_iff)
  with assms(3) show ?thesis by (intro conjI route_lines.stream_lines route_lines.stream_count)
qed

theorem rendered_stream_is_whole_lines_witness:
  "whole_lines ([] @ concat (map (render_with plain_platform (Some (AnsiConsoleRenderer ''{message}'')))
     [sample_event, fields_event]))"
  using rendered_stream_is_whole_lines
    [of "Some (AnsiConsoleRenderer ''{message}'')" "[sample_event, fields_event]" "[]" plain_platform]
  by (simp add: builtin_renderer_def plain_severity_def whole_lines_def sample_event_def
      fields_event_def default_event_def)

end
