(* ===== verification/Routes.thy ===== *)
theory Routes
  imports Filters Renderers
begin

section \<open>Routes and configuration\<close>

text \<open>
  The classes \<open>Route\<close> and \<open>Config\<close> of \<open>logger.hpp\<close> and the delivery strategies of
  \<open>delivery.hpp\<close> as values. Builder methods are record updates. A route points to its sink
  (\<open>None\<close> is a null pointer), renderer and filters; sinks are named by number and everything
  they are asked to do is an \<open>effect\<close>. A user-defined strategy can only be written against the
  internal queue type and is not modelled.
\<close>

datatype strategy = DropWhenFull | BlockWhenFull

primrec strategy_name :: "strategy \<Rightarrow> string" where
  "strategy_name DropWhenFull = ''drop_when_full''"
| "strategy_name BlockWhenFull = ''block_when_full''"

definition dropping_when_full :: strategy where
  "dropping_when_full = DropWhenFull"

definition blocking_when_full :: strategy where
  "blocking_when_full = BlockWhenFull"

type_synonym sink_id = nat

datatype effect =
    SinkWrite sink_id string
  | SinkFlush sink_id
  | StderrWrite string

record route =
  rt_sink :: "sink_id option"
  rt_renderer :: "renderer option"
  rt_filters :: "filter_ptr list"
  rt_strategy :: "strategy option"

definition default_route :: route where
  "default_route =
     \<lparr>rt_sink = None, rt_renderer = None, rt_filters = [], rt_strategy = Some dropping_when_full\<rparr>"

definition send_to :: "sink_id option \<Rightarrow> route \<Rightarrow> route" where
  "send_to s r = r\<lparr>rt_sink := s\<rparr>"

definition route_render_with :: "renderer option \<Rightarrow> route \<Rightarrow> route" where
  "route_render_with rr r = r\<lparr>rt_renderer := rr\<rparr>"

definition filtered_by :: "filter_ptr \<Rightarrow> route \<Rightarrow> route" where
  "filtered_by f r = r\<lparr>rt_filters := rt_filters r @ [f]\<rparr>"

definition deliver_with :: "strategy \<Rightarrow> route \<Rightarrow> route" where
  "deliver_with s r = r\<lparr>rt_strategy := Some s\<rparr>"

definition drop_when_full :: "route \<Rightarrow> route" where
  "drop_when_full r = r\<lparr>rt_strategy := Some dropping_when_full\<rparr>"

definition block_when_full :: "route \<Rightarrow> route" where
  "block_when_full r = r\<lparr>rt_strategy := Some blocking_when_full\<rparr>"

lemmas route_builder_defs =
  send_to_def route_render_with_def filtered_by_def deliver_with_def
  drop_when_full_def block_when_full_def default_route_def dropping_when_full_def
  blocking_when_full_def

record config =
  cfg_async_by_default :: bool
  cfg_queue_capacity :: size_t
  cfg_fatal_sync :: bool

definition default_config :: config where
  "default_config =
     \<lparr>cfg_async_by_default = True, cfg_queue_capacity = push_bit 16 1, cfg_fatal_sync = True\<rparr>"

definition async_by_default :: "bool \<Rightarrow> config \<Rightarrow> config" where
  "async_by_default b cfg = cfg\<lparr>cfg_async_by_default := b\<rparr>"

definition queue_capacity :: "size_t \<Rightarrow> config \<Rightarrow> config" where
  "queue_capacity n cfg = cfg\<lparr>cfg_queue_capacity := n\<rparr>"

definition fatal_sync :: "bool \<Rightarrow> config \<Rightarrow> config" where
  "fatal_sync b cfg = cfg\<lparr>cfg_fatal_sync := b\<rparr>"

lemmas config_builder_defs = async_by_default_def queue_capacity_def fatal_sync_def default_config_def

definition asynchronous :: "size_t \<Rightarrow> config" where
  "asynchronous capacity =
     queue_capacity capacity (async_by_default True default_config)"

definition synchronous :: config where
  "synchronous = async_by_default False default_config"

text \<open>
  Rendering and writing, the tail of both dispatch paths; a route without a sink produces
  nothing.
\<close>

definition route_output :: "platform \<Rightarrow> route \<Rightarrow> event \<Rightarrow> effect list" where
  "route_output P r e =
     (let buffer = render_with P (rt_renderer r) e
      in case rt_sink r of Some s \<Rightarrow> [SinkWrite s buffer] | None \<Rightarrow> [])"

text \<open>The bytes one sink receives from a sequence of effects.\<close>

primrec effect_bytes :: "sink_id \<Rightarrow> effect \<Rightarrow> string" where
  "effect_bytes s (SinkWrite t b) = (if t = s then b else [])"
| "effect_bytes s (SinkFlush t) = []"
| "effect_bytes s (StderrWrite b) = []"

definition sink_bytes :: "sink_id \<Rightarrow> effect list \<Rightarrow> string" where
  "sink_bytes s es = concat (map (effect_bytes s) es)"

lemma sink_bytes_simps [simp]:
  "sink_bytes s [] = []"
  "sink_bytes s (e # es) = effect_bytes s e @ sink_bytes s es"
  "sink_bytes s (es @ es') = sink_bytes s es @ sink_bytes s es'"
  by (simp_all add: sink_bytes_def)

end
