(* ===== verification/Route_Cache.thy ===== *)
theory Route_Cache
  imports Routes
begin

section \<open>Route matching and the endpoint cache\<close>

text \<open>
  \<open>Pipeline::compute_cache_entry_\<close>, \<open>cached_route_mask_\<close>, \<open>cached_min_priority\<close> and
  \<open>invalidate_cache_\<close> of \<open>src/logger.cpp\<close>. An entry summarises, for one endpoint, which of the
  first 64 routes can take an event (a 64-bit mask) and the least severity any of them asks for.
  The cached map is a partial function from endpoints.
\<close>

unbundle bit_operations_syntax

record cache_entry =
  ce_min_priority :: u16
  ce_route_mask :: u64

definition default_cache_entry :: cache_entry where
  "default_cache_entry = \<lparr>ce_min_priority = 65535, ce_route_mask = 0\<rparr>"

record route_cache =
  rc_dirty :: bool
  rc_entries :: "string \<Rightarrow> cache_entry option"
  rc_global_min :: u16

definition initial_cache :: route_cache where
  "initial_cache =
     \<lparr>rc_dirty = True, rc_entries = (\<lambda>_. None), rc_global_min = sev_priority trace_severity\<rparr>"

subsection \<open>The code\<close>

text \<open>The inner loop over one route's filters: the last filter of each kind decides.\<close>

fun scan_filters :: "filter_store \<Rightarrow> string \<Rightarrow> filter_ptr list \<Rightarrow> bool \<times> u16 \<Rightarrow> bool \<times> u16" where
  "scan_filters fs ep [] st = st"
| "scan_filters fs ep (None # ps) st = scan_filters fs ep ps st"
| "scan_filters fs ep (Some r # ps) (endpoint_ok, min_priority) =
     (case fs r of
        SeverityFilter m \<Rightarrow> scan_filters fs ep ps (endpoint_ok, m)
      | EndpointFilter a d \<Rightarrow>
          scan_filters fs ep ps (endpoint_pass a d (default_event\<lparr>ev_endpoint := ep\<rparr>), min_priority)
      | CustomFilter p \<Rightarrow> scan_filters fs ep ps (endpoint_ok, min_priority))"

definition scan_route :: "filter_store \<Rightarrow> string \<Rightarrow> route \<Rightarrow> bool \<times> u16" where
  "scan_route fs ep r = scan_filters fs ep (rt_filters r) (True, sev_priority trace_severity)"

text \<open>The body of the loop over the routes, after their filters were scanned.\<close>

definition visit_route :: "nat \<Rightarrow> bool \<times> u16 \<Rightarrow> cache_entry \<Rightarrow> cache_entry" where
  "visit_route i st out =
     (case st of (endpoint_ok, min_priority) \<Rightarrow>
        if \<not> endpoint_ok then out
        else
          let out1 = out\<lparr>ce_route_mask := ce_route_mask out OR push_bit i 1\<rparr>
          in if min_priority < ce_min_priority out1
             then out1\<lparr>ce_min_priority := min_priority\<rparr> else out1)"

fun compute_loop ::
  "filter_store \<Rightarrow> string \<Rightarrow> nat \<Rightarrow> route list \<Rightarrow> cache_entry \<Rightarrow> cache_entry" where
  "compute_loop fs ep i [] out = out"
| "compute_loop fs ep i (r # rs) out =
     (if \<not> i < 64 then out
      else compute_loop fs ep (Suc i) rs (visit_route i (scan_route fs ep r) out))"

definition compute_cache_entry :: "filter_store \<Rightarrow> route list \<Rightarrow> string \<Rightarrow> cache_entry" where
  "compute_cache_entry fs routes ep = compute_loop fs ep 0 routes default_cache_entry"

text \<open>The test \<open>((route_mask >> i) & 1ull) == 0\<close> of the dispatch loops, negated.\<close>

definition mask_has :: "u64 \<Rightarrow> nat \<Rightarrow> bool" where
  "mask_has route_mask i \<longleftrightarrow> drop_bit i route_mask AND 1 \<noteq> 0"

text \<open>
  The refresh of \<open>cached_route_mask_\<close> under \<open>dirty_cache\<close>: the map is cleared, and the least
  priority over all routes is taken, the first severity filter of a route deciding here.
\<close>

fun first_severity :: "filter_store \<Rightarrow> filter_ptr list \<Rightarrow> u16 \<Rightarrow> u16" where
  "first_severity fs [] route_min = route_min"
| "first_severity fs (None # ps) route_min = first_severity fs ps route_min"
| "first_severity fs (Some r # ps) route_min =
     (case fs r of SeverityFilter m \<Rightarrow> m | _ \<Rightarrow> first_severity fs ps route_min)"

fun global_min_loop :: "filter_store \<Rightarrow> route list \<Rightarrow> u16 \<Rightarrow> u16" where
  "global_min_loop fs [] min_priority = min_priority"
| "global_min_loop fs (r # rs) min_priority =
     (let route_min = first_severity fs (rt_filters r) (sev_priority trace_severity)
      in global_min_loop fs rs (if route_min < min_priority then route_min else min_priority))"

definition refresh_cache :: "filter_store \<Rightarrow> route list \<Rightarrow> route_cache \<Rightarrow> route_cache" where
  "refresh_cache fs routes c =
     (if rc_dirty c then
        (let min_priority = global_min_loop fs routes 65535;
             min_priority = (if routes = [] then 65535 else min_priority)
         in \<lparr>rc_dirty = False, rc_entries = (\<lambda>_. None), rc_global_min = min_priority\<rparr>)
      else c)"

text \<open>\<open>emplace\<close> keeps an entry that is already there.\<close>

definition emplace :: "string \<Rightarrow> cache_entry \<Rightarrow> route_cache \<Rightarrow> route_cache" where
  "emplace ep ce c =
     (case rc_entries c ep of
        Some _ \<Rightarrow> c
      | None \<Rightarrow> c\<lparr>rc_entries := (rc_entries c)(ep := Some ce)\<rparr>)"

definition cached_route_mask ::
  "filter_store \<Rightarrow> route list \<Rightarrow> string \<Rightarrow> route_cache \<Rightarrow> cache_entry \<times> route_cache" where
  "cached_route_mask fs routes ep c =
     (let c1 = refresh_cache fs routes c
      in case rc_entries c1 ep of
           Some ce \<Rightarrow> (ce, c1)
         | None \<Rightarrow>
             (let computed = compute_cache_entry fs routes ep
              in (computed, emplace ep computed c1)))"

definition cached_min_priority ::
  "filter_store \<Rightarrow> route list \<Rightarrow> string \<Rightarrow> route_cache \<Rightarrow> u16 \<times> route_cache" where
  "cached_min_priority fs routes ep c =
     (case cached_route_mask fs routes ep c of (ce, c') \<Rightarrow>
        (if ce_route_mask ce = 0 then 65535 else ce_min_priority ce, c'))"

definition invalidate_cache :: "route_cache \<Rightarrow> route_cache" where
  "invalidate_cache c = c\<lparr>rc_dirty := True\<rparr>"

subsection \<open>What an entry says\<close>

lemma mask_has_bit: "mask_has m i \<longleftrightarrow> bit m i"
proof -
  have "bit (drop_bit i m AND 1) n \<longleftrightarrow> n = 0 \<and> bit m i" for n
    by (auto simp: bit_simps)
  then have "drop_bit i m AND 1 = 0 \<longleftrightarrow> \<not> bit m i"
    by (metis bit_eq_iff bit_0_eq bot_apply bot_bool_def)
  then show ?thesis by (simp add: mask_has_def)
qed

lemma bit_push_1: "i < 64 \<Longrightarrow> bit (push_bit i (1 :: u64)) j \<longleftrightarrow> j = i"
  by (auto simp: bit_simps)

lemma visit_route_mask:
  "i < 64 \<Longrightarrow> bit (ce_route_mask (visit_route i st out)) j \<longleftrightarrow>
     bit (ce_route_mask out) j \<or> (j = i \<and> fst st)"
  by (cases st) (auto simp: visit_route_def Let_def bit_or_iff bit_push_1 simp del: push_bit_of_1)

lemma visit_route_min:
  "ce_min_priority (visit_route i st out) \<le> ce_min_priority out"
  "fst st \<Longrightarrow> ce_min_priority (visit_route i st out) \<le> snd st"
  by (cases st; auto simp: visit_route_def Let_def)+

lemma nth_shift: "Suc i \<le> j \<Longrightarrow> (r # rs) ! (j - i) = rs ! (j - Suc i)"
  by (simp add: nth_Cons' Suc_diff_Suc)

lemma compute_loop_mask:
  "bit (ce_route_mask (compute_loop fs ep i rs out)) j \<longleftrightarrow>
     bit (ce_route_mask out) j \<or>
     (i \<le> j \<and> j < 64 \<and> j - i < length rs \<and> fst (scan_route fs ep (rs ! (j - i))))"
proof (induction rs arbitrary: i out)
  case Nil
  then show ?case by simp
next
  case (Cons r rs)
  show ?case
  proof (cases "i < 64")
    case False
    then show ?thesis by auto
  next
    case True
    then have step: "bit (ce_route_mask (compute_loop fs ep i (r # rs) out)) j \<longleftrightarrow>
        bit (ce_route_mask out) j \<or> (j = i \<and> fst (scan_route fs ep r)) \<or>
        (Suc i \<le> j \<and> j < 64 \<and> j - Suc i < length rs \<and> fst (scan_route fs ep (rs ! (j - Suc i))))"
      by (auto simp: Cons.IH [of "Suc i"] visit_route_mask)
    consider "j = i" | "j < i" | "Suc i \<le> j" by linarith
    then show ?thesis
    proof cases
      case 3
      then have "j - i < length (r # rs) \<longleftrightarrow> j - Suc i < length rs" by auto
      with 3 step show ?thesis by (simp add: nth_shift)
    qed (use step True in auto)
  qed
qed

lemma cache_entry_mask_range:
  "mask_has (ce_route_mask (compute_cache_entry fs routes ep)) j \<Longrightarrow> j < length routes \<and> j < 64"
  by (auto simp: mask_has_bit compute_cache_entry_def compute_loop_mask default_cache_entry_def)

lemma compute_loop_min: "ce_min_priority (compute_loop fs ep i rs out) \<le> ce_min_priority out"
proof (induction rs arbitrary: i out)
  case (Cons r rs)
  have "ce_min_priority (compute_loop fs ep (Suc i) rs (visit_route i st out))
      \<le> ce_min_priority out" for st
    using Cons.IH visit_route_min(1) by (rule order_trans)
  then show ?case by simp
qed simp

lemma compute_loop_min_le:
  "i \<le> j \<Longrightarrow> j < 64 \<Longrightarrow> j - i < length rs \<Longrightarrow> fst (scan_route fs ep (rs ! (j - i))) \<Longrightarrow>
   ce_min_priority (compute_loop fs ep i rs out) \<le> snd (scan_route fs ep (rs ! (j - i)))"
proof (induction rs arbitrary: i out)
  case Nil
  then show ?case by simp
next
  case (Cons r rs)
  show ?case
  proof (cases "j = i")
    case True
    with Cons.prems have "fst (scan_route fs ep r)" "i < 64" by simp_all
    with order_trans [OF compute_loop_min visit_route_min(2)] True show ?thesis by simp
  next
    case False
    with Cons.prems have j: "Suc i \<le> j" by linarith
    with Cons.prems(3) have "j - Suc i < length rs" by auto
    with Cons.prems Cons.IH [of "Suc i"] j show ?thesis by (simp add: nth_shift)
  qed
qed

lemma compute_mask:
  "bit (ce_route_mask (compute_cache_entry fs routes ep)) j \<longleftrightarrow>
     j < 64 \<and> j < length routes \<and> fst (scan_route fs ep (routes ! j))"
  by (auto simp: compute_cache_entry_def compute_loop_mask default_cache_entry_def)

lemma compute_min:
  "j < 64 \<Longrightarrow> j < length routes \<Longrightarrow> fst (scan_route fs ep (routes ! j)) \<Longrightarrow>
   ce_min_priority (compute_cache_entry fs routes ep) \<le> snd (scan_route fs ep (routes ! j))"
  using compute_loop_min_le [of 0 j routes fs ep] by (simp add: compute_cache_entry_def)

text \<open>A route whose filters all pass is never ruled out by the scan.\<close>

lemma tmp_event_pass:
  "endpoint_pass a d (default_event\<lparr>ev_endpoint := ev_endpoint e\<rparr>) = endpoint_pass a d e"
  by (rule endpoint_pass_cong) simp

lemma scan_filters_endpoint:
  "filters_pass fs ps e \<Longrightarrow> fst st \<Longrightarrow> fst (scan_filters fs (ev_endpoint e) ps st)"
proof (induction fs "ev_endpoint e" ps st rule: scan_filters.induct)
  case (3 fs r ps ok m)
  then show ?case by (cases "fs r") (simp_all add: tmp_event_pass split: if_splits)
qed simp_all

lemma scan_filters_priority:
  "filters_pass fs ps e \<Longrightarrow> snd st \<le> ev_severity_priority e \<Longrightarrow>
   snd (scan_filters fs ep ps st) \<le> ev_severity_priority e"
proof (induction fs ep ps st rule: scan_filters.induct)
  case (3 fs ep r ps ok m)
  then show ?case by (cases "fs r") (simp_all add: severity_pass_def split: if_splits)
qed simp_all

lemma scan_route_sound:
  assumes "filters_pass fs (rt_filters r) e"
  shows "fst (scan_route fs (ev_endpoint e) r)"
    "100 \<le> ev_severity_priority e \<Longrightarrow>
     snd (scan_route fs (ev_endpoint e) r) \<le> ev_severity_priority e"
  using scan_filters_endpoint [OF assms] scan_filters_priority [OF assms]
  by (simp_all add: scan_route_def)

subsection \<open>The summary is a safe prefilter\<close>

text \<open>
  The contract between a cheap summary and the exact test it stands in front of: the summary
  never refuses what the exact test accepts, so testing it first changes no outcome.
\<close>

locale prefilter =
  fixes summary :: "'e \<Rightarrow> bool" and exact :: "'e \<Rightarrow> bool"
  assumes summary_complete: "exact e \<Longrightarrow> summary e"
begin

lemma both_iff: "summary e \<and> exact e \<longleftrightarrow> exact e"
  using summary_complete by blast

lemma filter_prefiltered: "filter exact (filter summary es) = filter exact es"
  using both_iff by (simp add: conj_commute)

lemma refused: "\<not> summary e \<Longrightarrow> \<not> exact e"
  using summary_complete by blast

end

text \<open>The routes an event is meant for: among the first 64, those whose filters all pass.\<close>

definition route_wants :: "filter_store \<Rightarrow> route list \<Rightarrow> nat \<Rightarrow> event \<Rightarrow> bool" where
  "route_wants fs routes j e \<longleftrightarrow>
     j < 64 \<and> j < length routes \<and> filters_pass fs (rt_filters (routes ! j)) e"

definition entry_selects :: "filter_store \<Rightarrow> route list \<Rightarrow> nat \<Rightarrow> event \<Rightarrow> bool" where
  "entry_selects fs routes j e \<longleftrightarrow>
     mask_has (ce_route_mask (compute_cache_entry fs routes (ev_endpoint e))) j"

definition entry_enables :: "filter_store \<Rightarrow> route list \<Rightarrow> event \<Rightarrow> bool" where
  "entry_enables fs routes e \<longleftrightarrow>
     ce_min_priority (compute_cache_entry fs routes (ev_endpoint e)) \<le> ev_severity_priority e"

interpretation mask_prefilter:
  prefilter "entry_selects fs routes j" "route_wants fs routes j" for fs routes j
  by unfold_locales
    (simp add: entry_selects_def route_wants_def mask_has_bit compute_mask scan_route_sound)

interpretation priority_prefilter:
  prefilter "entry_enables fs routes"
    "\<lambda>e. (\<exists>j. route_wants fs routes j e) \<and> 100 \<le> ev_severity_priority e" for fs routes
proof unfold_locales
  fix e
  assume "(\<exists>j. route_wants fs routes j e) \<and> 100 \<le> ev_severity_priority e"
  then obtain j where j: "route_wants fs routes j e" and p: "100 \<le> ev_severity_priority e" by blast
  then have pass: "filters_pass fs (rt_filters (routes ! j)) e"
    and "j < 64" "j < length routes" by (simp_all add: route_wants_def)
  with compute_min [of j routes fs "ev_endpoint e"] scan_route_sound [OF pass] p
  show "entry_enables fs routes e" by (auto simp: entry_enables_def)
qed

text \<open>
  C20. The cache entry of an endpoint never loses an event: if all filters of one of the first
  64 routes pass an event, the entry's mask has that route's bit, and unless the event's
  priority is below that of \<open>trace\<close>, the entry's least priority admits it. The mask has no bit
  of a route behind the 64th.
\<close>

theorem compute_cache_entry_sound:
  assumes "j < length routes" "filters_pass fs (rt_filters (routes ! j)) e"
  shows "(mask_has (ce_route_mask (compute_cache_entry fs routes (ev_endpoint e))) j \<longleftrightarrow> j < 64) \<and>
    (j < 64 \<and> 100 \<le> ev_severity_priority e \<longrightarrow>
       ce_min_priority (compute_cache_entry fs routes (ev_endpoint e)) \<le> ev_severity_priority e)"
proof -
  have "entry_selects fs routes j e" if "j < 64"
    by (rule mask_prefilter.summary_complete) (simp add: route_wants_def assms that)
  moreover have "entry_enables fs routes e" if "j < 64" "100 \<le> ev_severity_priority e"
    by (rule priority_prefilter.summary_complete) (use assms that route_wants_def in blast)
  ultimately show ?thesis
    by (auto simp: entry_selects_def entry_enables_def mask_has_bit compute_mask)
qed

definition info_route :: route where
  "info_route = filtered_by (Some 1) (filtered_by (Some 0) (send_to (Some 0) default_route))"

definition info_store :: filter_store where
  "info_store = (\<lambda>r. if r = 0 then at_least info_severity
                     else if r = 1 then EndpointFilter [''net''] [] else CustomFilter (\<lambda>_. True))"

definition net_event :: event where
  "net_event = default_event\<lparr>ev_endpoint := ''net.main'', ev_message := ''up''\<rparr>"

lemmas info_route_defs = info_route_def info_store_def net_event_def route_builder_defs
  at_least_def default_event_def

lemma info_route_passes: "filters_pass info_store (rt_filters info_route) net_event"
  by (simp add: info_route_defs route_simps)

theorem compute_cache_entry_sound_witness:
  "mask_has (ce_route_mask (compute_cache_entry info_store [info_route] ''net.main'')) 0 \<and>
   ce_min_priority (compute_cache_entry info_store [info_route] ''net.main'') \<le> 300"
  using compute_cache_entry_sound [of 0 "[info_route]" info_store net_event] info_route_passes
  by (simp add: net_event_def default_event_def)

subsection \<open>The cache is transparent\<close>

definition cache_coherent :: "filter_store \<Rightarrow> route list \<Rightarrow> route_cache \<Rightarrow> bool" where
  "cache_coherent fs routes c \<longleftrightarrow>
     (\<not> rc_dirty c \<longrightarrow>
        (\<forall>ep ce. rc_entries c ep = Some ce \<longrightarrow> ce = compute_cache_entry fs routes ep))"

lemma coherent_initial [simp]: "cache_coherent fs routes initial_cache"
  by (simp add: cache_coherent_def initial_cache_def)

lemma coherent_invalidate [simp]: "cache_coherent fs routes (invalidate_cache c)"
  by (simp add: cache_coherent_def invalidate_cache_def)

lemma refresh_clean [simp]: "\<not> rc_dirty (refresh_cache fs routes c)"
  by (simp add: refresh_cache_def Let_def)

lemma coherent_refresh:
  "cache_coherent fs routes c \<Longrightarrow> cache_coherent fs routes (refresh_cache fs routes c)"
  by (simp add: cache_coherent_def refresh_cache_def Let_def)

lemma emplace_dirty [simp]: "rc_dirty (emplace ep ce c) = rc_dirty c"
  by (simp add: emplace_def split: option.split)

lemma coherent_emplace:
  "cache_coherent fs routes c \<Longrightarrow>
   cache_coherent fs routes (emplace ep (compute_cache_entry fs routes ep) c)"
  by (auto simp: cache_coherent_def emplace_def split: option.split)

lemma cached_route_mask_coherent:
  assumes "cache_coherent fs routes c"
  shows "fst (cached_route_mask fs routes ep c) = compute_cache_entry fs routes ep"
    "cache_coherent fs routes (snd (cached_route_mask fs routes ep c))"
    "\<not> rc_dirty (snd (cached_route_mask fs routes ep c))"
  using coherent_refresh [OF assms] coherent_emplace [OF coherent_refresh [OF assms]]
  by (auto simp: cached_route_mask_def Let_def cache_coherent_def split: option.split)

text \<open>
  C27. Looking an endpoint up through the cache gives what computing its entry afresh gives, and
  keeps the cache coherent: starting from any coherent cache (the initial one, or any one just
  invalidated by a change of the routes), hits and misses cannot be told apart.
\<close>

theorem cached_route_mask_transparent:
  assumes "cache_coherent fs routes c"
  shows "\<exists>c'. cached_route_mask fs routes ep c = (compute_cache_entry fs routes ep, c') \<and>
    cache_coherent fs routes c' \<and>
    cached_route_mask fs routes ep' c' =
      (compute_cache_entry fs routes ep', snd (cached_route_mask fs routes ep' c'))"
proof -
  note one = cached_route_mask_coherent [OF assms, of ep]
  note two = cached_route_mask_coherent(1) [OF one(2), of ep']
  show ?thesis using one two by (metis prod.collapse)
qed

theorem cached_route_mask_transparent_witness:
  "\<exists>c'. cached_route_mask info_store [info_route] ''net'' (invalidate_cache initial_cache)
      = (compute_cache_entry info_store [info_route] ''net'', c')"
  using cached_route_mask_transparent [OF coherent_invalidate, of info_store "[info_route]" "''net''"
      initial_cache "''ui''"]
  by blast

text \<open>
  The cache does become a correctness dependency when a shared endpoint filter is widened
  after an endpoint was cached: an event that all filters of the route now pass is still refused
  by the stale mask, because \<open>EndpointFilter::allow\<close> does not invalidate the cache. (The
  comment of \<open>sink_crossbar.hpp\<close> and the design documents say the cache is an optimization
  only.)
\<close>

theorem stale_mask_after_allow:
  "let c = snd (cached_route_mask info_store [info_route] ''ui'' initial_cache);
       fs' = filter_allow 1 ''ui'' info_store;
       e = net_event\<lparr>ev_endpoint := ''ui''\<rparr>
   in filters_pass fs' (rt_filters info_route) e \<and>
      \<not> mask_has (ce_route_mask (fst (cached_route_mask fs' [info_route] ''ui'' c))) 0"
  by (simp add: Let_def info_route_defs filter_allow_def route_simps cached_route_mask_def refresh_cache_def initial_cache_def emplace_def
      compute_cache_entry_def scan_route_def visit_route_def default_cache_entry_def mask_has_def)

end
