(* ===== verification/Event_Queue.thy ===== *)
theory Event_Queue
  imports Routes
begin

section \<open>The bounded event queue\<close>

text \<open>
  \<open>src/async/workers_event_queue.cpp\<close> and \<open>src/delivery.cpp\<close>, operation by operation, each taken
  as one step (the interleaving of their atomic actions is the subject of \<open>Queue_Threads\<close>). The
  queue inside, \<open>Workers::Queue::BlockingQueue\<close>, belongs to another project: it is the parameter
  \<open>W\<close>, and \<open>workers_ok\<close> is the documented behaviour the code relies on: a first-in first-out
  queue whose push fails only after it was closed, whose elements can still be taken out then,
  and whose blocking pop ends without an element only when it was closed or a stop was requested.
\<close>

datatype pop_result = PopOk event | PopEnded | PopWaits

record 'q workers =
  wk_new :: 'q
  wk_push :: "event \<Rightarrow> 'q \<Rightarrow> bool \<times> 'q"
  wk_try_pop :: "'q \<Rightarrow> event option \<times> 'q"
  wk_pop :: "bool \<Rightarrow> 'q \<Rightarrow> pop_result \<times> 'q" \<comment> \<open>the flag: a stop was requested\<close>
  wk_close :: "'q \<Rightarrow> 'q"

definition workers_ok :: "'q workers \<Rightarrow> ('q \<Rightarrow> event list) \<Rightarrow> ('q \<Rightarrow> bool) \<Rightarrow> bool" where
  "workers_ok W items closed \<longleftrightarrow>
     items (wk_new W) = [] \<and> \<not> closed (wk_new W) \<and>
     (\<forall>e q. (case wk_push W e q of (b, q') \<Rightarrow>
        b = (\<not> closed q) \<and> closed q' = closed q \<and>
        items q' = (if b then items q @ [e] else items q))) \<and>
     (\<forall>q. (case wk_try_pop W q of (r, q') \<Rightarrow>
        closed q' = closed q \<and>
        (case items q of [] \<Rightarrow> r = None \<and> items q' = [] | x # xs \<Rightarrow> r = Some x \<and> items q' = xs))) \<and>
     (\<forall>stop q. (case wk_pop W stop q of (r, q') \<Rightarrow>
        closed q' = closed q \<and>
        (case r of
           PopOk x \<Rightarrow> items q = x # items q'
         | PopEnded \<Rightarrow> (closed q \<or> stop) \<and> items q' = items q
         | PopWaits \<Rightarrow> items q = [] \<and> \<not> closed q \<and> \<not> stop \<and> items q' = []))) \<and>
     (\<forall>q. closed (wk_close W q) \<and> items (wk_close W q) = items q)"

subsection \<open>The code\<close>

record 'q event_queue =
  eq_capacity :: size_t
  eq_queue :: 'q
  eq_size :: size_t

definition event_queue_new :: "'q workers \<Rightarrow> size_t \<Rightarrow> 'q event_queue" where
  "event_queue_new W capacity =
     \<lparr>eq_capacity = max capacity 1, eq_queue = wk_new W, eq_size = 0\<rparr>"

definition reserve_slot :: "'q event_queue \<Rightarrow> bool \<times> 'q event_queue" where
  "reserve_slot q =
     (let n = eq_size q
      in if n < eq_capacity q then (True, q\<lparr>eq_size := n + 1\<rparr>) else (False, q))"

definition release_slot :: "'q event_queue \<Rightarrow> 'q event_queue" where
  "release_slot q = q\<lparr>eq_size := eq_size q - 1\<rparr>"

definition try_push :: "'q workers \<Rightarrow> event \<Rightarrow> 'q event_queue \<Rightarrow> bool \<times> 'q event_queue" where
  "try_push W e q =
     (case reserve_slot q of (ok, q1) \<Rightarrow>
        if \<not> ok then (False, q1)
        else case wk_push W e (eq_queue q1) of (pushed, inner) \<Rightarrow>
          let q2 = q1\<lparr>eq_queue := inner\<rparr>
          in if \<not> pushed then (False, release_slot q2) else (True, q2))"

text \<open>
  One pass through the loop of \<open>push_blocking\<close>: \<open>Waits\<close> is the wait on \<open>cv_space_\<close>, from which
  the caller starts over.
\<close>

datatype push_outcome = Pushed | Refused | Waits

definition push_blocking ::
  "'q workers \<Rightarrow> event \<Rightarrow> bool \<Rightarrow> 'q event_queue \<Rightarrow> push_outcome \<times> 'q event_queue" where
  "push_blocking W e accepting q =
     (if \<not> accepting then (Refused, q)
      else case reserve_slot q of (ok, q1) \<Rightarrow>
        if ok then
          (case wk_push W e (eq_queue q1) of (pushed, inner) \<Rightarrow>
             let q2 = q1\<lparr>eq_queue := inner\<rparr>
             in if pushed then (Pushed, q2) else (Refused, release_slot q2))
        else (Waits, q1))"

definition try_pop :: "'q workers \<Rightarrow> 'q event_queue \<Rightarrow> event option \<times> 'q event_queue" where
  "try_pop W q =
     (case wk_try_pop W (eq_queue q) of (r, inner) \<Rightarrow>
        let q1 = q\<lparr>eq_queue := inner\<rparr>
        in case r of None \<Rightarrow> (None, q1) | Some e \<Rightarrow> (Some e, release_slot q1))"

definition pop_blocking :: "'q workers \<Rightarrow> bool \<Rightarrow> 'q event_queue \<Rightarrow> pop_result \<times> 'q event_queue" where
  "pop_blocking W stop q =
     (case wk_pop W stop (eq_queue q) of (r, inner) \<Rightarrow>
        let q1 = q\<lparr>eq_queue := inner\<rparr>
        in case r of PopOk e \<Rightarrow> (PopOk e, release_slot q1) | _ \<Rightarrow> (r, q1))"

definition close_queue :: "'q workers \<Rightarrow> 'q event_queue \<Rightarrow> 'q event_queue" where
  "close_queue W q = q\<lparr>eq_queue := wk_close W (eq_queue q)\<rparr>"

definition queue_empty :: "'q event_queue \<Rightarrow> bool" where
  "queue_empty q \<longleftrightarrow> eq_size q = 0"

text \<open>\<open>delivery::drop_when_full::submit\<close> and \<open>block_when_full::submit\<close>.\<close>

primrec strategy_submit ::
  "'q workers \<Rightarrow> strategy \<Rightarrow> event \<Rightarrow> bool \<Rightarrow> 'q event_queue \<Rightarrow> push_outcome \<times> 'q event_queue" where
  "strategy_submit W DropWhenFull e accepting q =
     (case try_push W e q of (ok, q') \<Rightarrow> (if ok then Pushed else Refused, q'))"
| "strategy_submit W BlockWhenFull e accepting q = push_blocking W e accepting q"

subsection \<open>The contract of the queue inside\<close>

lemma workers_push:
  assumes "workers_ok W items closed" "wk_push W e q = (b, q')"
  shows "b = (\<not> closed q)" "closed q' = closed q" "items q' = (if b then items q @ [e] else items q)"
  using assms(1) [unfolded workers_ok_def, THEN conjunct2, THEN conjunct2, THEN conjunct1,
      THEN spec [of _ e], THEN spec [of _ q]]
  by (simp_all only: assms prod.case)

lemma workers_try_pop:
  assumes "workers_ok W items closed" "wk_try_pop W q = (r, q')"
  shows "closed q' = closed q"
    "case items q of [] \<Rightarrow> r = None \<and> items q' = [] | x # xs \<Rightarrow> r = Some x \<and> items q' = xs"
  using assms(1) [unfolded workers_ok_def, THEN conjunct2, THEN conjunct2, THEN conjunct2,
      THEN conjunct1, THEN spec [of _ q]]
  by (simp_all only: assms prod.case)

lemma workers_pop:
  assumes "workers_ok W items closed" "wk_pop W stop q = (r, q')"
  shows "closed q' = closed q"
    "case r of PopOk x \<Rightarrow> items q = x # items q'
     | PopEnded \<Rightarrow> (closed q \<or> stop) \<and> items q' = items q
     | PopWaits \<Rightarrow> items q = [] \<and> \<not> closed q \<and> \<not> stop \<and> items q' = []"
  using assms(1) [unfolded workers_ok_def, THEN conjunct2, THEN conjunct2, THEN conjunct2,
      THEN conjunct2, THEN conjunct1, THEN spec [of _ stop], THEN spec [of _ q]]
  by (simp_all only: assms prod.case)

lemma workers_new_close:
  assumes "workers_ok W items closed"
  shows "items (wk_new W) = []" "\<not> closed (wk_new W)"
    "closed (wk_close W q)" "items (wk_close W q) = items q"
  using assms by (simp_all add: workers_ok_def)

definition second_event :: event where
  "second_event = default_event\<lparr>ev_endpoint := ''net'', ev_message := ''up''\<rparr>"

text \<open>A queue over a list has this behaviour.\<close>

definition list_workers :: "(event list \<times> bool) workers" where
  "list_workers =
     \<lparr>wk_new = ([], False),
      wk_push = (\<lambda>e q. if snd q then (False, q) else (True, (fst q @ [e], snd q))),
      wk_try_pop = (\<lambda>q. case fst q of [] \<Rightarrow> (None, q) | x # xs \<Rightarrow> (Some x, (xs, snd q))),
      wk_pop = (\<lambda>stop q. case fst q of
         [] \<Rightarrow> (if snd q \<or> stop then PopEnded else PopWaits, q)
       | x # xs \<Rightarrow> (PopOk x, (xs, snd q))),
      wk_close = (\<lambda>q. (fst q, True))\<rparr>"

lemma list_workers_ok: "workers_ok list_workers fst snd"
  by (auto simp: workers_ok_def list_workers_def split: list.splits)

subsection \<open>The contract of a lane's queue\<close>

text \<open>
  What the crossbar uses: a bounded first-in first-out queue. \<open>content\<close> is what is queued,
  \<open>shut\<close> whether it was closed, \<open>room\<close> its capacity, \<open>good\<close> the invariant of its state.
\<close>

datatype queue_op = OpPush event | OpTryPop | OpNext bool | OpClose

text \<open>A session of such operations, with the events accepted and the events taken out, in order.\<close>

fun session :: "(event \<Rightarrow> 's \<Rightarrow> bool \<times> 's) \<Rightarrow> ('s \<Rightarrow> event option \<times> 's) \<Rightarrow>
    (bool \<Rightarrow> 's \<Rightarrow> pop_result \<times> 's) \<Rightarrow> ('s \<Rightarrow> 's) \<Rightarrow> queue_op list \<Rightarrow> 's \<Rightarrow>
    event list \<times> event list \<times> 's" where
  "session push pop nxt cls [] q = ([], [], q)"
| "session push pop nxt cls (OpPush e # ops) q =
     (case push e q of (b, q1) \<Rightarrow> case session push pop nxt cls ops q1 of (ins, outs, q2) \<Rightarrow>
        ((if b then [e] else []) @ ins, outs, q2))"
| "session push pop nxt cls (OpTryPop # ops) q =
     (case pop q of (r, q1) \<Rightarrow> case session push pop nxt cls ops q1 of (ins, outs, q2) \<Rightarrow>
        (ins, (case r of Some e \<Rightarrow> [e] | None \<Rightarrow> []) @ outs, q2))"
| "session push pop nxt cls (OpNext stop # ops) q =
     (case nxt stop q of (r, q1) \<Rightarrow> case session push pop nxt cls ops q1 of (ins, outs, q2) \<Rightarrow>
        (ins, (case r of PopOk e \<Rightarrow> [e] | _ \<Rightarrow> []) @ outs, q2))"
| "session push pop nxt cls (OpClose # ops) q = session push pop nxt cls ops (cls q)"

locale lane_queue =
  fixes push :: "event \<Rightarrow> 's \<Rightarrow> bool \<times> 's"
    and pop :: "'s \<Rightarrow> event option \<times> 's"
    and take_next :: "bool \<Rightarrow> 's \<Rightarrow> pop_result \<times> 's"
    and shut_down :: "'s \<Rightarrow> 's"
    and content :: "'s \<Rightarrow> event list" and shut :: "'s \<Rightarrow> bool" and room :: "'s \<Rightarrow> nat"
    and good :: "'s \<Rightarrow> bool"
  assumes push_spec: "good q \<Longrightarrow> push e q = (b, q') \<Longrightarrow>
      good q' \<and> shut q' = shut q \<and> room q' = room q \<and>
      b = (\<not> shut q \<and> length (content q) < room q) \<and>
      content q' = (if b then content q @ [e] else content q)"
    and pop_spec: "good q \<Longrightarrow> pop q = (r, q') \<Longrightarrow>
      good q' \<and> shut q' = shut q \<and> room q' = room q \<and>
      (case content q of [] \<Rightarrow> r = None \<and> content q' = [] | x # xs \<Rightarrow> r = Some x \<and> content q' = xs)"
    and next_spec: "good q \<Longrightarrow> take_next stop q = (p, q') \<Longrightarrow>
      good q' \<and> shut q' = shut q \<and> room q' = room q \<and>
      (case p of PopOk x \<Rightarrow> content q = x # content q'
       | PopEnded \<Rightarrow> (shut q \<or> stop) \<and> content q' = content q
       | PopWaits \<Rightarrow> content q = [] \<and> \<not> shut q \<and> \<not> stop \<and> content q' = [])"
    and shut_spec: "good q \<Longrightarrow>
      good (shut_down q) \<and> shut (shut_down q) \<and> room (shut_down q) = room q \<and>
      content (shut_down q) = content q"
    and bounded: "good q \<Longrightarrow> length (content q) \<le> room q"

begin

text \<open>Any session: what was queued and accepted is what was taken and is queued, in order.\<close>

lemma session_fifo:
  "good q \<Longrightarrow> session push pop take_next shut_down ops q = (ins, outs, q') \<Longrightarrow>
   content q @ ins = outs @ content q' \<and> good q' \<and> room q' = room q"
proof (induction ops arbitrary: q ins outs)
  case Nil
  then show ?case by simp
next
  case (Cons op ops)
  show ?case
  proof (cases op)
    case (OpPush e)
    obtain b q1 where p: "push e q = (b, q1)" by fastforce
    obtain ins1 outs1 where r: "session push pop take_next shut_down ops q1 = (ins1, outs1, q')"
      using Cons.prems(2) OpPush p by (auto split: prod.splits)
    note spec = push_spec [OF Cons.prems(1) p]
    with Cons.IH [OF _ r] have "content q1 @ ins1 = outs1 @ content q' \<and> good q' \<and> room q' = room q"
      by simp
    with Cons.prems(2) OpPush p r spec show ?thesis by (auto split: if_splits)
  next
    case OpTryPop
    obtain x q1 where p: "pop q = (x, q1)" by fastforce
    obtain ins1 outs1 where r: "session push pop take_next shut_down ops q1 = (ins1, outs1, q')"
      using Cons.prems(2) OpTryPop p by (auto split: prod.splits)
    note spec = pop_spec [OF Cons.prems(1) p]
    with Cons.IH [OF _ r] have "content q1 @ ins1 = outs1 @ content q' \<and> good q' \<and> room q' = room q"
      by simp
    with Cons.prems(2) OpTryPop p r spec show ?thesis by (auto split: list.splits)
  next
    case (OpNext stop)
    obtain x q1 where p: "take_next stop q = (x, q1)" by fastforce
    obtain ins1 outs1 where r: "session push pop take_next shut_down ops q1 = (ins1, outs1, q')"
      using Cons.prems(2) OpNext p by (auto split: prod.splits)
    note spec = next_spec [OF Cons.prems(1) p]
    with Cons.IH [OF _ r] have "content q1 @ ins1 = outs1 @ content q' \<and> good q' \<and> room q' = room q"
      by simp
    with Cons.prems(2) OpNext p r spec show ?thesis by (auto split: pop_result.splits)
  next
    case OpClose
    with Cons.prems Cons.IH [of "shut_down q"] shut_spec [OF Cons.prems(1)] show ?thesis by simp
  qed
qed

lemma session_bounded:
  "good q \<Longrightarrow> session push pop take_next shut_down ops q = (ins, outs, q') \<Longrightarrow>
   length (content q') \<le> room q"
  using session_fifo bounded by metis

end

subsection \<open>The event queue keeps the contract\<close>

definition queue_inv :: "('q \<Rightarrow> event list) \<Rightarrow> 'q event_queue \<Rightarrow> bool" where
  "queue_inv items q \<longleftrightarrow>
     unat (eq_size q) = length (items (eq_queue q)) \<and> eq_size q \<le> eq_capacity q \<and> 1 \<le> eq_capacity q"

lemma reserve_slot_cases:
  assumes "queue_inv items q" "reserve_slot q = (b, q1)"
  shows "b \<longleftrightarrow> length (items (eq_queue q)) < unat (eq_capacity q)"
    "\<not> b \<Longrightarrow> q1 = q"
    "b \<Longrightarrow> q1 = q\<lparr>eq_size := eq_size q + 1\<rparr> \<and> unat (eq_size q1) = Suc (unat (eq_size q))"
    "b \<Longrightarrow> eq_size q1 \<le> eq_capacity q" "b \<Longrightarrow> eq_size q1 - 1 = eq_size q"
proof -
  show "b \<longleftrightarrow> length (items (eq_queue q)) < unat (eq_capacity q)" "\<not> b \<Longrightarrow> q1 = q"
    using assms by (auto simp: reserve_slot_def queue_inv_def Let_def word_less_nat_alt split: if_splits)
  assume b
  with assms have lt: "eq_size q < eq_capacity q" and q1: "q1 = q\<lparr>eq_size := eq_size q + 1\<rparr>"
    by (auto simp: reserve_slot_def Let_def split: if_splits)
  with unat_succ_less [OF lt]
  show "q1 = q\<lparr>eq_size := eq_size q + 1\<rparr> \<and> unat (eq_size q1) = Suc (unat (eq_size q))"
    "eq_size q1 \<le> eq_capacity q" "eq_size q1 - 1 = eq_size q"
    by (simp_all add: word_le_nat_alt word_less_nat_alt)
qed

lemma try_push_spec:
  assumes "workers_ok W items closed" "queue_inv items q" "try_push W e q = (b, q')"
  shows "queue_inv items q' \<and> closed (eq_queue q') = closed (eq_queue q) \<and>
    eq_capacity q' = eq_capacity q \<and>
    b = (\<not> closed (eq_queue q) \<and> length (items (eq_queue q)) < unat (eq_capacity q)) \<and>
    items (eq_queue q') = (if b then items (eq_queue q) @ [e] else items (eq_queue q))"
proof -
  obtain ok q1 where r: "reserve_slot q = (ok, q1)" by fastforce
  note rs = reserve_slot_cases [OF assms(2) r]
  show ?thesis
  proof (cases ok)
    case False
    with rs assms(2,3) r show ?thesis by (auto simp: try_push_def)
  next
    case True
    obtain pushed inner where p: "wk_push W e (eq_queue q1) = (pushed, inner)" by fastforce
    from True rs(3) have q1: "eq_queue q1 = eq_queue q" "eq_capacity q1 = eq_capacity q" by auto
    note w = workers_push [OF assms(1) p]
    show ?thesis
      using True rs(1,3-5) assms(2,3) r p w q1
      by (auto simp: try_push_def queue_inv_def release_slot_def Let_def split: if_splits)
  qed
qed

lemma release_slot_inv:
  assumes "queue_inv items q" "items (eq_queue q) = x # items inner"
  shows "queue_inv items (release_slot (q\<lparr>eq_queue := inner\<rparr>))"
  using assms unat_pred_pos [of "eq_size q"]
  by (auto simp: queue_inv_def release_slot_def word_le_nat_alt)

lemma try_pop_spec:
  assumes "workers_ok W items closed" "queue_inv items q" "try_pop W q = (r, q')"
  shows "queue_inv items q' \<and> closed (eq_queue q') = closed (eq_queue q) \<and>
    eq_capacity q' = eq_capacity q \<and>
    (case items (eq_queue q) of [] \<Rightarrow> r = None \<and> items (eq_queue q') = []
     | x # xs \<Rightarrow> r = Some x \<and> items (eq_queue q') = xs)"
proof -
  obtain r0 inner where p: "wk_try_pop W (eq_queue q) = (r0, inner)" by fastforce
  note w = workers_try_pop [OF assms(1) p]
  show ?thesis
  proof (cases "items (eq_queue q)")
    case Nil
    with w assms(2,3) p show ?thesis by (auto simp: try_pop_def Let_def queue_inv_def)
  next
    case (Cons x xs)
    with w have "items (eq_queue q) = x # items inner" "r0 = Some x" by simp_all
    with release_slot_inv [OF assms(2)] assms(3) p w Cons show ?thesis
      by (auto simp: try_pop_def Let_def release_slot_def)
  qed
qed

lemma pop_blocking_spec:
  assumes "workers_ok W items closed" "queue_inv items q" "pop_blocking W stop q = (r, q')"
  shows "queue_inv items q' \<and> closed (eq_queue q') = closed (eq_queue q) \<and>
    eq_capacity q' = eq_capacity q \<and>
    (case r of PopOk x \<Rightarrow> items (eq_queue q) = x # items (eq_queue q')
     | PopEnded \<Rightarrow> (closed (eq_queue q) \<or> stop) \<and> items (eq_queue q') = items (eq_queue q)
     | PopWaits \<Rightarrow> items (eq_queue q) = [] \<and> \<not> closed (eq_queue q) \<and> \<not> stop \<and>
         items (eq_queue q') = [])"
proof -
  obtain r0 inner where p: "wk_pop W stop (eq_queue q) = (r0, inner)" by fastforce
  note w = workers_pop [OF assms(1) p]
  show ?thesis
  proof (cases r0)
    case (PopOk x)
    with w have "items (eq_queue q) = x # items inner" by simp
    with release_slot_inv [OF assms(2)] assms(3) p w PopOk show ?thesis
      by (auto simp: pop_blocking_def Let_def release_slot_def)
  qed (use w assms(2,3) p in \<open>auto simp: pop_blocking_def Let_def queue_inv_def\<close>)
qed

lemma close_queue_spec:
  assumes "workers_ok W items closed" "queue_inv items q"
  shows "queue_inv items (close_queue W q) \<and> closed (eq_queue (close_queue W q)) \<and>
    eq_capacity (close_queue W q) = eq_capacity q \<and>
    items (eq_queue (close_queue W q)) = items (eq_queue q)"
  using assms workers_new_close [OF assms(1)] by (simp add: close_queue_def queue_inv_def)

lemma queue_inv_bounded: "queue_inv items q \<Longrightarrow> length (items (eq_queue q)) \<le> unat (eq_capacity q)"
  by (simp add: queue_inv_def word_le_nat_alt)

lemma queue_inv_new:
  "workers_ok W items closed \<Longrightarrow> queue_inv items (event_queue_new W capacity)"
  by (simp add: queue_inv_def event_queue_new_def workers_new_close)

interpretation evq: lane_queue "try_push W" "try_pop W" "pop_blocking W" "close_queue W"
    "\<lambda>q. items (eq_queue q)" "\<lambda>q. closed (eq_queue q)" "\<lambda>q. unat (eq_capacity q)"
    "\<lambda>q. workers_ok W items closed \<and> queue_inv items q"
  for W :: "'q workers" and items closed
proof (unfold_locales, goal_cases)
  case (1 q e b q')
  then show ?case using try_push_spec [of W items closed q e b q'] by simp
next
  case (2 q r q')
  then show ?case using try_pop_spec [of W items closed q r q'] by simp
next
  case (3 q stop p q')
  then show ?case using pop_blocking_spec [of W items closed q stop p q'] by simp
next
  case (4 q)
  then show ?case using close_queue_spec [of W items closed q] by simp
next
  case (5 q)
  then show ?case by (simp add: queue_inv_bounded)
qed

text \<open>
  C26. A queue made for some capacity is a bounded first-in first-out queue: after any session of
  \<open>try_push\<close>, \<open>try_pop\<close>, \<open>pop_blocking\<close> and \<open>close\<close>, the events accepted are those taken out, in
  order, followed by those still queued; at most the capacity (at least 1) is queued, and
  \<open>size\<close> counts them exactly.
\<close>

theorem event_queue_bounded_fifo:
  assumes "workers_ok W items closed"
    "session (try_push W) (try_pop W) (pop_blocking W) (close_queue W) ops (event_queue_new W capacity)
       = (ins, outs, q')"
  shows "ins = outs @ items (eq_queue q') \<and> length (items (eq_queue q')) \<le> unat (max capacity 1) \<and>
    unat (eq_size q') = length (items (eq_queue q')) \<and>
    (queue_empty q' \<longleftrightarrow> items (eq_queue q') = [])"
proof -
  have good: "workers_ok W items closed \<and> queue_inv items (event_queue_new W capacity)"
    using assms(1) queue_inv_new by blast
  have new: "items (eq_queue (event_queue_new W capacity)) = []"
    "eq_capacity (event_queue_new W capacity) = max capacity 1"
    using assms(1) by (simp_all add: event_queue_new_def workers_new_close)
  note f = evq.session_fifo [OF good assms(2)] evq.session_bounded [OF good assms(2)]
  then have "unat (eq_size q') = length (items (eq_queue q'))" by (simp add: queue_inv_def)
  moreover from this have "queue_empty q' \<longleftrightarrow> items (eq_queue q') = []"
    by (simp add: queue_empty_def flip: unat_eq_0)
  ultimately show ?thesis using f new by simp
qed

theorem event_queue_bounded_fifo_witness:
  "\<exists>q'. session (try_push list_workers) (try_pop list_workers) (pop_blocking list_workers)
       (close_queue list_workers)
       [OpPush sample_event, OpPush second_event, OpTryPop, OpPush second_event, OpClose, OpPush sample_event]
       (event_queue_new list_workers 1) = ([sample_event, second_event], [sample_event], q') \<and>
     [sample_event, second_event] = [sample_event] @ fst (eq_queue q')"
proof -
  let ?ops = "[OpPush sample_event, OpPush second_event, OpTryPop, OpPush second_event, OpClose,
    OpPush sample_event]"
  obtain ins outs q' where s: "session (try_push list_workers) (try_pop list_workers)
      (pop_blocking list_workers) (close_queue list_workers) ?ops (event_queue_new list_workers 1)
      = (ins, outs, q')" by (metis prod_cases3)
  have io: "ins = [sample_event, second_event] \<and> outs = [sample_event]"
    using s by (auto simp: event_queue_new_def try_push_def try_pop_def close_queue_def
        reserve_slot_def release_slot_def list_workers_def Let_def)
  from event_queue_bounded_fifo [OF list_workers_ok s] s io show ?thesis by simp
qed

subsection \<open>The delivery strategies\<close>

lemma strategy_submit_spec:
  assumes "workers_ok W items closed" "queue_inv items q" "strategy_submit W strat e accepting q = (r, q')"
  shows "queue_inv items q' \<and> closed (eq_queue q') = closed (eq_queue q) \<and>
    eq_capacity q' = eq_capacity q \<and>
    (r = Pushed \<longleftrightarrow> \<not> closed (eq_queue q) \<and> length (items (eq_queue q)) < unat (eq_capacity q) \<and>
       (strat = BlockWhenFull \<longrightarrow> accepting)) \<and>
    (r = Waits \<longleftrightarrow> strat = BlockWhenFull \<and> accepting \<and>
       length (items (eq_queue q)) = unat (eq_capacity q)) \<and>
    items (eq_queue q') = (if r = Pushed then items (eq_queue q) @ [e] else items (eq_queue q))"
proof (cases strat)
  case DropWhenFull
  obtain b q1 where t: "try_push W e q = (b, q1)" by fastforce
  from try_push_spec [OF assms(1,2) t] assms(3) t DropWhenFull show ?thesis by auto
next
  case BlockWhenFull
  show ?thesis
  proof (cases accepting)
    case False
    with assms BlockWhenFull show ?thesis by (auto simp: push_blocking_def)
  next
    case True
    obtain ok q1 where r: "reserve_slot q = (ok, q1)" by fastforce
    note rs = reserve_slot_cases [OF assms(2) r]
    show ?thesis
    proof (cases ok)
      case False
      with rs queue_inv_bounded [OF assms(2)] assms(2,3) r True BlockWhenFull show ?thesis
        by (auto simp: push_blocking_def)
    next
      case ok: True
      have same: "try_push W e q = (case push_blocking W e True q of (r, q') \<Rightarrow> (r = Pushed, q'))"
        using ok r by (auto simp: try_push_def push_blocking_def Let_def split: prod.split)
      have nw: "r \<noteq> Waits"
        using assms(3) ok r True BlockWhenFull
        by (auto simp: push_blocking_def Let_def split: prod.splits if_splits)
      from assms(3) True BlockWhenFull same have "try_push W e q = (r = Pushed, q')" by simp
      from try_push_spec [OF assms(1,2) this] nw True BlockWhenFull ok rs(1) show ?thesis by auto
    qed
  qed
qed

text \<open>
  What the strategies do at a queue. \<open>drop_when_full\<close> never waits: it appends the event when the
  queue is open and has room and drops it otherwise. \<open>block_when_full\<close> refuses the event at
  once when the pipeline is not accepting, waits while the queue is full (even a closed one),
  and otherwise appends it, unless the queue was closed. An event that is not appended leaves
  queue and count as they were.
\<close>

theorem strategy_submit_meaning:
  assumes "workers_ok W items closed" "queue_inv items q" "strategy_submit W strat e accepting q = (r, q')"
  shows "queue_inv items q' \<and>
    (r = Pushed \<longleftrightarrow> \<not> closed (eq_queue q) \<and> length (items (eq_queue q)) < unat (eq_capacity q) \<and>
       (strat = BlockWhenFull \<longrightarrow> accepting)) \<and>
    (r = Waits \<longleftrightarrow> strat = BlockWhenFull \<and> accepting \<and>
       length (items (eq_queue q)) = unat (eq_capacity q)) \<and>
    items (eq_queue q') = (if r = Pushed then items (eq_queue q) @ [e] else items (eq_queue q))"
  using strategy_submit_spec [OF assms] by blast

theorem strategy_submit_meaning_witness:
  "let q = snd (try_push list_workers sample_event (event_queue_new list_workers 1))
   in fst (strategy_submit list_workers BlockWhenFull second_event True q) = Waits"
proof -
  let ?q = "snd (try_push list_workers sample_event (event_queue_new list_workers 1))"
  have q: "queue_inv fst ?q" "fst (eq_queue ?q) = [sample_event]" "eq_capacity ?q = 1"
    by (simp_all add: queue_inv_def event_queue_new_def try_push_def reserve_slot_def list_workers_def
        Let_def)
  obtain r q' where s: "strategy_submit list_workers BlockWhenFull second_event True ?q = (r, q')"
    by fastforce
  from strategy_submit_meaning [OF list_workers_ok q(1) s] q have "r = Waits" by simp
  with s show ?thesis by (simp add: Let_def)
qed

end
