(* ===== verification/Crossbar.thy ===== *)
theory Crossbar
  imports Route_Cache Event_Queue "HOL-Library.Monad_Syntax"
begin

section \<open>The sink crossbar\<close>

text \<open>
  \<open>src/async/sink_crossbar.cpp\<close>: one lane per route, each with its queue and its worker thread.
  The operations of the API are taken one after the other; between them, and inside
  \<open>stop_lanes_\<close>, the workers run in any order, which is a schedule: a list of lane numbers, one
  step of that lane's worker for each. A worker is a thread object (\<open>NoThread\<close> when it is not
  joinable) with a program point of \<open>lane_loop_\<close>: in the first loop, in the draining loop, or
  returned. Waiting for a worker is a loop that might not end, hence \<open>partial_function\<close>; that it
  ends is proved.
\<close>

datatype worker = NoThread | Popping | Draining | Finished

record 'q lane =
  ln_route :: route
  ln_queue :: "'q event_queue option"
  ln_worker :: worker
  ln_stop :: bool
  ln_drain :: bool

record 'q crossbar =
  xb_capacity :: size_t
  xb_running :: bool
  xb_lanes :: "'q lane list"

subsection \<open>One lane\<close>

definition new_lane :: "'q workers \<Rightarrow> size_t \<Rightarrow> route \<Rightarrow> 'q lane" where
  "new_lane W capacity r =
     \<lparr>ln_route = r, ln_queue = Some (event_queue_new W capacity), ln_worker = NoThread,
      ln_stop = False, ln_drain = True\<rparr>"

definition launch :: "'q lane \<Rightarrow> 'q lane" where
  "launch l = l\<lparr>ln_drain := True, ln_worker := Popping, ln_stop := False\<rparr>"

definition start_lane :: "'q workers \<Rightarrow> size_t \<Rightarrow> 'q lane \<Rightarrow> 'q lane" where
  "start_lane W capacity l =
     (let l1 = (case ln_queue l of
                  None \<Rightarrow> l\<lparr>ln_queue := Some (event_queue_new W capacity)\<rparr>
                | Some _ \<Rightarrow> l)
      in launch l1)"

definition process :: "platform \<Rightarrow> filter_store \<Rightarrow> route \<Rightarrow> event \<Rightarrow> effect list" where
  "process P fs r e =
     (if rt_sink r = None then []
      else if \<not> filters_pass fs (rt_filters r) e then []
      else route_output P r e)"

definition worker_step ::
  "platform \<Rightarrow> filter_store \<Rightarrow> 'q workers \<Rightarrow> 'q lane \<Rightarrow> effect list \<times> 'q lane" where
  "worker_step P fs W l =
     (case ln_worker l of
        Popping \<Rightarrow>
          (case ln_queue l of
             None \<Rightarrow> ([], l\<lparr>ln_worker := Finished\<rparr>)
           | Some q \<Rightarrow>
               (case pop_blocking W (ln_stop l) q of (r, q') \<Rightarrow>
                  let l1 = l\<lparr>ln_queue := Some q'\<rparr>
                  in case r of
                       PopOk e \<Rightarrow> (process P fs (ln_route l) e, l1)
                     | PopEnded \<Rightarrow>
                         ([], l1\<lparr>ln_worker := if \<not> ln_drain l then Finished else Draining\<rparr>)
                     | PopWaits \<Rightarrow> ([], l1)))
      | Draining \<Rightarrow>
          (case ln_queue l of
             None \<Rightarrow> ([], l\<lparr>ln_worker := Finished\<rparr>)
           | Some q \<Rightarrow>
               (case try_pop W q of (r, q') \<Rightarrow>
                  let l1 = l\<lparr>ln_queue := Some q'\<rparr>
                  in case r of
                       Some e \<Rightarrow> (process P fs (ln_route l) e, l1)
                     | None \<Rightarrow> ([], l1\<lparr>ln_worker := Finished\<rparr>)))
      | _ \<Rightarrow> ([], l))"

definition joinable :: "'q lane \<Rightarrow> bool" where
  "joinable l \<longleftrightarrow> ln_worker l \<noteq> NoThread"

definition signal_stop :: "'q workers \<Rightarrow> bool \<Rightarrow> 'q lane \<Rightarrow> 'q lane" where
  "signal_stop W drain l =
     l\<lparr>ln_drain := drain, ln_queue := map_option (close_queue W) (ln_queue l),
       ln_stop := (joinable l \<or> ln_stop l)\<rparr>"

partial_function (option) join_lane ::
  "platform \<Rightarrow> filter_store \<Rightarrow> 'q workers \<Rightarrow> 'q lane \<Rightarrow> (effect list \<times> 'q lane) option" where
  "join_lane P fs W l =
     (if ln_worker l = NoThread then Some ([], l)
      else if ln_worker l = Finished then Some ([], l\<lparr>ln_worker := NoThread\<rparr>)
      else do {
        r \<leftarrow> join_lane P fs W (snd (worker_step P fs W l));
        Some (fst (worker_step P fs W l) @ fst r, snd r)
      })"

declare join_lane.simps [code]

fun join_lanes ::
  "platform \<Rightarrow> filter_store \<Rightarrow> 'q workers \<Rightarrow> 'q lane list \<Rightarrow> (effect list \<times> 'q lane list) option" where
  "join_lanes P fs W [] = Some ([], [])"
| "join_lanes P fs W (l # ls) =
     (case join_lane P fs W l of
        None \<Rightarrow> None
      | Some (es, l') \<Rightarrow>
          (case join_lanes P fs W ls of
             None \<Rightarrow> None
           | Some (es', ls') \<Rightarrow> Some (es @ es', l' # ls')))"

subsection \<open>The crossbar\<close>

definition crossbar_new :: "size_t \<Rightarrow> 'q crossbar" where
  "crossbar_new capacity = \<lparr>xb_capacity = max capacity 1, xb_running = False, xb_lanes = []\<rparr>"

definition work_at ::
  "platform \<Rightarrow> filter_store \<Rightarrow> 'q workers \<Rightarrow> nat \<Rightarrow> 'q lane list \<Rightarrow> effect list \<times> 'q lane list" where
  "work_at P fs W i lanes =
     (if i < length lanes
      then (case worker_step P fs W (lanes ! i) of (es, l) \<Rightarrow> (es, lanes[i := l]))
      else ([], lanes))"

fun run_workers ::
  "platform \<Rightarrow> filter_store \<Rightarrow> 'q workers \<Rightarrow> nat list \<Rightarrow> 'q lane list \<Rightarrow> effect list \<times> 'q lane list" where
  "run_workers P fs W [] lanes = ([], lanes)"
| "run_workers P fs W (i # is) lanes =
     (case work_at P fs W i lanes of (es, lanes1) \<Rightarrow>
        case run_workers P fs W is lanes1 of (es', lanes2) \<Rightarrow> (es @ es', lanes2))"

definition fresh_queue :: "'q workers \<Rightarrow> size_t \<Rightarrow> 'q lane \<Rightarrow> 'q lane" where
  "fresh_queue W capacity l = l\<lparr>ln_queue := Some (event_queue_new W capacity)\<rparr>"

definition stop_lanes ::
  "platform \<Rightarrow> filter_store \<Rightarrow> 'q workers \<Rightarrow> nat list \<Rightarrow> bool \<Rightarrow> 'q crossbar \<Rightarrow>
   (effect list \<times> 'q crossbar) option" where
  "stop_lanes P fs W sched drain x =
     (if \<not> xb_running x \<and> xb_lanes x = [] then Some ([], x)
      else
        (case run_workers P fs W sched (map (signal_stop W drain) (xb_lanes x)) of (es, lanes1) \<Rightarrow>
           (case join_lanes P fs W lanes1 of
              None \<Rightarrow> None
            | Some (es', lanes2) \<Rightarrow>
                Some (es @ es',
                  x\<lparr>xb_running := False,
                    xb_lanes := (if \<not> drain then map (fresh_queue W (xb_capacity x)) lanes2
                                 else lanes2)\<rparr>))))"

definition crossbar_configure ::
  "platform \<Rightarrow> filter_store \<Rightarrow> 'q workers \<Rightarrow> nat list \<Rightarrow> route list \<Rightarrow> size_t \<Rightarrow> 'q crossbar \<Rightarrow>
   (effect list \<times> 'q crossbar) option" where
  "crossbar_configure P fs W sched routes capacity x =
     (let restart = xb_running x
      in case (if restart then stop_lanes P fs W sched True x else Some ([], x)) of
           None \<Rightarrow> None
         | Some (es, x1) \<Rightarrow>
             (let capacity' = max capacity 1;
                  lanes = map (new_lane W capacity') routes
              in Some (es,
                   x1\<lparr>xb_capacity := capacity',
                      xb_lanes := (if restart then map launch lanes else lanes),
                      xb_running := (restart \<or> xb_running x1)\<rparr>)))"

definition crossbar_start :: "'q workers \<Rightarrow> 'q crossbar \<Rightarrow> 'q crossbar" where
  "crossbar_start W x =
     (if xb_running x then x
      else x\<lparr>xb_running := True, xb_lanes := map (start_lane W (xb_capacity x)) (xb_lanes x)\<rparr>)"

definition crossbar_close ::
  "platform \<Rightarrow> filter_store \<Rightarrow> 'q workers \<Rightarrow> nat list \<Rightarrow> 'q crossbar \<Rightarrow> (effect list \<times> 'q crossbar) option" where
  "crossbar_close P fs W sched x = stop_lanes P fs W sched True x"

definition crossbar_request_stop ::
  "platform \<Rightarrow> filter_store \<Rightarrow> 'q workers \<Rightarrow> nat list \<Rightarrow> 'q crossbar \<Rightarrow> (effect list \<times> 'q crossbar) option" where
  "crossbar_request_stop P fs W sched x = stop_lanes P fs W sched False x"

definition crossbar_flush :: "'q crossbar \<Rightarrow> effect list" where
  "crossbar_flush x =
     concat (map (\<lambda>l. case rt_sink (ln_route l) of Some s \<Rightarrow> [SinkFlush s] | None \<Rightarrow> []) (xb_lanes x))"

text \<open>
  \<open>submit\<close>. \<open>BlockedAt i d\<close>: the caller waits for room in lane \<open>i\<close>, \<open>d\<close> being \<open>delivered_any\<close> so
  far; once woken it goes on from that lane.
\<close>

datatype submit_result = Submitted bool | BlockedAt nat bool

definition offer ::
  "'q workers \<Rightarrow> event \<Rightarrow> bool \<Rightarrow> route \<Rightarrow> 'q event_queue \<Rightarrow> push_outcome \<times> 'q event_queue" where
  "offer W e accepting r q =
     (case rt_strategy r of
        Some strat \<Rightarrow> strategy_submit W strat e accepting q
      | None \<Rightarrow> (case try_push W e q of (ok, q') \<Rightarrow> (if ok then Pushed else Refused, q')))"

fun submit_loop ::
  "'q workers \<Rightarrow> event \<Rightarrow> u64 \<Rightarrow> bool \<Rightarrow> nat \<Rightarrow> bool \<Rightarrow> 'q lane list \<Rightarrow> submit_result \<times> 'q lane list" where
  "submit_loop W e route_mask accepting i delivered [] = (Submitted delivered, [])"
| "submit_loop W e route_mask accepting i delivered (l # ls) =
     (if \<not> i < 64 then (Submitted delivered, l # ls)
      else if \<not> mask_has route_mask i then
        (case submit_loop W e route_mask accepting (Suc i) delivered ls of (r, ls') \<Rightarrow> (r, l # ls'))
      else
        (case ln_queue l of
           None \<Rightarrow>
             (case submit_loop W e route_mask accepting (Suc i) delivered ls of (r, ls') \<Rightarrow> (r, l # ls'))
         | Some q \<Rightarrow>
             (case offer W e accepting (ln_route l) q of (outcome, q') \<Rightarrow>
                let l' = l\<lparr>ln_queue := Some q'\<rparr>
                in case outcome of
                     Waits \<Rightarrow> (BlockedAt i delivered, l' # ls)
                   | _ \<Rightarrow>
                       (case submit_loop W e route_mask accepting (Suc i)
                               (delivered \<or> outcome = Pushed) ls of (r, ls') \<Rightarrow> (r, l' # ls')))))"

definition crossbar_resume ::
  "'q workers \<Rightarrow> event \<Rightarrow> u64 \<Rightarrow> bool \<Rightarrow> nat \<Rightarrow> bool \<Rightarrow> 'q crossbar \<Rightarrow> submit_result \<times> 'q crossbar" where
  "crossbar_resume W e route_mask accepting i delivered x =
     (case submit_loop W e route_mask accepting i delivered (drop i (xb_lanes x)) of (r, ls) \<Rightarrow>
        (r, x\<lparr>xb_lanes := take i (xb_lanes x) @ ls\<rparr>))"

definition crossbar_submit ::
  "'q workers \<Rightarrow> event \<Rightarrow> u64 \<Rightarrow> bool \<Rightarrow> 'q crossbar \<Rightarrow> submit_result \<times> 'q crossbar" where
  "crossbar_submit W e route_mask accepting x = crossbar_resume W e route_mask accepting 0 False x"

subsection \<open>One worker\<close>

definition lane_items :: "('q \<Rightarrow> event list) \<Rightarrow> 'q lane \<Rightarrow> event list" where
  "lane_items items l = (case ln_queue l of Some q \<Rightarrow> items (eq_queue q) | None \<Rightarrow> [])"

definition lane_ok :: "('q \<Rightarrow> event list) \<Rightarrow> 'q lane \<Rightarrow> bool" where
  "lane_ok items l \<longleftrightarrow> (\<exists>q. ln_queue l = Some q \<and> queue_inv items q)"

definition lane_shut :: "('q \<Rightarrow> bool) \<Rightarrow> 'q lane \<Rightarrow> bool" where
  "lane_shut closed l \<longleftrightarrow> (\<exists>q. ln_queue l = Some q \<and> closed (eq_queue q))"

lemmas [lane_simps] = lane_items_def lane_ok_def lane_shut_def

definition handled :: "platform \<Rightarrow> filter_store \<Rightarrow> 'q lane \<Rightarrow> event list \<Rightarrow> effect list" where
  "handled P fs l es = concat (map (process P fs (ln_route l)) es)"

lemma handled_simps [simp]:
  "handled P fs l [] = []"
  "handled P fs l (es @ es') = handled P fs l es @ handled P fs l es'"
  by (simp_all add: handled_def)

lemma handled_cong: "ln_route l = ln_route l' \<Longrightarrow> handled P fs l es = handled P fs l' es"
  by (simp add: handled_def)

lemma lane_okE:
  assumes "lane_ok items l"
  obtains q where "ln_queue l = Some q" "queue_inv items q" "lane_items items l = items (eq_queue q)"
  using assms by (auto simp: lane_ok_def lane_items_def)

text \<open>
  A stopped lane: closed, and if it drains, its worker returns only when nothing is left.
\<close>

definition stopping :: "('q \<Rightarrow> event list) \<Rightarrow> ('q \<Rightarrow> bool) \<Rightarrow> 'q lane \<Rightarrow> bool" where
  "stopping items closed l \<longleftrightarrow>
     lane_ok items l \<and> lane_shut closed l \<and>
     (ln_drain l \<longrightarrow> ln_worker l = Finished \<longrightarrow> lane_items items l = [])"

definition rank :: "('q \<Rightarrow> event list) \<Rightarrow> 'q lane \<Rightarrow> nat" where
  "rank items l = length (lane_items items l) +
     (case ln_worker l of Popping \<Rightarrow> 2 | Draining \<Rightarrow> 1 | _ \<Rightarrow> 0)"

definition same_lane :: "'q lane \<Rightarrow> 'q lane \<Rightarrow> bool" where
  "same_lane l l' \<longleftrightarrow> ln_route l' = ln_route l \<and> ln_drain l' = ln_drain l \<and> ln_stop l' = ln_stop l \<and>
     (ln_worker l' = NoThread \<longleftrightarrow> ln_worker l = NoThread)"

lemma worker_step_spec:
  assumes "workers_ok W items closed" "lane_ok items l" "worker_step P fs W l = (es, l')"
  shows "\<exists>taken. lane_items items l = taken @ lane_items items l' \<and> es = handled P fs l taken \<and>
    lane_ok items l' \<and> same_lane l l' \<and> (lane_shut closed l' = lane_shut closed l) \<and>
    (ln_worker l' = ln_worker l \<or> taken = []) \<and>
    (ln_worker l = Popping \<longrightarrow> ln_worker l' \<noteq> Popping \<longrightarrow> lane_shut closed l \<or> ln_stop l) \<and>
    (stopping items closed l \<longrightarrow> stopping items closed l' \<and>
       (ln_worker l \<in> {Popping, Draining} \<longrightarrow> rank items l' < rank items l))"
proof -
  obtain q where q: "ln_queue l = Some q" "queue_inv items q" "lane_items items l = items (eq_queue q)"
    using assms(2) by (rule lane_okE)
  have good: "workers_ok W items closed \<and> queue_inv items q" using assms(1) q(2) by simp
  show ?thesis
  proof (cases "ln_worker l")
    case Popping
    obtain r q' where p: "pop_blocking W (ln_stop l) q = (r, q')" by fastforce
    from evq.next_spec [OF good p] assms(3) p q Popping show ?thesis
      by (cases r) (auto simp: worker_step_def Let_def lane_simps
          handled_def same_lane_def stopping_def rank_def split: if_splits)
  next
    case Draining
    obtain r q' where p: "try_pop W q = (r, q')" by fastforce
    from evq.pop_spec [OF good p] assms(3) p q Draining show ?thesis
      by (cases r) (auto simp: worker_step_def Let_def lane_simps
          handled_def same_lane_def stopping_def rank_def split: list.splits)
  qed (use assms q in \<open>auto simp: worker_step_def same_lane_def intro!: exI [of _ "[]"]\<close>)
qed

lemma join_lane_unfold:
  "ln_worker l = NoThread \<Longrightarrow> join_lane P fs W l = Some ([], l)"
  "ln_worker l = Finished \<Longrightarrow> join_lane P fs W l = Some ([], l\<lparr>ln_worker := NoThread\<rparr>)"
  "ln_worker l \<in> {Popping, Draining} \<Longrightarrow> worker_step P fs W l = (es, l1) \<Longrightarrow>
   join_lane P fs W l1 = Some (es', l2) \<Longrightarrow> join_lane P fs W l = Some (es @ es', l2)"
  by (subst join_lane.simps; auto)+

lemma stopping_join:
  assumes "workers_ok W items closed"
  shows "stopping items closed l \<Longrightarrow>
    \<exists>taken l'. join_lane P fs W l = Some (handled P fs l taken, l') \<and>
      lane_items items l = taken @ lane_items items l' \<and> lane_ok items l' \<and>
      ln_route l' = ln_route l \<and> ln_worker l' = NoThread \<and>
      (ln_drain l \<longrightarrow> ln_worker l \<noteq> NoThread \<longrightarrow> lane_items items l' = []) \<and>
      (ln_worker l = NoThread \<longrightarrow> taken = [])"
proof (induction "rank items l" arbitrary: l rule: less_induct)
  case less
  show ?case
  proof (cases "ln_worker l \<in> {Popping, Draining}")
    case False
    then consider "ln_worker l = NoThread" | "ln_worker l = Finished" by (cases "ln_worker l") auto
    then show ?thesis
    proof cases
      case 1
      with less.prems show ?thesis
        by (auto simp: join_lane_unfold(1) stopping_def intro!: exI [of _ "[]"])
    next
      case 2
      with less.prems show ?thesis
        by (auto simp: join_lane_unfold(2) stopping_def lane_items_def lane_ok_def
            intro!: exI [of _ "[]"])
    qed
  next
    case True
    obtain es l1 where st: "worker_step P fs W l = (es, l1)" by fastforce
    have "lane_ok items l" using less.prems by (simp add: stopping_def)
    from worker_step_spec [OF assms this st] less.prems True obtain taken1 where
      one: "lane_items items l = taken1 @ lane_items items l1" "es = handled P fs l taken1"
        "same_lane l l1" "stopping items closed l1" "rank items l1 < rank items l"
      by blast
    from less.hyps [OF one(5,4)] obtain taken2 l2 where
      two: "join_lane P fs W l1 = Some (handled P fs l1 taken2, l2)"
        "lane_items items l1 = taken2 @ lane_items items l2" "lane_ok items l2"
        "ln_route l2 = ln_route l1" "ln_worker l2 = NoThread"
        "ln_drain l1 \<longrightarrow> ln_worker l1 \<noteq> NoThread \<longrightarrow> lane_items items l2 = []"
      by blast
    from one(3) have eq: "ln_route l1 = ln_route l" "ln_drain l1 = ln_drain l"
      "ln_worker l1 \<noteq> NoThread" using True by (auto simp: same_lane_def)
    from join_lane_unfold(3) [OF True st two(1)]
    have "join_lane P fs W l = Some (handled P fs l (taken1 @ taken2), l2)"
      using one(2) handled_cong [OF eq(1), of P fs taken2] by simp
    with one(1) two(2-6) eq True show ?thesis
      by (intro exI [of _ "taken1 @ taken2"] exI [of _ l2]) auto
  qed
qed

lemma stopping_signal:
  assumes "workers_ok W items closed" "lane_ok items l"
    "drain \<longrightarrow> ln_worker l \<in> {NoThread, Popping}"
  shows "stopping items closed (signal_stop W drain l)"
    "lane_items items (signal_stop W drain l) = lane_items items l"
    "ln_route (signal_stop W drain l) = ln_route l"
    "ln_worker (signal_stop W drain l) = ln_worker l"
    "ln_drain (signal_stop W drain l) = drain"
proof -
  obtain q where q: "ln_queue l = Some q" "queue_inv items q" "lane_items items l = items (eq_queue q)"
    using assms(2) by (rule lane_okE)
  from close_queue_spec [OF assms(1) q(2)] q assms(3)
  show "stopping items closed (signal_stop W drain l)"
    "lane_items items (signal_stop W drain l) = lane_items items l"
    "ln_route (signal_stop W drain l) = ln_route l"
    "ln_worker (signal_stop W drain l) = ln_worker l"
    "ln_drain (signal_stop W drain l) = drain"
    by (auto simp: stopping_def signal_stop_def lane_simps)
qed

text \<open>
  Stopping one lane always ends. A worker told to drain handles exactly what is queued, in
  order, and nothing is left; one told to stop handles the events of some first part of the queue
  only. A lane whose worker was never started keeps its events queued in either case.
\<close>

theorem stopped_lane_drains:
  assumes "workers_ok W items closed" "lane_ok items l" "ln_worker l \<in> {NoThread, Popping}"
  shows "\<exists>taken l'. join_lane P fs W (signal_stop W drain l) =
      Some (concat (map (process P fs (ln_route l)) taken), l') \<and>
    ln_worker l' = NoThread \<and> lane_items items l = taken @ lane_items items l' \<and>
    (ln_worker l = Popping \<and> drain \<longrightarrow> taken = lane_items items l) \<and>
    (ln_worker l = NoThread \<longrightarrow> taken = [])"
proof -
  note s = stopping_signal [OF assms(1,2), of drain]
  from assms(3) stopping_join [OF assms(1) s(1), of P fs] obtain taken l' where
    j: "join_lane P fs W (signal_stop W drain l) = Some (handled P fs (signal_stop W drain l) taken, l')"
      "lane_items items (signal_stop W drain l) = taken @ lane_items items l'" "ln_worker l' = NoThread"
      "drain \<longrightarrow> ln_worker (signal_stop W drain l) \<noteq> NoThread \<longrightarrow> lane_items items l' = []"
      "ln_worker (signal_stop W drain l) = NoThread \<longrightarrow> taken = []"
    using s(5) by blast
  with s assms(3) show ?thesis
    by (intro exI [of _ "taken"] exI [of _ l']) (auto simp: handled_def)
qed

subsection \<open>All workers together\<close>

definition live :: "('q \<Rightarrow> event list) \<Rightarrow> ('q \<Rightarrow> bool) \<Rightarrow> 'q lane \<Rightarrow> bool" where
  "live items closed l \<longleftrightarrow>
     lane_ok items l \<and> \<not> lane_shut closed l \<and> \<not> ln_stop l \<and> ln_worker l = Popping \<and> ln_drain l"

text \<open>What a lane goes through while its worker handles the events \<open>d\<close>.\<close>

definition evolves ::
  "('q \<Rightarrow> event list) \<Rightarrow> ('q \<Rightarrow> bool) \<Rightarrow> 'q lane \<Rightarrow> event list \<Rightarrow> 'q lane \<Rightarrow> bool" where
  "evolves items closed l d l' \<longleftrightarrow>
     lane_items items l = d @ lane_items items l' \<and> lane_ok items l' \<and>
     ln_route l' = ln_route l \<and> ln_drain l' = ln_drain l \<and>
     (ln_worker l' = NoThread \<longleftrightarrow> ln_worker l = NoThread) \<and>
     (ln_worker l = NoThread \<longrightarrow> d = []) \<and>
     (stopping items closed l \<longrightarrow> stopping items closed l') \<and>
     (live items closed l \<longrightarrow> live items closed l')"

lemma evolves_refl: "lane_ok items l \<Longrightarrow> evolves items closed l [] l"
  by (simp add: evolves_def)

lemma evolves_trans:
  "evolves items closed l d l1 \<Longrightarrow> evolves items closed l1 d' l2 \<Longrightarrow> evolves items closed l (d @ d') l2"
  by (simp add: evolves_def)

lemma worker_step_evolves:
  assumes "workers_ok W items closed" "lane_ok items l" "worker_step P fs W l = (es, l')"
  shows "\<exists>d. evolves items closed l d l' \<and> es = handled P fs l d"
proof -
  from worker_step_spec [OF assms] obtain d where
    d: "lane_items items l = d @ lane_items items l'" "es = handled P fs l d" "lane_ok items l'"
      "same_lane l l'" "lane_shut closed l' = lane_shut closed l"
      "ln_worker l = Popping \<longrightarrow> ln_worker l' \<noteq> Popping \<longrightarrow> lane_shut closed l \<or> ln_stop l"
      "stopping items closed l \<longrightarrow> stopping items closed l'"
    by blast
  have "d = []" if "ln_worker l = NoThread"
    using d(1) assms(3) that by (simp add: worker_step_def)
  with d have "evolves items closed l d l'"
    by (auto simp: evolves_def live_def same_lane_def)
  with d(2) show ?thesis by blast
qed

definition exclusive :: "'q lane list \<Rightarrow> sink_id \<Rightarrow> nat \<Rightarrow> bool" where
  "exclusive lanes s j \<longleftrightarrow>
     j < length lanes \<and> (\<forall>i < length lanes. rt_sink (ln_route (lanes ! i)) = Some s \<longrightarrow> i = j)"

text \<open>
  The effects \<open>es\<close> are what the lanes make of the events \<open>d\<close>: every sink that only one lane has
  receives exactly the output of that lane, in order.
\<close>

definition produced ::
  "platform \<Rightarrow> filter_store \<Rightarrow> 'q lane list \<Rightarrow> (nat \<Rightarrow> event list) \<Rightarrow> effect list \<Rightarrow> bool" where
  "produced P fs lanes d es \<longleftrightarrow>
     (\<forall>s j. exclusive lanes s j \<longrightarrow> sink_bytes s es = sink_bytes s (handled P fs (lanes ! j) (d j)))"

lemma process_other_sink: "rt_sink r \<noteq> Some s \<Longrightarrow> sink_bytes s (process P fs r e) = []"
  by (auto simp: process_def route_output_def Let_def)

lemma handled_other_sink: "rt_sink (ln_route l) \<noteq> Some s \<Longrightarrow> sink_bytes s (handled P fs l es) = []"
  by (induction es) (auto simp: handled_def process_other_sink)

lemma produced_Nil [simp]: "produced P fs lanes (\<lambda>_. []) []"
  by (simp add: produced_def)

lemma produced_append:
  "produced P fs lanes d es \<Longrightarrow> produced P fs lanes d' es' \<Longrightarrow>
   produced P fs lanes (\<lambda>j. d j @ d' j) (es @ es')"
  by (simp add: produced_def)

lemma produced_cong:
  assumes "map ln_route lanes = map ln_route lanes'" "produced P fs lanes d es"
  shows "produced P fs lanes' d es"
proof -
  have len: "length lanes = length lanes'" using assms(1) by (rule map_eq_imp_length_eq)
  have nth: "ln_route (lanes ! i) = ln_route (lanes' ! i)" if "i < length lanes'" for i
    using assms(1) len that by (metis nth_map)
  have "exclusive lanes s j" if "exclusive lanes' s j" for s j
    using that len nth by (simp add: exclusive_def)
  moreover have "handled P fs (lanes ! j) (d j) = handled P fs (lanes' ! j) (d j)"
    if "exclusive lanes' s j" for s j
    using that nth by (intro handled_cong) (simp add: exclusive_def)
  ultimately show ?thesis using assms(2) unfolding produced_def by metis
qed

lemma produced_single:
  assumes "i < length lanes"
  shows "produced P fs lanes ((\<lambda>_. [])(i := d)) (handled P fs (lanes ! i) d)"
  unfolding produced_def
proof (intro allI impI)
  fix s j
  assume "exclusive lanes s j"
  then show "sink_bytes s (handled P fs (lanes ! i) d)
      = sink_bytes s (handled P fs (lanes ! j) (((\<lambda>_. [])(i := d)) j))"
    using assms by (cases "i = j") (auto simp: exclusive_def handled_other_sink)
qed

definition all_evolve ::
  "('q \<Rightarrow> event list) \<Rightarrow> ('q \<Rightarrow> bool) \<Rightarrow> 'q lane list \<Rightarrow> (nat \<Rightarrow> event list) \<Rightarrow> 'q lane list \<Rightarrow> bool" where
  "all_evolve items closed lanes d lanes' \<longleftrightarrow>
     length lanes' = length lanes \<and>
     (\<forall>j < length lanes. evolves items closed (lanes ! j) (d j) (lanes' ! j))"

lemma all_evolve_routes:
  "all_evolve items closed lanes d lanes' \<Longrightarrow> map ln_route lanes = map ln_route lanes'"
  by (auto simp: all_evolve_def evolves_def intro!: nth_equalityI)

lemma work_at_evolves:
  assumes "workers_ok W items closed" "\<forall>l \<in> set lanes. lane_ok items l"
    "work_at P fs W i lanes = (es, lanes')"
  shows "\<exists>d. all_evolve items closed lanes d lanes' \<and> produced P fs lanes d es"
proof (cases "i < length lanes")
  case False
  then have "all_evolve items closed lanes (\<lambda>_. []) lanes' \<and> produced P fs lanes (\<lambda>_. []) es"
    using assms by (simp add: work_at_def all_evolve_def evolves_refl)
  then show ?thesis by blast
next
  case True
  obtain es0 l where st: "worker_step P fs W (lanes ! i) = (es0, l)" by fastforce
  have "lane_ok items (lanes ! i)" using assms(2) True by simp
  from worker_step_evolves [OF assms(1) this st] obtain d where
    d: "evolves items closed (lanes ! i) d l" "es0 = handled P fs (lanes ! i) d" by blast
  have "lanes' = lanes[i := l]" "es = es0" using assms(3) st True by (simp_all add: work_at_def)
  then have "all_evolve items closed lanes ((\<lambda>_. [])(i := d)) lanes'"
    using d(1) assms(2) by (auto simp: all_evolve_def nth_list_update evolves_refl)
  moreover have "produced P fs lanes ((\<lambda>_. [])(i := d)) es"
    using produced_single [OF True] d(2) \<open>es = es0\<close> by blast
  ultimately show ?thesis by blast
qed

lemma all_evolve_ok:
  "all_evolve items closed lanes d lanes' \<Longrightarrow> \<forall>l \<in> set lanes'. lane_ok items l"
  by (auto simp: all_evolve_def evolves_def in_set_conv_nth)

lemma all_evolve_trans:
  "all_evolve items closed lanes d lanes1 \<Longrightarrow> all_evolve items closed lanes1 d' lanes2 \<Longrightarrow>
   all_evolve items closed lanes (\<lambda>j. d j @ d' j) lanes2"
  by (auto simp: all_evolve_def intro: evolves_trans)

lemma run_workers_evolves:
  assumes "workers_ok W items closed"
  shows "\<forall>l \<in> set lanes. lane_ok items l \<Longrightarrow> run_workers P fs W sched lanes = (es, lanes') \<Longrightarrow>
    \<exists>d. all_evolve items closed lanes d lanes' \<and> produced P fs lanes d es"
proof (induction sched arbitrary: lanes es)
  case Nil
  then have "all_evolve items closed lanes (\<lambda>_. []) lanes' \<and> produced P fs lanes (\<lambda>_. []) es"
    by (simp add: all_evolve_def evolves_refl)
  then show ?case by blast
next
  case (Cons i sched)
  obtain es1 lanes1 where w: "work_at P fs W i lanes = (es1, lanes1)" by fastforce
  obtain es2 where r: "run_workers P fs W sched lanes1 = (es2, lanes')" "es = es1 @ es2"
    using Cons.prems(2) w by (auto split: prod.splits)
  from work_at_evolves [OF assms Cons.prems(1) w] obtain d1 where
    d1: "all_evolve items closed lanes d1 lanes1" "produced P fs lanes d1 es1" by blast
  from Cons.IH [OF all_evolve_ok [OF d1(1)] r(1)] obtain d2 where
    d2: "all_evolve items closed lanes1 d2 lanes'" "produced P fs lanes1 d2 es2" by blast
  from produced_cong [OF all_evolve_routes [OF d1(1), symmetric] d2(2)] d1 d2(1) r(2)
  show ?case using all_evolve_trans produced_append by blast
qed

text \<open>What joining a stopped lane leaves.\<close>

definition joined :: "('q \<Rightarrow> event list) \<Rightarrow> 'q lane \<Rightarrow> event list \<Rightarrow> 'q lane \<Rightarrow> bool" where
  "joined items l d l' \<longleftrightarrow>
     lane_items items l = d @ lane_items items l' \<and> lane_ok items l' \<and>
     ln_route l' = ln_route l \<and> ln_worker l' = NoThread \<and>
     (ln_drain l \<longrightarrow> ln_worker l \<noteq> NoThread \<longrightarrow> lane_items items l' = []) \<and>
     (ln_worker l = NoThread \<longrightarrow> d = [])"

definition all_joined ::
  "('q \<Rightarrow> event list) \<Rightarrow> 'q lane list \<Rightarrow> (nat \<Rightarrow> event list) \<Rightarrow> 'q lane list \<Rightarrow> bool" where
  "all_joined items lanes d lanes' \<longleftrightarrow>
     length lanes' = length lanes \<and> (\<forall>j < length lanes. joined items (lanes ! j) (d j) (lanes' ! j))"

lemma produced_in_turn:
  "n \<le> length lanes \<Longrightarrow>
   produced P fs lanes (\<lambda>j. if j < n then d j else [])
     (concat (map (\<lambda>j. handled P fs (lanes ! j) (d j)) [0..<n]))"
proof (induction n)
  case 0
  then show ?case by simp
next
  case (Suc n)
  then have "produced P fs lanes ((\<lambda>_. [])(n := d n)) (handled P fs (lanes ! n) (d n))"
    by (intro produced_single) simp
  moreover have "(\<lambda>j. (if j < n then d j else []) @ ((\<lambda>_. [])(n := d n)) j)
      = (\<lambda>j. if j < Suc n then d j else [])"
    by (auto simp: less_Suc_eq)
  ultimately show ?case using produced_append Suc by fastforce
qed

lemma join_lanes_in_turn:
  assumes "workers_ok W items closed"
  shows "\<forall>l \<in> set lanes. stopping items closed l \<Longrightarrow>
    \<exists>d lanes'. all_joined items lanes d lanes' \<and>
      join_lanes P fs W lanes =
        Some (concat (map (\<lambda>j. handled P fs (lanes ! j) (d j)) [0..<length lanes]), lanes')"
proof (induction lanes)
  case Nil
  then show ?case by (simp add: all_joined_def)
next
  case (Cons l ls)
  from Cons obtain d lanes' where
    rest: "all_joined items ls d lanes'"
      "join_lanes P fs W ls =
        Some (concat (map (\<lambda>j. handled P fs (ls ! j) (d j)) [0..<length ls]), lanes')"
    by auto
  from stopping_join [OF assms, of l P fs] Cons.prems obtain d0 l' where
    first: "join_lane P fs W l = Some (handled P fs l d0, l')" "joined items l d0 l'"
    by (auto simp: joined_def)
  have "all_joined items (l # ls) (case_nat d0 d) (l' # lanes')"
    using rest(1) first(2) by (auto simp: all_joined_def less_Suc_eq_0_disj)
  moreover have "[0..<length (l # ls)] = 0 # map Suc [0..<length ls]"
    by (simp add: upt_conv_Cons map_Suc_upt del: upt_Suc)
  ultimately show ?case using rest(2) first(1)
    by (intro exI [of _ "case_nat d0 d"] exI [of _ "l' # lanes'"]) (simp add: comp_def)
qed

lemma join_lanes_spec:
  assumes "workers_ok W items closed" "\<forall>l \<in> set lanes. stopping items closed l"
  shows "\<exists>d es lanes'. join_lanes P fs W lanes = Some (es, lanes') \<and>
    all_joined items lanes d lanes' \<and> produced P fs lanes d es"
proof -
  from join_lanes_in_turn [OF assms, of P fs] obtain d lanes' where
    j: "all_joined items lanes d lanes'"
      "join_lanes P fs W lanes =
        Some (concat (map (\<lambda>j. handled P fs (lanes ! j) (d j)) [0..<length lanes]), lanes')"
    by blast
  have "produced P fs lanes (\<lambda>j. if j < length lanes then d j else [])
      (concat (map (\<lambda>j. handled P fs (lanes ! j) (d j)) [0..<length lanes]))"
    by (rule produced_in_turn) simp
  moreover have "all_joined items lanes (\<lambda>j. if j < length lanes then d j else []) lanes'"
    using j(1) by (simp add: all_joined_def)
  ultimately show ?thesis using j(2) by blast
qed

subsection \<open>Stopping the crossbar\<close>

definition crossbar_ok :: "('q \<Rightarrow> event list) \<Rightarrow> ('q \<Rightarrow> bool) \<Rightarrow> 'q crossbar \<Rightarrow> bool" where
  "crossbar_ok items closed x \<longleftrightarrow>
     (\<forall>l \<in> set (xb_lanes x). lane_ok items l \<and>
        (if xb_running x then live items closed l else ln_worker l = NoThread))"

abbreviation queued :: "('q \<Rightarrow> event list) \<Rightarrow> 'q crossbar \<Rightarrow> nat \<Rightarrow> event list" where
  "queued items x j \<equiv> lane_items items (xb_lanes x ! j)"

definition stopped_as ::
  "('q \<Rightarrow> event list) \<Rightarrow> bool \<Rightarrow> 'q crossbar \<Rightarrow> (nat \<Rightarrow> event list) \<Rightarrow> 'q crossbar \<Rightarrow> bool" where
  "stopped_as items drain x d x' \<longleftrightarrow>
     \<not> xb_running x' \<and> map ln_route (xb_lanes x') = map ln_route (xb_lanes x) \<and>
     xb_capacity x' = xb_capacity x \<and>
     (\<forall>l \<in> set (xb_lanes x'). lane_ok items l \<and> ln_worker l = NoThread) \<and>
     (\<forall>j < length (xb_lanes x).
        (\<exists>rest. queued items x j = d j @ rest) \<and>
        (if drain then queued items x j = d j @ queued items x' j else queued items x' j = []) \<and>
        (\<not> xb_running x \<longrightarrow> d j = []) \<and>
        (xb_running x \<and> drain \<longrightarrow> queued items x' j = []))"

lemma fresh_queue_spec:
  "workers_ok W items closed \<Longrightarrow>
   lane_ok items (fresh_queue W c l) \<and> lane_items items (fresh_queue W c l) = [] \<and>
   ln_route (fresh_queue W c l) = ln_route l \<and> ln_worker (fresh_queue W c l) = ln_worker l"
  by (simp add: fresh_queue_def lane_ok_def lane_items_def queue_inv_new workers_new_close
      event_queue_new_def queue_inv_def)

lemma live_worker: "live items closed l \<Longrightarrow> ln_worker l = Popping"
  by (simp add: live_def)

lemma evolves_then_joined:
  assumes "evolves items closed l d l1" "joined items l1 d' l2"
  shows "joined items l (d @ d') l2"
  using assms by (auto simp: evolves_def joined_def)

lemma stopping_set_evolves:
  assumes "all_evolve items closed lanes d lanes'" "\<forall>l \<in> set lanes. stopping items closed l"
  shows "\<forall>l \<in> set lanes'. stopping items closed l"
proof
  fix l
  assume "l \<in> set lanes'"
  then obtain i where "i < length lanes'" "l = lanes' ! i" by (auto simp: in_set_conv_nth)
  with assms nth_mem show "stopping items closed l" unfolding all_evolve_def evolves_def by metis
qed

lemma run_and_join:
  assumes "workers_ok W items closed" "\<forall>l \<in> set lanes. stopping items closed l"
    "run_workers P fs W sched lanes = (es1, lanes1)"
  shows "\<exists>d es2 lanes2. join_lanes P fs W lanes1 = Some (es2, lanes2) \<and>
    all_joined items lanes d lanes2 \<and> produced P fs lanes d (es1 @ es2)"
proof -
  have ok: "\<forall>l \<in> set lanes. lane_ok items l" using assms(2) by (simp add: stopping_def)
  from run_workers_evolves [OF assms(1) ok assms(3)] obtain d1 where
    d1: "all_evolve items closed lanes d1 lanes1" "produced P fs lanes d1 es1" by blast
  from join_lanes_spec [OF assms(1) stopping_set_evolves [OF d1(1) assms(2)], of P fs]
  obtain d2 es2 lanes2 where
    d2: "join_lanes P fs W lanes1 = Some (es2, lanes2)" "all_joined items lanes1 d2 lanes2"
      "produced P fs lanes1 d2 es2" by blast
  have "all_joined items lanes (\<lambda>j. d1 j @ d2 j) lanes2"
    using d1(1) d2(2) by (auto simp: all_evolve_def all_joined_def intro: evolves_then_joined)
  moreover have "produced P fs lanes (\<lambda>j. d1 j @ d2 j) (es1 @ es2)"
    by (intro produced_append d1(2) produced_cong [OF all_evolve_routes [OF d1(1), symmetric] d2(3)])
  ultimately show ?thesis using d2(1) by blast
qed

lemma stop_lanes_spec:
  assumes "workers_ok W items closed" "crossbar_ok items closed x"
  shows "\<exists>d es x'. stop_lanes P fs W sched drain x = Some (es, x') \<and>
    stopped_as items drain x d x' \<and> produced P fs (xb_lanes x) d es"
proof (cases "\<not> xb_running x \<and> xb_lanes x = []")
  case True
  then have "stop_lanes P fs W sched drain x = Some ([], x) \<and>
    stopped_as items drain x (\<lambda>_. []) x \<and> produced P fs (xb_lanes x) (\<lambda>_. []) []"
    by (simp add: stop_lanes_def stopped_as_def)
  then show ?thesis by blast
next
  case False
  let ?lanes = "xb_lanes x"
  let ?sig = "map (signal_stop W drain) ?lanes"
  have lok: "lane_ok items l" "ln_worker l \<in> {NoThread, Popping}"
    "ln_worker l = (if xb_running x then Popping else NoThread)" if "l \<in> set ?lanes" for l
    using assms(2) that by (auto simp: crossbar_ok_def dest: live_worker split: if_splits)
  note sig = stopping_signal [OF assms(1) lok(1)]
  have stp: "\<forall>l \<in> set ?sig. stopping items closed l" using sig(1) lok(2) by auto
  obtain es1 lanes1 where r: "run_workers P fs W sched ?sig = (es1, lanes1)" by fastforce
  from run_and_join [OF assms(1) stp r] obtain d es2 lanes2 where
    j: "join_lanes P fs W lanes1 = Some (es2, lanes2)" "all_joined items ?sig d lanes2"
      "produced P fs ?sig d (es1 @ es2)" by blast
  let ?x' = "x\<lparr>xb_running := False, xb_lanes :=
    (if \<not> drain then map (fresh_queue W (xb_capacity x)) lanes2 else lanes2)\<rparr>"
  have stop: "stop_lanes P fs W sched drain x = Some (es1 @ es2, ?x')"
    using False r j(1) by (auto simp: stop_lanes_def)
  have routes: "map ln_route ?sig = map ln_route ?lanes"
    using sig(3) lok(2) by simp
  have len: "length lanes2 = length ?lanes" using j(2) by (simp add: all_joined_def)
  have lane: "queued items x i = d i @ lane_items items (lanes2 ! i)" "lane_ok items (lanes2 ! i)"
    "ln_route (lanes2 ! i) = ln_route (?lanes ! i)" "ln_worker (lanes2 ! i) = NoThread"
    "\<not> xb_running x \<longrightarrow> d i = []" "xb_running x \<and> drain \<longrightarrow> lane_items items (lanes2 ! i) = []"
    if "i < length ?lanes" for i
    using j(2) sig(2-5) [of "?lanes ! i" drain] lok [of "?lanes ! i"] that
    by (auto simp: all_joined_def joined_def)
  have ok2: "\<forall>l \<in> set lanes2. lane_ok items l \<and> ln_worker l = NoThread"
    using lane(2,4) len by (auto simp: in_set_conv_nth)
  have "map ln_route lanes2 = map ln_route ?lanes"
    using lane(3) len by (auto intro: nth_equalityI)
  then have "stopped_as items drain x d ?x'"
    using lane len ok2 fresh_queue_spec [OF assms(1), where c = "xb_capacity x"]
    by (auto simp: stopped_as_def comp_def)
  with stop produced_cong [OF routes j(3)] show ?thesis by blast
qed

subsection \<open>Submitting\<close>

lemma offer_spec:
  assumes "workers_ok W items closed" "queue_inv items q" "offer W e accepting r q = (outcome, q')"
  shows "queue_inv items q' \<and> closed (eq_queue q') = closed (eq_queue q) \<and>
    eq_capacity q' = eq_capacity q \<and>
    (outcome = Pushed \<longleftrightarrow> \<not> closed (eq_queue q) \<and>
       length (items (eq_queue q)) < unat (eq_capacity q) \<and>
       (rt_strategy r = Some BlockWhenFull \<longrightarrow> accepting)) \<and>
    (outcome = Waits \<longleftrightarrow> rt_strategy r = Some BlockWhenFull \<and> accepting \<and>
       length (items (eq_queue q)) = unat (eq_capacity q)) \<and>
    items (eq_queue q') = (if outcome = Pushed then items (eq_queue q) @ [e] else items (eq_queue q))"
proof (cases "rt_strategy r")
  case None
  then have "strategy_submit W DropWhenFull e accepting q = (outcome, q')"
    using assms(3) by (simp add: offer_def)
  from strategy_submit_spec [OF assms(1,2) this] None show ?thesis by auto
next
  case (Some strat)
  then have "strategy_submit W strat e accepting q = (outcome, q')"
    using assms(3) by (simp add: offer_def)
  from strategy_submit_spec [OF assms(1,2) this] Some show ?thesis by auto
qed

definition lane_offered :: "'q workers \<Rightarrow> event \<Rightarrow> bool \<Rightarrow> 'q lane \<Rightarrow> 'q lane" where
  "lane_offered W e accepting l =
     (case ln_queue l of None \<Rightarrow> l
      | Some q \<Rightarrow> l\<lparr>ln_queue := Some (snd (offer W e accepting (ln_route l) q))\<rparr>)"

definition reached :: "u64 \<Rightarrow> submit_result \<Rightarrow> nat \<Rightarrow> bool" where
  "reached route_mask r j \<longleftrightarrow>
     j < 64 \<and> mask_has route_mask j \<and> (case r of Submitted _ \<Rightarrow> True | BlockedAt k _ \<Rightarrow> j \<le> k)"

lemma submit_loop_blocked:
  "submit_loop W e route_mask accepting i d lanes = (BlockedAt k d', lanes') \<Longrightarrow>
   i \<le> k \<and> k - i < length lanes \<and> k < 64 \<and> mask_has route_mask k \<and>
   (\<exists>q. ln_queue (lanes ! (k - i)) = Some q \<and>
      fst (offer W e accepting (ln_route (lanes ! (k - i))) q) = Waits)"
proof (induction lanes arbitrary: i d lanes')
  case Nil
  then show ?case by simp
next
  case (Cons l ls)
  show ?case
  proof (cases "k = i")
    case True
    have "\<not> i \<le> k - 1 \<or> i = 0" using True by auto
    then have never: "submit_loop W e route_mask accepting (Suc i) d0 ls \<noteq> (BlockedAt k d', ls')" for d0 ls'
      using Cons.IH [of "Suc i" d0 ls'] True by auto
    then show ?thesis using Cons.prems True
      by (auto simp: Let_def split: if_splits option.splits prod.splits push_outcome.splits)
  next
    case False
    then obtain d0 ls' where r: "submit_loop W e route_mask accepting (Suc i) d0 ls = (BlockedAt k d', ls')"
      using Cons.prems
      by (auto simp: Let_def split: if_splits option.splits prod.splits push_outcome.splits)
    from Cons.IH [OF r] show ?thesis by (auto simp: nth_shift)
  qed
qed

lemma submit_loop_lanes:
  "submit_loop W e route_mask accepting i d lanes = (r, lanes') \<Longrightarrow>
   length lanes' = length lanes \<and>
   (\<forall>j < length lanes. lanes' ! j =
      (if reached route_mask r (i + j) then lane_offered W e accepting (lanes ! j) else lanes ! j))"
proof (induction lanes arbitrary: i d lanes')
  case Nil
  then show ?case by simp
next
  case (Cons l ls)
  show ?case
  proof (cases "i < 64 \<and> r \<noteq> BlockedAt i d")
    case False
    show ?thesis
    proof (cases "i < 64")
      case True
      with False have r: "r = BlockedAt i d" by simp
      have never: "submit_loop W e route_mask accepting (Suc i) d0 ls \<noteq> (BlockedAt i d, ls')" for d0 ls'
        using submit_loop_blocked [of W e route_mask accepting "Suc i" d0 ls i d ls'] by auto
      from Cons.prems True r never show ?thesis
        by (auto simp: Let_def reached_def lane_offered_def nth_Cons'
            split: if_splits option.splits prod.splits push_outcome.splits)
    qed (use Cons.prems in \<open>auto simp: reached_def\<close>)
  next
    case True
    then obtain d0 ls' where ls': "submit_loop W e route_mask accepting (Suc i) d0 ls = (r, ls')"
      "lanes' = (if mask_has route_mask i then lane_offered W e accepting l else l) # ls'"
      using Cons.prems
      by (auto simp: Let_def lane_offered_def
          split: if_splits option.splits prod.splits push_outcome.splits)
    have "reached route_mask r i \<longleftrightarrow> mask_has route_mask i"
      using True submit_loop_blocked ls'(1)
      by (fastforce simp: reached_def split: submit_result.splits)
    with Cons.IH [OF ls'(1)] ls'(2) show ?thesis by (auto simp: less_Suc_eq_0_disj)
  qed
qed

definition lane_pushes :: "'q workers \<Rightarrow> event \<Rightarrow> bool \<Rightarrow> 'q lane \<Rightarrow> bool" where
  "lane_pushes W e accepting l \<longleftrightarrow>
     (\<exists>q. ln_queue l = Some q \<and> fst (offer W e accepting (ln_route l) q) = Pushed)"

lemma submit_loop_delivered:
  "submit_loop W e route_mask accepting i d lanes = (Submitted d', lanes') \<Longrightarrow>
   d' \<longleftrightarrow> d \<or> (\<exists>j < length lanes. i + j < 64 \<and> mask_has route_mask (i + j) \<and>
     lane_pushes W e accepting (lanes ! j))"
proof (induction lanes arbitrary: i d lanes')
  case Nil
  then show ?case by simp
next
  case (Cons l ls)
  show ?case
  proof (cases "i < 64")
    case False
    with Cons.prems show ?thesis by auto
  next
    case True
    then obtain ls' where ls': "submit_loop W e route_mask accepting (Suc i)
        (d \<or> (mask_has route_mask i \<and> lane_pushes W e accepting l)) ls = (Submitted d', ls')"
      using Cons.prems
      by (auto simp: Let_def lane_pushes_def
          split: if_splits option.splits prod.splits push_outcome.splits)
    have "(\<exists>j < length (l # ls). i + j < 64 \<and> mask_has route_mask (i + j) \<and>
        lane_pushes W e accepting ((l # ls) ! j)) \<longleftrightarrow>
      (mask_has route_mask i \<and> lane_pushes W e accepting l) \<or>
      (\<exists>j < length ls. Suc i + j < 64 \<and> mask_has route_mask (Suc i + j) \<and>
        lane_pushes W e accepting (ls ! j))"
      using True by (auto simp: Ex_less_Suc2)
    with Cons.IH [OF ls'] show ?thesis by blast
  qed
qed

text \<open>A lane admits an event: open, with room, and when it blocks, the pipeline is accepting.\<close>

definition admits ::
  "('q \<Rightarrow> event list) \<Rightarrow> ('q \<Rightarrow> bool) \<Rightarrow> bool \<Rightarrow> 'q lane \<Rightarrow> bool" where
  "admits items closed accepting l \<longleftrightarrow>
     (case ln_queue l of None \<Rightarrow> False
      | Some q \<Rightarrow> \<not> closed (eq_queue q) \<and> length (items (eq_queue q)) < unat (eq_capacity q) \<and>
          (rt_strategy (ln_route l) = Some BlockWhenFull \<longrightarrow> accepting))"

definition blocks :: "('q \<Rightarrow> event list) \<Rightarrow> bool \<Rightarrow> 'q lane \<Rightarrow> bool" where
  "blocks items accepting l \<longleftrightarrow>
     (case ln_queue l of None \<Rightarrow> False
      | Some q \<Rightarrow> rt_strategy (ln_route l) = Some BlockWhenFull \<and> accepting \<and>
          length (items (eq_queue q)) = unat (eq_capacity q))"

lemma lane_offered_spec:
  assumes "workers_ok W items closed" "lane_ok items l"
  shows "lane_items items (lane_offered W e accepting l) =
      lane_items items l @ (if admits items closed accepting l then [e] else [])"
    "lane_ok items (lane_offered W e accepting l)"
    "lane_shut closed (lane_offered W e accepting l) = lane_shut closed l"
    "lane_pushes W e accepting l \<longleftrightarrow> admits items closed accepting l"
    "ln_queue l = Some q \<Longrightarrow> fst (offer W e accepting (ln_route l) q) = Waits \<longleftrightarrow> blocks items accepting l"
proof -
  obtain q0 where q: "ln_queue l = Some q0" "queue_inv items q0" "lane_items items l = items (eq_queue q0)"
    using assms(2) by (rule lane_okE)
  obtain oc q' where o: "offer W e accepting (ln_route l) q0 = (oc, q')" by fastforce
  note offer_spec [OF assms(1) q(2) o]
  with q o show "lane_items items (lane_offered W e accepting l) =
      lane_items items l @ (if admits items closed accepting l then [e] else [])"
    "lane_ok items (lane_offered W e accepting l)"
    "lane_shut closed (lane_offered W e accepting l) = lane_shut closed l"
    "lane_pushes W e accepting l \<longleftrightarrow> admits items closed accepting l"
    "ln_queue l = Some q \<Longrightarrow> fst (offer W e accepting (ln_route l) q) = Waits \<longleftrightarrow> blocks items accepting l"
    by (auto simp: lane_offered_def lane_simps lane_pushes_def
        admits_def blocks_def)
qed

lemma lane_offered_keeps [simp]:
  "ln_route (lane_offered W e accepting l) = ln_route l"
  "ln_worker (lane_offered W e accepting l) = ln_worker l"
  "ln_stop (lane_offered W e accepting l) = ln_stop l"
  "ln_drain (lane_offered W e accepting l) = ln_drain l"
  by (simp_all add: lane_offered_def split: option.split)

lemma lane_offered_live:
  "workers_ok W items closed \<Longrightarrow> live items closed l \<Longrightarrow> live items closed (lane_offered W e accepting l)"
  by (simp add: live_def lane_offered_spec)

lemma crossbar_resume_lanes:
  assumes "crossbar_resume W e route_mask accepting i d x = (r, x')"
  shows "length (xb_lanes x') = length (xb_lanes x)"
    "xb_running x' = xb_running x" "xb_capacity x' = xb_capacity x"
    "j < length (xb_lanes x) \<Longrightarrow> xb_lanes x' ! j =
      (if i \<le> j \<and> reached route_mask r j then lane_offered W e accepting (xb_lanes x ! j)
       else xb_lanes x ! j)"
proof -
  obtain ls where ls: "submit_loop W e route_mask accepting i d (drop i (xb_lanes x)) = (r, ls)"
    "x' = x\<lparr>xb_lanes := take i (xb_lanes x) @ ls\<rparr>"
    using assms by (auto simp: crossbar_resume_def split: prod.splits)
  note sub = submit_loop_lanes [OF ls(1)]
  show "length (xb_lanes x') = length (xb_lanes x)"
    "xb_running x' = xb_running x" "xb_capacity x' = xb_capacity x"
    using sub ls(2) by simp_all
  assume j: "j < length (xb_lanes x)"
  show "xb_lanes x' ! j =
      (if i \<le> j \<and> reached route_mask r j then lane_offered W e accepting (xb_lanes x ! j)
       else xb_lanes x ! j)"
  proof (cases "i \<le> j")
    case True
    then have "j - i < length (drop i (xb_lanes x))" using j by simp
    with sub True ls(2) j show ?thesis by (auto simp: nth_append min_def)
  qed (use ls(2) j in \<open>simp add: nth_append\<close>)
qed

text \<open>What a submission, new or resumed, does to every lane.\<close>

definition took ::
  "('q \<Rightarrow> event list) \<Rightarrow> ('q \<Rightarrow> bool) \<Rightarrow> bool \<Rightarrow> u64 \<Rightarrow> nat \<Rightarrow> submit_result \<Rightarrow> 'q crossbar \<Rightarrow> nat \<Rightarrow> bool" where
  "took items closed accepting route_mask i r x j \<longleftrightarrow>
     i \<le> j \<and> reached route_mask r j \<and> admits items closed accepting (xb_lanes x ! j)"

lemma crossbar_resume_spec:
  assumes "workers_ok W items closed" "crossbar_ok items closed x"
    "crossbar_resume W e route_mask accepting i d x = (r, x')"
  shows "j < length (xb_lanes x) \<Longrightarrow> queued items x' j =
      queued items x j @ (if took items closed accepting route_mask i r x j then [e] else [])"
    "map ln_route (xb_lanes x') = map ln_route (xb_lanes x)"
    "crossbar_ok items closed x'"
proof -
  note res = crossbar_resume_lanes [OF assms(3)]
  have ok: "lane_ok items (xb_lanes x ! j)" if "j < length (xb_lanes x)" for j
    using assms(2) that by (simp add: crossbar_ok_def)
  show "j < length (xb_lanes x) \<Longrightarrow> queued items x' j =
      queued items x j @ (if took items closed accepting route_mask i r x j then [e] else [])"
    using res(4) lane_offered_spec(1) [OF assms(1) ok] by (simp add: took_def)
  show "map ln_route (xb_lanes x') = map ln_route (xb_lanes x)"
    using res(1,4) by (auto intro: nth_equalityI)
  show "crossbar_ok items closed x'"
    unfolding crossbar_ok_def
  proof
    fix l'
    assume "l' \<in> set (xb_lanes x')"
    then obtain j where j: "j < length (xb_lanes x)" "l' = xb_lanes x' ! j"
      using res(1) by (auto simp: in_set_conv_nth)
    have "xb_lanes x ! j \<in> set (xb_lanes x)" using j(1) by simp
    with assms(2) have "if xb_running x then live items closed (xb_lanes x ! j)
        else ln_worker (xb_lanes x ! j) = NoThread"
      by (auto simp: crossbar_ok_def)
    with res(2,4) j lane_offered_spec(2) [OF assms(1) ok [OF j(1)]] lane_offered_live [OF assms(1)] ok
    show "lane_ok items l' \<and> (if xb_running x' then live items closed l' else ln_worker l' = NoThread)"
      by auto
  qed
qed

subsection \<open>Configuring and starting\<close>

definition crossbar_open :: "('q \<Rightarrow> bool) \<Rightarrow> 'q crossbar \<Rightarrow> bool" where
  "crossbar_open closed x \<longleftrightarrow> (\<forall>l \<in> set (xb_lanes x). \<not> lane_shut closed l)"

lemma new_lane_spec:
  assumes "workers_ok W items closed"
  shows "lane_ok items (new_lane W c r)" "lane_items items (new_lane W c r) = []"
    "\<not> lane_shut closed (new_lane W c r)" "ln_route (new_lane W c r) = r"
    "ln_worker (new_lane W c r) = NoThread" "live items closed (launch (new_lane W c r))"
  using assms queue_inv_new [OF assms, of c] workers_new_close [OF assms]
  by (simp_all add: new_lane_def lane_simps live_def launch_def
      event_queue_new_def)

lemma launch_simps [simp]:
  "ln_route (launch l) = ln_route l" "lane_items items (launch l) = lane_items items l"
  "lane_shut closed (launch l) = lane_shut closed l" "lane_ok items (launch l) = lane_ok items l"
  by (simp_all add: launch_def lane_simps)

lemma crossbar_ok_new [simp]: "crossbar_ok items closed (crossbar_new c)"
  "crossbar_open closed (crossbar_new c)" "\<not> xb_running (crossbar_new c)"
  by (simp_all add: crossbar_ok_def crossbar_open_def crossbar_new_def)

lemma crossbar_configure_spec:
  assumes "workers_ok W items closed" "crossbar_ok items closed x"
  shows "\<exists>d es x'. crossbar_configure P fs W sched routes c x = Some (es, x') \<and>
    crossbar_ok items closed x' \<and> crossbar_open closed x' \<and> map ln_route (xb_lanes x') = routes \<and>
    xb_running x' = xb_running x \<and> xb_capacity x' = max c 1 \<and>
    (\<forall>j < length routes. queued items x' j = []) \<and>
    produced P fs (xb_lanes x) d es \<and>
    (\<forall>j < length (xb_lanes x). d j = (if xb_running x then queued items x j else [])) \<and>
    (\<not> xb_running x \<longrightarrow> es = [])"
proof -
  note new = new_lane_spec [OF assms(1), of "max c 1"]
  show ?thesis
  proof (cases "xb_running x")
    case False
    then show ?thesis
      using new
      by (auto simp: crossbar_configure_def crossbar_ok_def crossbar_open_def comp_def Let_def
          intro!: exI [of _ "\<lambda>_. []"])
  next
    case True
    from stop_lanes_spec [OF assms, of P fs sched True] obtain d es x1 where
      st: "stop_lanes P fs W sched True x = Some (es, x1)" "stopped_as items True x d x1"
        "produced P fs (xb_lanes x) d es" by blast
    have "\<forall>j < length (xb_lanes x). d j = queued items x j"
      using st(2) True by (auto simp: stopped_as_def)
    with st True new show ?thesis
      by (auto simp: crossbar_configure_def crossbar_ok_def crossbar_open_def comp_def Let_def
          intro!: exI [of _ d])
  qed
qed

lemma crossbar_start_spec:
  assumes "crossbar_ok items closed x" "crossbar_open closed x"
  shows "crossbar_ok items closed (crossbar_start W x)" "crossbar_open closed (crossbar_start W x)"
    "xb_running (crossbar_start W x)" "xb_capacity (crossbar_start W x) = xb_capacity x"
    "map ln_route (xb_lanes (crossbar_start W x)) = map ln_route (xb_lanes x)"
    "j < length (xb_lanes x) \<Longrightarrow> queued items (crossbar_start W x) j = queued items x j"
proof -
  have same: "start_lane W c l = launch l" if "l \<in> set (xb_lanes x)" for c l
    using assms(1) that by (auto simp: crossbar_ok_def lane_ok_def start_lane_def Let_def)
  have "live items closed (launch l)" if "l \<in> set (xb_lanes x)" for l
    using assms that by (auto simp: crossbar_ok_def crossbar_open_def live_def)
      (simp_all add: launch_def)
  with same assms
  show "crossbar_ok items closed (crossbar_start W x)" "crossbar_open closed (crossbar_start W x)"
    "xb_running (crossbar_start W x)" "xb_capacity (crossbar_start W x) = xb_capacity x"
    "map ln_route (xb_lanes (crossbar_start W x)) = map ln_route (xb_lanes x)"
    "j < length (xb_lanes x) \<Longrightarrow> queued items (crossbar_start W x) j = queued items x j"
    by (auto simp: crossbar_start_def crossbar_ok_def crossbar_open_def)
qed

text \<open>
  A submission, seen by one lane: the event is appended exactly when the lane is among the
  first 64, selected by the mask, reached before any lane the caller waits at, and admits it (open,
  with room). What the other lanes hold makes no difference to it, unless the caller waits: then
  the lane it waits at blocks, is full, and the pipeline is accepting. The result reports whether
  some lane took the event.
\<close>

theorem crossbar_submit_per_lane:
  assumes "workers_ok W items closed" "crossbar_ok items closed x"
    "crossbar_submit W e route_mask accepting x = (r, x')" "j < length (xb_lanes x)"
  shows "(queued items x' j = queued items x j @
      (if j < 64 \<and> mask_has route_mask j \<and> admits items closed accepting (xb_lanes x ! j) \<and>
          (\<forall>k d. r = BlockedAt k d \<longrightarrow> j \<le> k) then [e] else [])) \<and>
    (\<forall>k d. r = BlockedAt k d \<longrightarrow>
       k < length (xb_lanes x) \<and> blocks items accepting (xb_lanes x ! k)) \<and>
    (\<forall>d. r = Submitted d \<longrightarrow>
       d = (\<exists>i < length (xb_lanes x). i < 64 \<and> mask_has route_mask i \<and>
              admits items closed accepting (xb_lanes x ! i))) \<and>
    crossbar_ok items closed x'"
proof -
  have res: "crossbar_resume W e route_mask accepting 0 False x = (r, x')"
    using assms(3) by (simp add: crossbar_submit_def)
  then obtain ls where loop: "submit_loop W e route_mask accepting 0 False (xb_lanes x) = (r, ls)"
    by (auto simp: crossbar_resume_def split: prod.splits)
  have ok: "lane_ok items (xb_lanes x ! i)" if "i < length (xb_lanes x)" for i
    using assms(2) that by (simp add: crossbar_ok_def)
  note spec = crossbar_resume_spec [OF assms(1,2) res]
  have "k < length (xb_lanes x) \<and> blocks items accepting (xb_lanes x ! k)" if "r = BlockedAt k d" for k d
    using submit_loop_blocked [of W e route_mask accepting 0 False "xb_lanes x" k d ls] loop that
      lane_offered_spec(5) [OF assms(1) ok] by auto
  moreover have "d = (\<exists>i < length (xb_lanes x). i < 64 \<and> mask_has route_mask i \<and>
      admits items closed accepting (xb_lanes x ! i))" if "r = Submitted d" for d
    using submit_loop_delivered [of W e route_mask accepting 0 False "xb_lanes x" d ls] loop that
      lane_offered_spec(4) [OF assms(1) ok] by auto
  moreover have "took items closed accepting route_mask 0 r x j \<longleftrightarrow> j < 64 \<and> mask_has route_mask j \<and>
      admits items closed accepting (xb_lanes x ! j) \<and> (\<forall>k d. r = BlockedAt k d \<longrightarrow> j \<le> k)"
    by (auto simp: took_def reached_def split: submit_result.splits)
  ultimately show ?thesis using spec(1) [OF assms(4)] spec(3) by simp
qed

definition plain_route :: route where
  "plain_route = block_when_full (send_to (Some 0) default_route)"

definition demo_crossbar :: "(event list \<times> bool) crossbar" where
  "demo_crossbar = crossbar_start list_workers
     \<lparr>xb_capacity = 2, xb_running = False, xb_lanes = [new_lane list_workers 2 plain_route]\<rparr>"

lemma demo_crossbar_ok: "crossbar_ok fst snd demo_crossbar" "xb_running demo_crossbar"
    "exclusive (xb_lanes demo_crossbar) 0 0" "queued fst demo_crossbar 0 = []"
    "map ln_route (xb_lanes demo_crossbar) = [plain_route]"
proof -
  let ?x = "\<lparr>xb_capacity = 2, xb_running = False, xb_lanes = [new_lane list_workers 2 plain_route]\<rparr>"
  note new = new_lane_spec [OF list_workers_ok, of 2 plain_route]
  then have "crossbar_ok fst snd ?x" "crossbar_open snd ?x"
    by (simp_all add: crossbar_ok_def crossbar_open_def)
  from crossbar_start_spec [OF this, where W = list_workers]
  show "crossbar_ok fst snd demo_crossbar" "xb_running demo_crossbar"
    "queued fst demo_crossbar 0 = []" "map ln_route (xb_lanes demo_crossbar) = [plain_route]"
    using new by (simp_all add: demo_crossbar_def)
  then show "exclusive (xb_lanes demo_crossbar) 0 0" by (auto simp: exclusive_def)
qed

lemmas demo_defs = demo_crossbar_def crossbar_start_def start_lane_def launch_def new_lane_def
  event_queue_new_def list_workers_def plain_route_def route_builder_defs crossbar_resume_def
  mask_has_def offer_def push_blocking_def reserve_slot_def work_at_def worker_step_def
  pop_blocking_def release_slot_def process_def

theorem crossbar_submit_per_lane_witness:
  "\<exists>r x'. crossbar_submit list_workers second_event 1 True demo_crossbar = (r, x') \<and>
     queued fst x' 0 = [second_event] \<and> crossbar_ok fst snd x'"
proof -
  obtain r x' where r: "crossbar_submit list_workers second_event 1 True demo_crossbar = (r, x')"
    by fastforce
  then have "\<exists>d. r = Submitted d"
    by (auto simp: crossbar_submit_def demo_defs Let_def)
  moreover have "admits fst snd True (xb_lanes demo_crossbar ! 0)" "mask_has 1 0"
    by (simp_all add: demo_defs Let_def admits_def)
  moreover have "0 < length (xb_lanes demo_crossbar)"
    using demo_crossbar_ok(3) by (simp add: exclusive_def)
  ultimately show ?thesis
    using crossbar_submit_per_lane [OF list_workers_ok demo_crossbar_ok(1) r, of 0] r demo_crossbar_ok(4)
    by auto
qed

theorem stopped_lane_drains_witness:
  "\<exists>rest l'. join_lane plain_platform info_store list_workers
       (signal_stop list_workers True (xb_lanes demo_crossbar ! 0)) = Some (rest, l') \<and>
     ln_worker l' = NoThread"
proof -
  have "xb_lanes demo_crossbar ! 0 \<in> set (xb_lanes demo_crossbar)"
    using demo_crossbar_ok(3) by (simp add: exclusive_def)
  then have "lane_ok fst (xb_lanes demo_crossbar ! 0)"
    "ln_worker (xb_lanes demo_crossbar ! 0) \<in> {NoThread, Popping}"
    using demo_crossbar_ok(1,2) by (auto simp: crossbar_ok_def live_def)
  from stopped_lane_drains [OF list_workers_ok this, of plain_platform info_store True]
  show ?thesis by blast
qed

end
