(* ===== verification/Crossbar_Runs.thy ===== *)
theory Crossbar_Runs
  imports Crossbar
begin

section \<open>Running the crossbar\<close>

text \<open>
  Any history of a crossbar between two lifecycle calls: submissions (new, or resumed by a caller
  that waited), steps of the workers and flushes, in any order. The history also records, per lane,
  which events the lane took; the theorems relate that to what reached the sinks.
\<close>

datatype xb_action =
    XSubmit event u64 bool nat bool \<comment> \<open>event, route mask, accepting, first lane, delivered so far\<close>
  | XWork nat
  | XFlush

definition newly_queued ::
  "('q \<Rightarrow> event list) \<Rightarrow> 'q crossbar \<Rightarrow> 'q crossbar \<Rightarrow> nat \<Rightarrow> event list" where
  "newly_queued items x x' j = drop (length (queued items x j)) (queued items x' j)"

primrec xb_step ::
  "platform \<Rightarrow> filter_store \<Rightarrow> 'q workers \<Rightarrow> xb_action \<Rightarrow> 'q crossbar \<Rightarrow> effect list \<times> 'q crossbar" where
  "xb_step P fs W (XSubmit e m accepting i d) x = ([], snd (crossbar_resume W e m accepting i d x))"
| "xb_step P fs W (XWork i) x =
     (case work_at P fs W i (xb_lanes x) of (es, lanes) \<Rightarrow> (es, x\<lparr>xb_lanes := lanes\<rparr>))"
| "xb_step P fs W XFlush x = (crossbar_flush x, x)"

fun xb_run ::
  "platform \<Rightarrow> filter_store \<Rightarrow> 'q workers \<Rightarrow> ('q \<Rightarrow> event list) \<Rightarrow> xb_action list \<Rightarrow> 'q crossbar \<Rightarrow>
   effect list \<times> (nat \<Rightarrow> event list) \<times> 'q crossbar" where
  "xb_run P fs W items [] x = ([], (\<lambda>_. []), x)"
| "xb_run P fs W items (a # as) x =
     (case xb_step P fs W a x of (es, x1) \<Rightarrow>
        case xb_run P fs W items as x1 of (es', taken, x2) \<Rightarrow>
          (es @ es', (\<lambda>j. newly_queued items x x1 j @ taken j), x2))"

text \<open>What one action or a whole history conserves.\<close>

definition conserves ::
  "platform \<Rightarrow> filter_store \<Rightarrow> ('q \<Rightarrow> event list) \<Rightarrow> ('q \<Rightarrow> bool) \<Rightarrow> 'q crossbar \<Rightarrow>
   (nat \<Rightarrow> event list) \<Rightarrow> (nat \<Rightarrow> event list) \<Rightarrow> effect list \<Rightarrow> 'q crossbar \<Rightarrow> bool" where
  "conserves P fs items closed x taken d es x' \<longleftrightarrow>
     crossbar_ok items closed x' \<and> xb_running x' = xb_running x \<and>
     map ln_route (xb_lanes x') = map ln_route (xb_lanes x) \<and>
     produced P fs (xb_lanes x) d es \<and>
     (\<forall>j < length (xb_lanes x). queued items x j @ taken j = d j @ queued items x' j)"

lemma flush_bytes: "sink_bytes s (crossbar_flush x) = []"
proof -
  have "sink_bytes s (concat (map (\<lambda>l. case rt_sink (ln_route l) of Some s \<Rightarrow> [SinkFlush s] | None \<Rightarrow> []) ls))
      = []" for ls
    by (induction ls) (auto split: option.split)
  then show ?thesis by (simp add: crossbar_flush_def)
qed

lemma handled_idle: "ln_worker l = NoThread \<Longrightarrow> worker_step P fs W l = ([], l)"
  by (simp add: worker_step_def)

lemma work_at_idle:
  "\<forall>l \<in> set lanes. ln_worker l = NoThread \<Longrightarrow> work_at P fs W i lanes = ([], lanes)"
  by (simp add: work_at_def handled_idle)

lemma xb_step_conserves:
  assumes "workers_ok W items closed" "crossbar_ok items closed x" "xb_step P fs W a x = (es, x1)"
  shows "\<exists>d. conserves P fs items closed x (newly_queued items x x1) d es x1"
proof (cases a)
  case (XSubmit e m accepting i d)
  obtain r x' where r: "crossbar_resume W e m accepting i d x = (r, x')" by fastforce
  from crossbar_resume_spec [OF assms(1,2) r] crossbar_resume_lanes [OF r] XSubmit assms(3) r
  have "conserves P fs items closed x (newly_queued items x x1) (\<lambda>_. []) es x1"
    by (auto simp: conserves_def newly_queued_def)
  then show ?thesis by blast
next
  case (XWork i)
  obtain es' lanes where w: "work_at P fs W i (xb_lanes x) = (es', lanes)" by fastforce
  have ok: "\<forall>l \<in> set (xb_lanes x). lane_ok items l" using assms(2) by (simp add: crossbar_ok_def)
  have x1: "es = es'" "x1 = x\<lparr>xb_lanes := lanes\<rparr>" using XWork w assms(3) by simp_all
  from work_at_evolves [OF assms(1) ok w] obtain d where
    d: "all_evolve items closed (xb_lanes x) d lanes" "produced P fs (xb_lanes x) d es'" by blast
  have lane: "evolves items closed (xb_lanes x ! j) (d j) (lanes ! j)" if "j < length (xb_lanes x)" for j
    using d(1) that by (simp add: all_evolve_def)
  have len: "length lanes = length (xb_lanes x)" using d(1) by (simp add: all_evolve_def)
  have "crossbar_ok items closed x1"
    unfolding crossbar_ok_def
  proof
    fix l
    assume "l \<in> set (xb_lanes x1)"
    then obtain j where j: "j < length (xb_lanes x)" "l = lanes ! j"
      using len x1(2) by (auto simp: in_set_conv_nth)
    moreover have "xb_lanes x ! j \<in> set (xb_lanes x)" using j(1) by simp
    ultimately show "lane_ok items l \<and>
        (if xb_running x1 then live items closed l else ln_worker l = NoThread)"
      using lane [OF j(1)] assms(2) x1(2) by (auto simp: crossbar_ok_def evolves_def)
  qed
  moreover have "queued items x j @ newly_queued items x x1 j = d j @ queued items x1 j"
    if "j < length (xb_lanes x)" for j
    using lane [OF that] x1(2) by (simp add: evolves_def newly_queued_def)
  ultimately have "conserves P fs items closed x (newly_queued items x x1) d es x1"
    using d x1 all_evolve_routes [OF d(1)] by (auto simp: conserves_def)
  then show ?thesis by blast
next
  case XFlush
  with assms have "conserves P fs items closed x (newly_queued items x x1) (\<lambda>_. []) es x1"
    by (auto simp: conserves_def newly_queued_def produced_def flush_bytes)
  then show ?thesis by blast
qed

lemma conserves_trans:
  assumes "conserves P fs items closed x t1 d1 es1 x1" "conserves P fs items closed x1 t2 d2 es2 x2"
  shows "conserves P fs items closed x (\<lambda>j. t1 j @ t2 j) (\<lambda>j. d1 j @ d2 j) (es1 @ es2) x2"
proof -
  have routes: "map ln_route (xb_lanes x1) = map ln_route (xb_lanes x)"
    using assms(1) by (simp add: conserves_def)
  then have len: "length (xb_lanes x1) = length (xb_lanes x)" by (rule map_eq_imp_length_eq)
  have "produced P fs (xb_lanes x) (\<lambda>j. d1 j @ d2 j) (es1 @ es2)"
    using assms produced_cong [OF routes] by (intro produced_append) (auto simp: conserves_def)
  moreover have "queued items x j @ t1 j @ t2 j = (d1 j @ d2 j) @ queued items x2 j"
    if "j < length (xb_lanes x)" for j
  proof -
    have "queued items x j @ t1 j = d1 j @ queued items x1 j"
      "queued items x1 j @ t2 j = d2 j @ queued items x2 j"
      using assms that len by (simp_all add: conserves_def)
    then show ?thesis by (metis append.assoc)
  qed
  ultimately show ?thesis using assms routes by (auto simp: conserves_def)
qed

lemma xb_run_conserves:
  assumes "workers_ok W items closed"
  shows "crossbar_ok items closed x \<Longrightarrow> xb_run P fs W items as x = (es, taken, x') \<Longrightarrow>
    \<exists>d. conserves P fs items closed x taken d es x'"
proof (induction "as" arbitrary: x es taken)
  case Nil
  then have "conserves P fs items closed x taken (\<lambda>_. []) es x'" by (auto simp: conserves_def)
  then show ?case by blast
next
  case (Cons a as)
  obtain es1 x1 where st: "xb_step P fs W a x = (es1, x1)" by fastforce
  obtain es2 taken2 where r: "xb_run P fs W items as x1 = (es2, taken2, x')" "es = es1 @ es2"
    "taken = (\<lambda>j. newly_queued items x x1 j @ taken2 j)"
    using Cons.prems(2) st by (auto split: prod.splits)
  from xb_step_conserves [OF assms Cons.prems(1) st] obtain d1 where
    d1: "conserves P fs items closed x (newly_queued items x x1) d1 es1 x1" by blast
  then have "crossbar_ok items closed x1" by (simp add: conserves_def)
  from Cons.IH [OF this r(1)] obtain d2 where "conserves P fs items closed x1 taken2 d2 es2 x'" by blast
  from conserves_trans [OF d1 this] r(2,3) show ?case by blast
qed

lemma close_after_run:
  assumes "workers_ok W items closed" "crossbar_ok items closed x" "xb_running x"
    "xb_run P fs W items acts x = (es, taken, x1)"
  shows "\<exists>es2 x2. crossbar_close P fs W sched x1 = Some (es2, x2) \<and>
    \<not> xb_running x2 \<and> (\<forall>l \<in> set (xb_lanes x2). ln_worker l = NoThread \<and> lane_items items l = []) \<and>
    (\<forall>s j. exclusive (xb_lanes x) s j \<longrightarrow>
       sink_bytes s (es @ es2) =
       sink_bytes s (concat (map (process P fs (ln_route (xb_lanes x ! j))) (queued items x j @ taken j))))"
proof -
  from xb_run_conserves [OF assms(1,2,4)] obtain d1 where
    d1: "conserves P fs items closed x taken d1 es x1" by blast
  then have ok1: "crossbar_ok items closed x1" and run1: "xb_running x1"
    and routes: "map ln_route (xb_lanes x1) = map ln_route (xb_lanes x)"
    using assms(3) by (simp_all add: conserves_def)
  then have len: "length (xb_lanes x1) = length (xb_lanes x)" using map_eq_imp_length_eq by blast
  from stop_lanes_spec [OF assms(1) ok1, of P fs sched True] obtain d2 es2 x2 where
    d2: "stop_lanes P fs W sched True x1 = Some (es2, x2)" "stopped_as items True x1 d2 x2"
      "produced P fs (xb_lanes x1) d2 es2" by blast
  have len2: "length (xb_lanes x2) = length (xb_lanes x1)"
    using d2(2) map_eq_imp_length_eq by (auto simp: stopped_as_def)
  have empty: "queued items x2 j = []" "d2 j = queued items x1 j" if "j < length (xb_lanes x)" for j
    using d2(2) that len run1 by (auto simp: stopped_as_def)
  have all: "produced P fs (xb_lanes x) (\<lambda>j. d1 j @ d2 j) (es @ es2)"
    using d1 produced_cong [OF routes d2(3)] by (intro produced_append) (simp_all add: conserves_def)
  have "d1 j @ d2 j = queued items x j @ taken j" if "j < length (xb_lanes x)" for j
    using d1 empty(2) that by (simp add: conserves_def)
  with all have "sink_bytes s (es @ es2) =
      sink_bytes s (handled P fs (xb_lanes x ! j) (queued items x j @ taken j))"
    if "exclusive (xb_lanes x) s j" for s j
    using that unfolding produced_def exclusive_def by metis
  moreover have "\<forall>l \<in> set (xb_lanes x2). ln_worker l = NoThread \<and> lane_items items l = []"
    using d2(2) empty(1) len len2 by (auto simp: stopped_as_def in_set_conv_nth)
  ultimately show ?thesis using d2(1,2)
    by (auto simp: crossbar_close_def handled_def stopped_as_def)
qed

text \<open>What a lane makes of its events, as bytes for its sink.\<close>

lemma processed_bytes:
  assumes "rt_sink r = Some s"
  shows "sink_bytes s (concat (map (process P fs r) es)) =
    concat (map (render_with P (rt_renderer r)) (filter (filters_pass fs (rt_filters r)) es))"
  using assms by (induction es) (auto simp: process_def route_output_def Let_def)

text \<open>
  C15. Graceful shutdown loses nothing: after any history of a running crossbar (submissions to
  any lanes, worker steps in any order), \<open>close\<close> returns, whatever the workers' schedule, with all
  queues empty and all workers joined, and a sink that only one lane writes to has received exactly
  what that lane makes of all events it took, in the order it took them, none twice.
\<close>

theorem crossbar_close_delivers_all:
  assumes "workers_ok W items closed" "crossbar_ok items closed x" "xb_running x"
    "xb_run P fs W items acts x = (es, taken, x1)"
  shows "\<exists>es2 x2. crossbar_close P fs W sched x1 = Some (es2, x2) \<and>
    \<not> xb_running x2 \<and> (\<forall>l \<in> set (xb_lanes x2). ln_worker l = NoThread \<and> lane_items items l = []) \<and>
    (\<forall>s j. exclusive (xb_lanes x) s j \<longrightarrow>
       sink_bytes s (es @ es2) =
       sink_bytes s (concat (map (process P fs (ln_route (xb_lanes x ! j))) (queued items x j @ taken j))))"
  by (rule close_after_run [OF assms])

theorem crossbar_close_delivers_all_witness:
  "\<exists>es taken x1 es2 x2. xb_run plain_platform info_store list_workers fst
      [XSubmit second_event 1 True 0 False, XWork 0] demo_crossbar = (es, taken, x1) \<and>
    crossbar_close plain_platform info_store list_workers [0] x1 = Some (es2, x2) \<and>
    sink_bytes 0 (es @ es2) = ''up'' @ [newline]"
proof -
  obtain es taken x1 where r: "xb_run plain_platform info_store list_workers fst
      [XSubmit second_event 1 True 0 False, XWork 0] demo_crossbar = (es, taken, x1)"
    by (metis prod_cases3)
  then have "taken 0 = [second_event]"
    by (auto simp: demo_defs Let_def newly_queued_def lane_items_def)
  moreover have "ln_route (xb_lanes demo_crossbar ! 0) = plain_route"
    using demo_crossbar_ok(5) by auto
  moreover have "sink_bytes 0 (process plain_platform info_store plain_route second_event)
      = ''up'' @ [newline]"
    by (simp add: process_def plain_route_def route_builder_defs route_output_def render_with_def
        default_render_def second_event_def default_event_def)
  ultimately show ?thesis
    using crossbar_close_delivers_all [OF list_workers_ok demo_crossbar_ok(1,2) r, of "[0]"] r
      demo_crossbar_ok(3,4)
    by fastforce
qed

text \<open>
  Immediate shutdown is bounded and orderly: after any history, \<open>request_stop\<close> returns with
  all queues fresh and all workers joined; events may be given up, but a sink that only one lane
  writes to has received the output of a first part of the events that lane took: nothing out of
  order, nothing after a lost event.
\<close>

theorem crossbar_request_stop_prefix:
  assumes "workers_ok W items closed" "crossbar_ok items closed x"
    "xb_run P fs W items acts x = (es, taken, x1)"
  shows "\<exists>es2 x2. crossbar_request_stop P fs W sched x1 = Some (es2, x2) \<and>
    \<not> xb_running x2 \<and> (\<forall>l \<in> set (xb_lanes x2). ln_worker l = NoThread \<and> lane_items items l = []) \<and>
    (\<forall>s j. exclusive (xb_lanes x) s j \<longrightarrow>
       (\<exists>first rest. queued items x j @ taken j = first @ rest \<and>
         sink_bytes s (es @ es2) = sink_bytes s (concat (map (process P fs (ln_route (xb_lanes x ! j))) first))))"
proof -
  from xb_run_conserves [OF assms] obtain d1 where
    d1: "conserves P fs items closed x taken d1 es x1" by blast
  then have ok1: "crossbar_ok items closed x1"
    and routes: "map ln_route (xb_lanes x1) = map ln_route (xb_lanes x)"
    by (simp_all add: conserves_def)
  then have len: "length (xb_lanes x1) = length (xb_lanes x)" using map_eq_imp_length_eq by blast
  from stop_lanes_spec [OF assms(1) ok1, of P fs sched False] obtain d2 es2 x2 where
    d2: "stop_lanes P fs W sched False x1 = Some (es2, x2)" "stopped_as items False x1 d2 x2"
      "produced P fs (xb_lanes x1) d2 es2" by blast
  have len2: "length (xb_lanes x2) = length (xb_lanes x1)"
    using d2(2) map_eq_imp_length_eq by (auto simp: stopped_as_def)
  have lane: "queued items x2 j = []" "\<exists>rest. queued items x1 j = d2 j @ rest"
    if "j < length (xb_lanes x)" for j
    using d2(2) that len by (auto simp: stopped_as_def)
  have all: "produced P fs (xb_lanes x) (\<lambda>j. d1 j @ d2 j) (es @ es2)"
    using d1 produced_cong [OF routes d2(3)] by (intro produced_append) (simp_all add: conserves_def)
  have "\<exists>rest. queued items x j @ taken j = (d1 j @ d2 j) @ rest" if "j < length (xb_lanes x)" for j
    using d1 lane(2) [OF that] that by (auto simp: conserves_def)
  with all have "\<exists>first rest. queued items x j @ taken j = first @ rest \<and>
      sink_bytes s (es @ es2) = sink_bytes s (handled P fs (xb_lanes x ! j) first)"
    if "exclusive (xb_lanes x) s j" for s j
    using that unfolding produced_def exclusive_def by metis
  moreover have "\<forall>l \<in> set (xb_lanes x2). ln_worker l = NoThread \<and> lane_items items l = []"
    using d2(2) lane(1) len len2 by (auto simp: stopped_as_def in_set_conv_nth)
  ultimately show ?thesis using d2(1,2)
    by (auto simp: crossbar_request_stop_def handled_def stopped_as_def)
qed

theorem crossbar_request_stop_prefix_witness:
  "\<exists>es taken x1 es2 x2. xb_run plain_platform info_store list_workers fst
      [XSubmit second_event 1 True 0 False] demo_crossbar = (es, taken, x1) \<and>
    crossbar_request_stop plain_platform info_store list_workers [] x1 = Some (es2, x2) \<and>
    \<not> xb_running x2"
proof -
  obtain es taken x1 where r: "xb_run plain_platform info_store list_workers fst
      [XSubmit second_event 1 True 0 False] demo_crossbar = (es, taken, x1)"
    by (metis prod_cases3)
  from crossbar_request_stop_prefix [OF list_workers_ok demo_crossbar_ok(1) r, of "[]"] r
  show ?thesis by blast
qed

end
