(* ===== verification/Pipeline.thy ===== *)
theory Pipeline
  imports Crossbar_Runs
begin

section \<open>The pipeline\<close>

text \<open>
  \<open>class Pipeline\<close> (\<open>include/sylog/logger.hpp\<close>, \<open>src/logger.cpp\<close>): the state of \<open>Pipeline::Impl\<close> and
  every operation on it, one call after the other. The crossbar is behind a pointer. Operations
  that stop workers take their schedule; those that could wait for a worker forever return an
  option. A submission that waits for room in a lane reports so (\<open>WaitingAt\<close>).
\<close>

record 'q pipeline =
  pl_cfg :: config
  pl_global_filters :: "filter_ptr list"
  pl_routes :: "route list"
  pl_running :: bool
  pl_accepting :: bool
  pl_crossbar :: "'q crossbar option"
  pl_cache :: route_cache

definition initial_pipeline :: "'q pipeline" where
  "initial_pipeline =
     \<lparr>pl_cfg = default_config, pl_global_filters = [], pl_routes = [], pl_running = False,
      pl_accepting = True, pl_crossbar = Some (crossbar_new (cfg_queue_capacity default_config)),
      pl_cache = initial_cache\<rparr>"

subsection \<open>Lifecycle\<close>

text \<open>
  Assigning a new crossbar destroys the old one, whose destructor is \<open>request_stop\<close>; the new one
  is configured with the pipeline's routes.
\<close>

definition renew_crossbar ::
  "platform \<Rightarrow> filter_store \<Rightarrow> 'q workers \<Rightarrow> nat list \<Rightarrow> 'q pipeline \<Rightarrow> (effect list \<times> 'q pipeline) option" where
  "renew_crossbar P fs W sched p =
     (let capacity = cfg_queue_capacity (pl_cfg p)
      in do {
        es \<leftarrow> (case pl_crossbar p of
                 None \<Rightarrow> Some []
               | Some old \<Rightarrow> map_option fst (crossbar_request_stop P fs W sched old));
        r \<leftarrow> crossbar_configure P fs W [] (pl_routes p) capacity (crossbar_new capacity);
        Some (es @ fst r, p\<lparr>pl_crossbar := Some (snd r)\<rparr>)
      })"

definition configure ::
  "platform \<Rightarrow> filter_store \<Rightarrow> 'q workers \<Rightarrow> nat list \<Rightarrow> config \<Rightarrow> 'q pipeline \<Rightarrow>
   (effect list \<times> 'q pipeline) option" where
  "configure P fs W sched cfg p =
     (let p1 = p\<lparr>pl_cfg := cfg\<rparr>
      in if \<not> pl_running p1
         then do {
           r \<leftarrow> renew_crossbar P fs W sched p1;
           Some (fst r, (snd r)\<lparr>pl_accepting := True\<rparr>)
         }
         else Some ([], p1))"

definition add_global_filter :: "filter_ptr \<Rightarrow> 'q pipeline \<Rightarrow> 'q pipeline" where
  "add_global_filter f p = p\<lparr>pl_global_filters := pl_global_filters p @ [f]\<rparr>"

definition clear_global_filters :: "'q pipeline \<Rightarrow> 'q pipeline" where
  "clear_global_filters p = p\<lparr>pl_global_filters := []\<rparr>"

definition reconfigure_crossbar ::
  "platform \<Rightarrow> filter_store \<Rightarrow> 'q workers \<Rightarrow> nat list \<Rightarrow> route list \<Rightarrow> 'q pipeline \<Rightarrow>
   (effect list \<times> 'q pipeline) option" where
  "reconfigure_crossbar P fs W sched routes p =
     (case pl_crossbar p of
        None \<Rightarrow> Some ([], p)
      | Some x \<Rightarrow> do {
          r \<leftarrow> crossbar_configure P fs W sched routes (cfg_queue_capacity (pl_cfg p)) x;
          Some (fst r, p\<lparr>pl_crossbar := Some (snd r)\<rparr>)
        })"

definition add_route ::
  "platform \<Rightarrow> filter_store \<Rightarrow> 'q workers \<Rightarrow> nat list \<Rightarrow> route \<Rightarrow> 'q pipeline \<Rightarrow>
   (effect list \<times> 'q pipeline) option" where
  "add_route P fs W sched r p =
     (let p1 = p\<lparr>pl_routes := pl_routes p @ [r], pl_cache := invalidate_cache (pl_cache p)\<rparr>
      in reconfigure_crossbar P fs W sched (pl_routes p1) p1)"

definition clear_routes ::
  "platform \<Rightarrow> filter_store \<Rightarrow> 'q workers \<Rightarrow> nat list \<Rightarrow> 'q pipeline \<Rightarrow> (effect list \<times> 'q pipeline) option" where
  "clear_routes P fs W sched p =
     (let p1 = p\<lparr>pl_routes := [], pl_cache := invalidate_cache (pl_cache p)\<rparr>
      in reconfigure_crossbar P fs W sched [] p1)"

definition start :: "'q workers \<Rightarrow> 'q pipeline \<Rightarrow> 'q pipeline" where
  "start W p =
     (let p1 = p\<lparr>pl_accepting := True\<rparr>
      in if pl_running p1 then p1
         else
           let p2 = p1\<lparr>pl_running := True\<rparr>;
               x = (case pl_crossbar p2 of
                      None \<Rightarrow> crossbar_new (cfg_queue_capacity (pl_cfg p2))
                    | Some x \<Rightarrow> x)
           in p2\<lparr>pl_crossbar := Some (crossbar_start W x)\<rparr>)"

definition flush :: "'q pipeline \<Rightarrow> effect list" where
  "flush p = (case pl_crossbar p of Some x \<Rightarrow> crossbar_flush x | None \<Rightarrow> [])"

definition close ::
  "platform \<Rightarrow> filter_store \<Rightarrow> 'q workers \<Rightarrow> nat list \<Rightarrow> 'q pipeline \<Rightarrow> (effect list \<times> 'q pipeline) option" where
  "close P fs W sched p =
     (let p1 = p\<lparr>pl_accepting := False, pl_running := False\<rparr>
      in do {
        r \<leftarrow> (case pl_crossbar p1 of
                None \<Rightarrow> Some ([], p1)
              | Some x \<Rightarrow> map_option (\<lambda>(es, x'). (es, p1\<lparr>pl_crossbar := Some x'\<rparr>))
                            (crossbar_close P fs W sched x));
        r' \<leftarrow> renew_crossbar P fs W [] (snd r);
        Some (fst r @ flush (snd r) @ fst r', snd r')
      })"

definition request_stop ::
  "platform \<Rightarrow> filter_store \<Rightarrow> 'q workers \<Rightarrow> nat list \<Rightarrow> 'q pipeline \<Rightarrow> (effect list \<times> 'q pipeline) option" where
  "request_stop P fs W sched p =
     (let p1 = p\<lparr>pl_accepting := False, pl_running := False\<rparr>
      in do {
        r \<leftarrow> (case pl_crossbar p1 of
                None \<Rightarrow> Some ([], p1)
              | Some x \<Rightarrow> map_option (\<lambda>(es, x'). (es, p1\<lparr>pl_crossbar := Some x'\<rparr>))
                            (crossbar_request_stop P fs W sched x));
        r' \<leftarrow> renew_crossbar P fs W [] (snd r);
        Some (fst r @ flush (snd r) @ fst r', snd r')
      })"

subsection \<open>Submitting an event\<close>

fun dispatch_loop ::
  "platform \<Rightarrow> filter_store \<Rightarrow> event \<Rightarrow> u64 \<Rightarrow> nat \<Rightarrow> route list \<Rightarrow> effect list" where
  "dispatch_loop P fs e route_mask i [] = []"
| "dispatch_loop P fs e route_mask i (r # rs) =
     (if \<not> i < 64 then []
      else if \<not> mask_has route_mask i then dispatch_loop P fs e route_mask (Suc i) rs
      else if \<not> filters_pass fs (rt_filters r) e then dispatch_loop P fs e route_mask (Suc i) rs
      else route_output P r e @ dispatch_loop P fs e route_mask (Suc i) rs)"

definition dispatch_sync ::
  "platform \<Rightarrow> filter_store \<Rightarrow> event \<Rightarrow> u64 \<Rightarrow> 'q pipeline \<Rightarrow> effect list" where
  "dispatch_sync P fs e route_mask p = dispatch_loop P fs e route_mask 0 (pl_routes p)"

definition fallback_text :: "platform \<Rightarrow> event \<Rightarrow> string" where
  "fallback_text P e =
     ''[sylog:fallback] '' @ format_time (pf_local_tm P) (ev_timestamp e) @ '' '' @
     ev_severity_name e @ '': '' @ ev_message e @ [newline]"

definition emergency_fallback_write :: "string \<Rightarrow> effect list" where
  "emergency_fallback_write bytes = [StderrWrite bytes]"

definition async_mode :: "config \<Rightarrow> event \<Rightarrow> bool \<Rightarrow> bool" where
  "async_mode cfg e force_sync \<longleftrightarrow>
     cfg_async_by_default cfg \<and> \<not> force_sync \<and>
     \<not> (cfg_fatal_sync cfg \<and> ev_severity_priority e \<ge> sev_priority fatal_severity)"

datatype submit_state = Returned | WaitingAt nat bool u64

definition submit ::
  "platform \<Rightarrow> filter_store \<Rightarrow> 'q workers \<Rightarrow> event \<Rightarrow> bool \<Rightarrow> 'q pipeline \<Rightarrow>
   submit_state \<times> effect list \<times> 'q pipeline" where
  "submit P fs W e force_sync p =
     (case cached_route_mask fs (pl_routes p) (ev_endpoint e) (pl_cache p) of (ce, c) \<Rightarrow>
        let p1 = p\<lparr>pl_cache := c\<rparr>
        in if ce_route_mask ce = 0 then
             (Returned,
              (if ev_severity_priority e \<ge> sev_priority error_severity
               then emergency_fallback_write (fallback_text P e) else []), p1)
           else if \<not> filters_pass fs (pl_global_filters p1) e then (Returned, [], p1)
           else if \<not> async_mode (pl_cfg p1) e force_sync then
             (Returned, dispatch_sync P fs e (ce_route_mask ce) p1, p1)
           else
             (case pl_crossbar p1 of
                None \<Rightarrow> (Returned, dispatch_sync P fs e (ce_route_mask ce) p1, p1)
              | Some x \<Rightarrow>
                  if \<not> pl_accepting p1 then (Returned, dispatch_sync P fs e (ce_route_mask ce) p1, p1)
                  else
                    (case crossbar_submit W e (ce_route_mask ce) (pl_accepting p1) x of (r, x') \<Rightarrow>
                       (case r of
                          Submitted _ \<Rightarrow> Returned
                        | BlockedAt i d \<Rightarrow> WaitingAt i d (ce_route_mask ce),
                        [], p1\<lparr>pl_crossbar := Some x'\<rparr>))))"

text \<open>A submission that waited goes on where it was; a worker of the pipeline's crossbar steps.\<close>

definition resume_submit ::
  "'q workers \<Rightarrow> event \<Rightarrow> nat \<Rightarrow> bool \<Rightarrow> u64 \<Rightarrow> 'q pipeline \<Rightarrow> submit_state \<times> 'q pipeline" where
  "resume_submit W e i d route_mask p =
     (case pl_crossbar p of
        None \<Rightarrow> (Returned, p)
      | Some x \<Rightarrow>
          (case crossbar_resume W e route_mask (pl_accepting p) i d x of (r, x') \<Rightarrow>
             (case r of Submitted _ \<Rightarrow> Returned | BlockedAt i' d' \<Rightarrow> WaitingAt i' d' route_mask,
              p\<lparr>pl_crossbar := Some x'\<rparr>)))"

definition work ::
  "platform \<Rightarrow> filter_store \<Rightarrow> 'q workers \<Rightarrow> nat \<Rightarrow> 'q pipeline \<Rightarrow> effect list \<times> 'q pipeline" where
  "work P fs W i p =
     (case pl_crossbar p of
        None \<Rightarrow> ([], p)
      | Some x \<Rightarrow>
          (case work_at P fs W i (xb_lanes x) of (es, lanes) \<Rightarrow>
             (es, p\<lparr>pl_crossbar := Some (x\<lparr>xb_lanes := lanes\<rparr>)\<rparr>)))"

subsection \<open>The invariant of the pipeline\<close>

definition crossbar_in_sync ::
  "('q \<Rightarrow> event list) \<Rightarrow> ('q \<Rightarrow> bool) \<Rightarrow> 'q pipeline \<Rightarrow> 'q crossbar \<Rightarrow> bool" where
  "crossbar_in_sync items closed p x \<longleftrightarrow>
     crossbar_ok items closed x \<and> crossbar_open closed x \<and>
     map ln_route (xb_lanes x) = pl_routes p \<and> xb_running x = pl_running p"

definition pipeline_ok ::
  "filter_store \<Rightarrow> ('q \<Rightarrow> event list) \<Rightarrow> ('q \<Rightarrow> bool) \<Rightarrow> 'q pipeline \<Rightarrow> bool" where
  "pipeline_ok fs items closed p \<longleftrightarrow>
     (\<exists>x. pl_crossbar p = Some x \<and> crossbar_in_sync items closed p x) \<and>
     (pl_running p \<longrightarrow> pl_accepting p) \<and> cache_coherent fs (pl_routes p) (pl_cache p)"

lemmas [pipeline_simps] = pipeline_ok_def crossbar_in_sync_def

lemma pipeline_okE:
  assumes "pipeline_ok fs items closed p"
  obtains x where "pl_crossbar p = Some x" "crossbar_ok items closed x" "crossbar_open closed x"
    "map ln_route (xb_lanes x) = pl_routes p" "xb_running x = pl_running p"
    "pl_running p \<longrightarrow> pl_accepting p" "cache_coherent fs (pl_routes p) (pl_cache p)"
  using assms by (auto simp: pipeline_simps)

lemma initial_pipeline_ok [simp]: "pipeline_ok fs items closed initial_pipeline"
  by (simp add: pipeline_ok_def initial_pipeline_def crossbar_in_sync_def) (simp add: crossbar_new_def)


text \<open>A crossbar without workers stops at once, with no output.\<close>

lemma run_workers_idle:
  "\<forall>l \<in> set lanes. ln_worker l = NoThread \<Longrightarrow> run_workers P fs W sched lanes = ([], lanes)"
  by (induction sched) (simp_all add: work_at_idle)

lemma join_lanes_idle:
  "\<forall>l \<in> set lanes. ln_worker l = NoThread \<Longrightarrow> join_lanes P fs W lanes = Some ([], lanes)"
  by (induction lanes) (simp_all add: join_lane_unfold(1))

lemma stop_lanes_idle:
  assumes "\<forall>l \<in> set (xb_lanes x). ln_worker l = NoThread"
  shows "\<exists>x'. stop_lanes P fs W sched drain x = Some ([], x')"
proof -
  have idle: "\<forall>l \<in> set (map (signal_stop W drain) (xb_lanes x)). ln_worker l = NoThread"
    using assms by (simp add: signal_stop_def)
  show ?thesis
    by (simp add: stop_lanes_def run_workers_idle [OF idle] join_lanes_idle [OF idle])
qed

lemma renew_crossbar_spec:
  assumes "workers_ok W items closed" "pl_crossbar p = Some old" "\<not> pl_running p"
    "\<forall>l \<in> set (xb_lanes old). ln_worker l = NoThread"
  shows "\<exists>x. renew_crossbar P fs W sched p = Some ([], p\<lparr>pl_crossbar := Some x\<rparr>) \<and>
    crossbar_in_sync items closed p x \<and> (\<forall>j < length (pl_routes p). queued items x j = [])"
proof -
  obtain x' where old: "crossbar_request_stop P fs W sched old = Some ([], x')"
    using stop_lanes_idle [OF assms(4), of P fs W sched False]
    by (auto simp: crossbar_request_stop_def)
  let ?c = "cfg_queue_capacity (pl_cfg p)"
  from crossbar_configure_spec [OF assms(1) crossbar_ok_new(1), of P fs "[]" "pl_routes p" ?c ?c]
  obtain es x where
    "crossbar_configure P fs W [] (pl_routes p) ?c (crossbar_new ?c) = Some (es, x)" "es = []"
    "crossbar_ok items closed x" "crossbar_open closed x" "map ln_route (xb_lanes x) = pl_routes p"
    "\<not> xb_running x" "\<forall>j < length (pl_routes p). queued items x j = []"
    by (auto simp: crossbar_ok_new(3))
  then show ?thesis using old assms(2,3)
    by (intro exI [of _ x]) (simp add: renew_crossbar_def crossbar_in_sync_def)
qed

definition stop_pipeline ::
  "platform \<Rightarrow> filter_store \<Rightarrow> 'q workers \<Rightarrow> nat list \<Rightarrow> bool \<Rightarrow> 'q pipeline \<Rightarrow>
   (effect list \<times> 'q pipeline) option" where
  "stop_pipeline P fs W sched drain p =
     (if drain then close P fs W sched p else request_stop P fs W sched p)"

lemma flush_simps [simp]:
  "flush (p\<lparr>pl_accepting := a\<rparr>) = flush p" "flush (p\<lparr>pl_running := a\<rparr>) = flush p"
  "flush (p\<lparr>pl_crossbar := Some x\<rparr>) = crossbar_flush x"
  by (simp_all add: flush_def)

lemma stop_pipeline_spec:
  assumes "workers_ok W items closed" "pipeline_ok fs items closed p" "pl_crossbar p = Some x"
  shows "\<exists>d es x' y. let p' = p\<lparr>pl_accepting := False, pl_running := False, pl_crossbar := Some y\<rparr> in
    stop_pipeline P fs W sched drain p = Some (es @ crossbar_flush x', p') \<and>
    stop_lanes P fs W sched drain x = Some (es, x') \<and> stopped_as items drain x d x' \<and>
    produced P fs (xb_lanes x) d es \<and>
    crossbar_in_sync items closed p' y \<and> pipeline_ok fs items closed p' \<and>
    (\<forall>j < length (pl_routes p). queued items y j = [])"
proof -
  have ok: "crossbar_ok items closed x" and coh: "cache_coherent fs (pl_routes p) (pl_cache p)"
    using assms(2,3) by (auto simp: pipeline_simps)
  from stop_lanes_spec [OF assms(1) ok, of P fs sched drain] obtain d es x' where
    st: "stop_lanes P fs W sched drain x = Some (es, x')" "stopped_as items drain x d x'"
      "produced P fs (xb_lanes x) d es" by blast
  let ?p1 = "p\<lparr>pl_accepting := False, pl_running := False, pl_crossbar := Some x'\<rparr>"
  have "pl_crossbar ?p1 = Some x'" "\<not> pl_running ?p1" "\<forall>l \<in> set (xb_lanes x'). ln_worker l = NoThread"
    using st(2) by (simp_all add: stopped_as_def)
  from renew_crossbar_spec [OF assms(1) this, of P fs "[]"] obtain y where
    y: "renew_crossbar P fs W [] ?p1 = Some ([], ?p1\<lparr>pl_crossbar := Some y\<rparr>)"
      "crossbar_in_sync items closed ?p1 y" "\<forall>j < length (pl_routes p). queued items y j = []"
    by auto
  let ?p' = "p\<lparr>pl_accepting := False, pl_running := False, pl_crossbar := Some y\<rparr>"
  have "stop_pipeline P fs W sched drain p = Some (es @ crossbar_flush x', ?p')"
    using st(1) y(1) assms(3)
    by (cases drain) (simp_all add: stop_pipeline_def close_def request_stop_def crossbar_close_def
        crossbar_request_stop_def)
  moreover have "crossbar_in_sync items closed ?p' y"
    using y(2) by (simp add: crossbar_in_sync_def)
  moreover from this coh have "pipeline_ok fs items closed ?p'" by (simp add: pipeline_ok_def)
  ultimately show ?thesis using st y(3) by (auto simp: Let_def)
qed

lemma reconfigure_spec:
  assumes "workers_ok W items closed" "pl_crossbar p = Some x" "crossbar_ok items closed x"
    "xb_running x = pl_running p" "pl_running p \<longrightarrow> pl_accepting p" "rc_dirty (pl_cache p)"
    "routes = pl_routes p"
  shows "\<exists>d es y. reconfigure_crossbar P fs W sched routes p = Some (es, p\<lparr>pl_crossbar := Some y\<rparr>) \<and>
    pipeline_ok fs items closed (p\<lparr>pl_crossbar := Some y\<rparr>) \<and> crossbar_in_sync items closed p y \<and>
    produced P fs (xb_lanes x) d es \<and>
    (\<forall>j < length routes. queued items y j = []) \<and>
    (\<forall>j < length (xb_lanes x). d j = (if pl_running p then queued items x j else [])) \<and>
    (\<not> pl_running p \<longrightarrow> es = [])"
proof -
  let ?c = "cfg_queue_capacity (pl_cfg p)"
  from crossbar_configure_spec [OF assms(1,3), of P fs sched routes ?c] obtain d es y where
    "crossbar_configure P fs W sched routes ?c x = Some (es, y)" "crossbar_ok items closed y"
    "crossbar_open closed y" "map ln_route (xb_lanes y) = routes" "xb_running y = xb_running x"
    "\<forall>j < length routes. queued items y j = []" "produced P fs (xb_lanes x) d es"
    "\<forall>j < length (xb_lanes x). d j = (if xb_running x then queued items x j else [])"
    "\<not> xb_running x \<longrightarrow> es = []" by blast
  with assms(2,4-7) show ?thesis
    by (intro exI [of _ d] exI [of _ es] exI [of _ y])
      (simp add: reconfigure_crossbar_def pipeline_simps cache_coherent_def)
qed

lemma cached_route_mask_ok:
  assumes "pipeline_ok fs items closed p"
    "cached_route_mask fs (pl_routes p) ep (pl_cache p) = (ce, c)"
  shows "ce = compute_cache_entry fs (pl_routes p) ep" "pipeline_ok fs items closed (p\<lparr>pl_cache := c\<rparr>)"
proof -
  have coh: "cache_coherent fs (pl_routes p) (pl_cache p)" using assms(1) by (simp add: pipeline_ok_def)
  show "ce = compute_cache_entry fs (pl_routes p) ep" "pipeline_ok fs items closed (p\<lparr>pl_cache := c\<rparr>)"
    using cached_route_mask_coherent [OF coh, of ep] assms
    by (auto simp: pipeline_simps)
qed

lemma resume_open:
  assumes "workers_ok W items closed" "crossbar_ok items closed x" "crossbar_open closed x"
    "crossbar_resume W e route_mask accepting i d x = (r, x')"
  shows "crossbar_open closed x'"
proof -
  note res = crossbar_resume_lanes [OF assms(4)]
  show ?thesis
    unfolding crossbar_open_def
  proof
    fix l
    assume "l \<in> set (xb_lanes x')"
    then obtain j where j: "j < length (xb_lanes x)" "l = xb_lanes x' ! j"
      using res(1) by (auto simp: in_set_conv_nth)
    moreover have "xb_lanes x ! j \<in> set (xb_lanes x)" using j(1) by simp
    ultimately show "\<not> lane_shut closed l"
      using res(4) [of j] lane_offered_spec(3) [OF assms(1)] assms(2,3)
      by (auto simp: crossbar_ok_def crossbar_open_def)
  qed
qed

lemma submitted_ok:
  assumes "workers_ok W items closed" "pipeline_ok fs items closed p" "pl_crossbar p = Some x"
    "crossbar_resume W e route_mask accepting i d x = (r, x')"
  shows "pipeline_ok fs items closed (p\<lparr>pl_crossbar := Some x'\<rparr>)"
proof -
  have x: "crossbar_ok items closed x" "crossbar_open closed x"
    using assms(2,3) by (auto simp: pipeline_simps)
  from crossbar_resume_spec [OF assms(1) x(1) assms(4)] crossbar_resume_lanes [OF assms(4)]
    resume_open [OF assms(1) x assms(4)] assms(2,3)
  show ?thesis by (auto simp: pipeline_simps)
qed

lemma submit_ok:
  assumes "workers_ok W items closed" "pipeline_ok fs items closed p"
    "submit P fs W e force p = (r, es, p')"
  shows "pipeline_ok fs items closed p'"
proof -
  obtain ce c where c: "cached_route_mask fs (pl_routes p) (ev_endpoint e) (pl_cache p) = (ce, c)"
    by fastforce
  note ok1 = cached_route_mask_ok(2) [OF assms(2) c]
  from assms(2) obtain x where x: "pl_crossbar p = Some x" by (rule pipeline_okE)
  obtain r' x' where s: "crossbar_submit W e (ce_route_mask ce) (pl_accepting p) x = (r', x')"
    by fastforce
  then have "pipeline_ok fs items closed (p\<lparr>pl_cache := c, pl_crossbar := Some x'\<rparr>)"
    using submitted_ok [OF assms(1) ok1, of x] x by (simp add: crossbar_submit_def)
  then show ?thesis using assms(3) c x s ok1
    by (auto simp: submit_def Let_def split: if_splits)
qed

subsection \<open>The API as a transition system\<close>

datatype pl_op =
    OpConfigure config
  | OpAddGlobalFilter filter_ptr
  | OpClearGlobalFilters
  | OpAddRoute route
  | OpClearRoutes
  | OpStart
  | OpClosePipeline
  | OpRequestStop
  | OpFlush
  | OpCachedMinPriority string
  | OpSubmit event bool
  | OpResume event nat bool u64 \<comment> \<open>a submission that waited, its crossbar still in place\<close>
  | OpWork nat

primrec pl_step ::
  "platform \<Rightarrow> filter_store \<Rightarrow> 'q workers \<Rightarrow> nat list \<Rightarrow> pl_op \<Rightarrow> 'q pipeline \<Rightarrow>
   (effect list \<times> 'q pipeline) option" where
  "pl_step P fs W sched (OpConfigure cfg) p = configure P fs W sched cfg p"
| "pl_step P fs W sched (OpAddGlobalFilter f) p = Some ([], add_global_filter f p)"
| "pl_step P fs W sched OpClearGlobalFilters p = Some ([], clear_global_filters p)"
| "pl_step P fs W sched (OpAddRoute r) p = add_route P fs W sched r p"
| "pl_step P fs W sched OpClearRoutes p = clear_routes P fs W sched p"
| "pl_step P fs W sched OpStart p = Some ([], start W p)"
| "pl_step P fs W sched OpClosePipeline p = close P fs W sched p"
| "pl_step P fs W sched OpRequestStop p = request_stop P fs W sched p"
| "pl_step P fs W sched OpFlush p = Some (flush p, p)"
| "pl_step P fs W sched (OpCachedMinPriority ep) p =
     Some ([], p\<lparr>pl_cache := snd (cached_min_priority fs (pl_routes p) ep (pl_cache p))\<rparr>)"
| "pl_step P fs W sched (OpSubmit e force_sync) p = Some (snd (submit P fs W e force_sync p))"
| "pl_step P fs W sched (OpResume e i d m) p = Some ([], snd (resume_submit W e i d m p))"
| "pl_step P fs W sched (OpWork i) p = Some (work P fs W i p)"

definition pl_trans :: "platform \<Rightarrow> filter_store \<Rightarrow> 'q workers \<Rightarrow> 'q pipeline \<Rightarrow> 'q pipeline \<Rightarrow> bool" where
  "pl_trans P fs W p p' \<longleftrightarrow> (\<exists>sched oper es. pl_step P fs W sched oper p = Some (es, p'))"

lemma configure_ok:
  assumes "workers_ok W items closed" "pipeline_ok fs items closed p"
  shows "\<exists>p'. configure P fs W sched cfg p = Some ([], p') \<and> pipeline_ok fs items closed p'"
proof -
  obtain x where x: "pl_crossbar p = Some x" "crossbar_ok items closed x" "crossbar_open closed x"
    "map ln_route (xb_lanes x) = pl_routes p" "xb_running x = pl_running p"
    "pl_running p \<longrightarrow> pl_accepting p" "cache_coherent fs (pl_routes p) (pl_cache p)"
    using assms(2) by (rule pipeline_okE)
  show ?thesis
  proof (cases "pl_running p")
    case True
    with x show ?thesis by (simp add: configure_def pipeline_simps)
  next
    case False
    then have "\<forall>l \<in> set (xb_lanes x). ln_worker l = NoThread"
      using x(2,5) by (auto simp: crossbar_ok_def)
    with renew_crossbar_spec [OF assms(1), of "p\<lparr>pl_cfg := cfg\<rparr>" x P fs sched] x False
    show ?thesis by (auto simp: configure_def pipeline_simps)
  qed
qed

lemma routes_change_ok:
  assumes "workers_ok W items closed" "pipeline_ok fs items closed p"
  shows "\<exists>es p'. reconfigure_crossbar P fs W sched routes
      (p\<lparr>pl_routes := routes, pl_cache := invalidate_cache (pl_cache p)\<rparr>) = Some (es, p') \<and>
    pipeline_ok fs items closed p'"
proof -
  obtain x where x: "pl_crossbar p = Some x" "crossbar_ok items closed x"
    "xb_running x = pl_running p" "pl_running p \<longrightarrow> pl_accepting p"
    using assms(2) by (rule pipeline_okE)
  let ?p1 = "p\<lparr>pl_routes := routes, pl_cache := invalidate_cache (pl_cache p)\<rparr>"
  have "rc_dirty (pl_cache ?p1)" by (simp add: invalidate_cache_def)
  with reconfigure_spec [OF assms(1), of ?p1 x routes P fs sched] x show ?thesis by auto
qed

lemma start_ok:
  assumes "pipeline_ok fs items closed p"
  shows "pipeline_ok fs items closed (start W p)" "pl_running (start W p)" "pl_accepting (start W p)"
    "pl_routes (start W p) = pl_routes p"
proof -
  obtain x where x: "pl_crossbar p = Some x" "crossbar_ok items closed x" "crossbar_open closed x"
    "map ln_route (xb_lanes x) = pl_routes p" "xb_running x = pl_running p"
    "cache_coherent fs (pl_routes p) (pl_cache p)"
    using assms by (rule pipeline_okE)
  from crossbar_start_spec(1-5) [OF x(2,3), of W] x
  show "pipeline_ok fs items closed (start W p)" "pl_running (start W p)" "pl_accepting (start W p)"
    "pl_routes (start W p) = pl_routes p"
    by (auto simp: start_def Let_def pipeline_simps)
qed

lemma work_ok:
  assumes "workers_ok W items closed" "pipeline_ok fs items closed p"
  shows "pipeline_ok fs items closed (snd (work P fs W i p))"
proof -
  obtain x where x: "pl_crossbar p = Some x" "crossbar_ok items closed x" "crossbar_open closed x"
    using assms(2) by (rule pipeline_okE)
  obtain es lanes where w: "work_at P fs W i (xb_lanes x) = (es, lanes)" by fastforce
  let ?x' = "x\<lparr>xb_lanes := lanes\<rparr>"
  have st: "xb_step P fs W (XWork i) x = (es, ?x')" using w by simp
  from xb_step_conserves [OF assms(1) x(2) st] have
    ok: "crossbar_ok items closed ?x'" "map ln_route lanes = map ln_route (xb_lanes x)"
    by (auto simp: conserves_def)
  have "crossbar_open closed ?x'"
  proof (cases "xb_running x")
    case True
    with ok(1) show ?thesis by (auto simp: crossbar_ok_def crossbar_open_def live_def)
  next
    case False
    then have "\<forall>l \<in> set (xb_lanes x). ln_worker l = NoThread"
      using x(2) by (simp add: crossbar_ok_def)
    from work_at_idle [OF this, of P fs W i] w x(3) show ?thesis by (simp add: crossbar_open_def)
  qed
  with ok x assms(2) w show ?thesis
    by (auto simp: work_def pipeline_simps)
qed

lemma pl_step_ok:
  assumes "workers_ok W items closed" "pipeline_ok fs items closed p"
  shows "\<exists>es p'. pl_step P fs W sched oper p = Some (es, p') \<and> pipeline_ok fs items closed p'"
proof (cases oper)
  case (OpConfigure cfg)
  with configure_ok [OF assms, of P sched cfg] show ?thesis by auto
next
  case (OpAddRoute r)
  with routes_change_ok [OF assms, of P sched "pl_routes p @ [r]"] show ?thesis
    by (simp add: add_route_def Let_def)
next
  case OpClearRoutes
  with routes_change_ok [OF assms, of P sched "[]"] show ?thesis
    by (simp add: clear_routes_def Let_def)
next
  case OpClosePipeline
  obtain x where x: "pl_crossbar p = Some x" using assms(2) by (rule pipeline_okE)
  from stop_pipeline_spec [OF assms x, of P sched True] OpClosePipeline show ?thesis
    by (auto simp: stop_pipeline_def Let_def)
next
  case OpRequestStop
  obtain x where x: "pl_crossbar p = Some x" using assms(2) by (rule pipeline_okE)
  from stop_pipeline_spec [OF assms x, of P sched False] OpRequestStop show ?thesis
    by (auto simp: stop_pipeline_def Let_def)
next
  case (OpCachedMinPriority ep)
  obtain ce c where "cached_route_mask fs (pl_routes p) ep (pl_cache p) = (ce, c)" by fastforce
  with cached_route_mask_ok(2) [OF assms(2) this] OpCachedMinPriority show ?thesis
    by (simp add: cached_min_priority_def)
next
  case (OpSubmit e f)
  obtain r es p' where "submit P fs W e f p = (r, es, p')" by (metis prod_cases3)
  with submit_ok [OF assms this] OpSubmit show ?thesis by simp
next
  case (OpResume e i d m)
  obtain x where x: "pl_crossbar p = Some x" using assms(2) by (rule pipeline_okE)
  obtain r x' where "crossbar_resume W e m (pl_accepting p) i d x = (r, x')" by fastforce
  with submitted_ok [OF assms x this] OpResume x show ?thesis by (simp add: resume_submit_def)
next
  case (OpWork i)
  with work_ok [OF assms, of P i] show ?thesis by (cases "work P fs W i p") simp
qed (use assms(2) start_ok(1) [OF assms(2), of W] in
    \<open>auto simp: add_global_filter_def clear_global_filters_def pipeline_simps\<close>)

interpretation api: invariant_system "\<lambda>p. p = initial_pipeline" "pl_trans P fs W"
    "\<lambda>p. workers_ok W items closed \<longrightarrow> pipeline_ok fs items closed p" for P fs W items closed
proof unfold_locales
  fix p q
  assume inv: "workers_ok W items closed \<longrightarrow> pipeline_ok fs items closed p"
    and st: "pl_trans P fs W p q"
  from st obtain sched oper es where "pl_step P fs W sched oper p = Some (es, q)"
    by (auto simp: pl_trans_def)
  with inv pl_step_ok show "workers_ok W items closed \<longrightarrow> pipeline_ok fs items closed q"
    by (metis option.inject prod.inject)
qed simp



end
