(* ===== verification/Logger.thy ===== *)
theory Logger
  imports Pipeline
begin

section \<open>The logger\<close>

text \<open>
  \<open>class Logger\<close> of \<open>include/sylog/logger.hpp\<close> over the pipeline: \<open>enabled\<close>, \<open>log_at\<close> and
  \<open>log_fields_at\<close>, and the variants that supply a source location themselves. A severity type is
  its record; the clock, the thread identity and the formatted message are arguments. The theorems
  compare what a call produces with an abstract dispatcher: every route among the first 64 whose
  filters pass the event writes its rendering, in the order of the routes.
\<close>

record logger =
  lgr_endpoint :: string

definition enabled ::
  "filter_store \<Rightarrow> logger \<Rightarrow> severity \<Rightarrow> 'q pipeline \<Rightarrow> bool \<times> 'q pipeline" where
  "enabled fs lgr sev p =
     (case cached_min_priority fs (pl_routes p) (lgr_endpoint lgr) (pl_cache p) of (m, c) \<Rightarrow>
        (sev_priority sev \<ge> m, p\<lparr>pl_cache := c\<rparr>))"

text \<open>
  The flush follows the submission: while the call still waits for room, it has not happened.
\<close>

definition submit_and_flush ::
  "platform \<Rightarrow> filter_store \<Rightarrow> 'q workers \<Rightarrow> severity \<Rightarrow> event \<Rightarrow> 'q pipeline \<Rightarrow>
   submit_state \<times> effect list \<times> 'q pipeline" where
  "submit_and_flush P fs W sev e p =
     (case submit P fs W e (sev_force_sync sev) p of (r, es, p1) \<Rightarrow>
        (r, es @ (if r = Returned \<and> sev_flush_after sev then flush p1 else []), p1))"

definition log_at ::
  "platform \<Rightarrow> filter_store \<Rightarrow> 'q workers \<Rightarrow> logger \<Rightarrow> severity \<Rightarrow> source_location \<Rightarrow> int \<Rightarrow> nat \<Rightarrow>
   string \<Rightarrow> 'q pipeline \<Rightarrow> submit_state \<times> effect list \<times> 'q pipeline" where
  "log_at P fs W lgr sev loc now tid message p =
     (case enabled fs lgr sev p of (ok, p1) \<Rightarrow>
        if \<not> ok then (Returned, [], p1)
        else
          let e = make_event sev (lgr_endpoint lgr) now tid loc message
          in submit_and_flush P fs W sev e p1)"

definition log_fields_at ::
  "platform \<Rightarrow> filter_store \<Rightarrow> 'q workers \<Rightarrow> logger \<Rightarrow> severity \<Rightarrow> field list \<Rightarrow> source_location \<Rightarrow> int \<Rightarrow>
   nat \<Rightarrow> string \<Rightarrow> 'q pipeline \<Rightarrow> submit_state \<times> effect list \<times> 'q pipeline" where
  "log_fields_at P fs W lgr sev fds loc now tid message p =
     (case enabled fs lgr sev p of (ok, p1) \<Rightarrow>
        if \<not> ok then (Returned, [], p1)
        else
          let e = set_fields fds (make_event sev (lgr_endpoint lgr) now tid loc message)
          in submit_and_flush P fs W sev e p1)"

text \<open>
  \<open>log\<close>, \<open>log_fields\<close> and the methods named after the built-in severities evaluate
  \<open>source_location::current()\<close> in the header itself: \<open>here\<close> is the location of that line.
\<close>

definition log ::
  "platform \<Rightarrow> filter_store \<Rightarrow> 'q workers \<Rightarrow> source_location \<Rightarrow> logger \<Rightarrow> severity \<Rightarrow> int \<Rightarrow> nat \<Rightarrow>
   string \<Rightarrow> 'q pipeline \<Rightarrow> submit_state \<times> effect list \<times> 'q pipeline" where
  "log P fs W here lgr sev now tid message p = log_at P fs W lgr sev here now tid message p"

definition log_fields ::
  "platform \<Rightarrow> filter_store \<Rightarrow> 'q workers \<Rightarrow> source_location \<Rightarrow> logger \<Rightarrow> severity \<Rightarrow> field list \<Rightarrow> int \<Rightarrow>
   nat \<Rightarrow> string \<Rightarrow> 'q pipeline \<Rightarrow> submit_state \<times> effect list \<times> 'q pipeline" where
  "log_fields P fs W here lgr sev fds now tid message p =
     log_fields_at P fs W lgr sev fds here now tid message p"

definition log_builtin_at ::
  "platform \<Rightarrow> filter_store \<Rightarrow> 'q workers \<Rightarrow> logger \<Rightarrow> builtin \<Rightarrow> source_location \<Rightarrow> int \<Rightarrow> nat \<Rightarrow>
   string \<Rightarrow> 'q pipeline \<Rightarrow> submit_state \<times> effect list \<times> 'q pipeline" where
  "log_builtin_at P fs W lgr b loc now tid message p =
     log_at P fs W lgr (builtin_severity b) loc now tid message p"

definition log_builtin ::
  "platform \<Rightarrow> filter_store \<Rightarrow> 'q workers \<Rightarrow> source_location \<Rightarrow> logger \<Rightarrow> builtin \<Rightarrow> int \<Rightarrow> nat \<Rightarrow>
   string \<Rightarrow> 'q pipeline \<Rightarrow> submit_state \<times> effect list \<times> 'q pipeline" where
  "log_builtin P fs W here lgr b now tid message p =
     log P fs W here lgr (builtin_severity b) now tid message p"

subsection \<open>The abstract dispatcher\<close>

definition wanting :: "filter_store \<Rightarrow> route list \<Rightarrow> event \<Rightarrow> route list" where
  "wanting fs routes e = filter (\<lambda>r. filters_pass fs (rt_filters r) e) (take 64 routes)"

definition deliveries :: "platform \<Rightarrow> filter_store \<Rightarrow> route list \<Rightarrow> event \<Rightarrow> effect list" where
  "deliveries P fs routes e = concat (map (\<lambda>r. route_output P r e) (wanting fs routes e))"

lemma dispatch_loop_wanting:
  assumes "\<And>k. k < length rs \<Longrightarrow> i + k < 64 \<Longrightarrow> filters_pass fs (rt_filters (rs ! k)) e \<Longrightarrow>
    mask_has route_mask (i + k)"
  shows "dispatch_loop P fs e route_mask i rs =
    concat (map (\<lambda>r. route_output P r e)
      (filter (\<lambda>r. filters_pass fs (rt_filters r) e) (take (64 - i) rs)))"
  using assms
proof (induction rs arbitrary: i)
  case Nil
  then show ?case by simp
next
  case (Cons r rs)
  show ?case
  proof (cases "i < 64")
    case False
    then show ?thesis by simp
  next
    case True
    have "mask_has route_mask (Suc i + k)"
      if "k < length rs" "Suc i + k < 64" "filters_pass fs (rt_filters (rs ! k)) e" for k
      using Cons.prems [of "Suc k"] that by simp
    note IH = Cons.IH [OF this]
    have "64 - i = Suc (64 - Suc i)" using True by simp
    then have tk: "take (64 - i) (r # rs) = r # take (64 - Suc i) rs" by (simp only: take_Suc_Cons)
    show ?thesis
      using Cons.prems [of 0] True by (auto simp only: tk dispatch_loop.simps IH) auto
  qed
qed

lemma dispatch_sync_deliveries:
  "dispatch_sync P fs e (ce_route_mask (compute_cache_entry fs (pl_routes p) (ev_endpoint e))) p =
   deliveries P fs (pl_routes p) e"
proof -
  have "mask_has (ce_route_mask (compute_cache_entry fs (pl_routes p) (ev_endpoint e))) (0 + k)"
    if "k < length (pl_routes p)" "0 + k < 64" "filters_pass fs (rt_filters (pl_routes p ! k)) e" for k
    using that mask_prefilter.summary_complete [of fs "pl_routes p" k e]
    by (simp add: route_wants_def entry_selects_def)
  from dispatch_loop_wanting [OF this, where P = P]
  show ?thesis by (simp add: dispatch_sync_def deliveries_def wanting_def)
qed

lemma empty_mask_nobody_wants:
  assumes "ce_route_mask (compute_cache_entry fs routes (ev_endpoint e)) = 0"
  shows "wanting fs routes e = []"
proof -
  have "\<not> filters_pass fs (rt_filters r) e" if r: "r \<in> set (take 64 routes)" for r
  proof
    assume "filters_pass fs (rt_filters r) e"
    moreover obtain j where j: "j < length (take 64 routes)" "r = take 64 routes ! j"
      using r unfolding in_set_conv_nth by blast
    then have "j < 64" "j < length routes" "r = routes ! j" by simp_all
    ultimately have "entry_selects fs routes j e"
      by (intro mask_prefilter.summary_complete) (simp add: route_wants_def)
    with assms show False by (simp add: entry_selects_def mask_has_def)
  qed
  then show ?thesis by (simp add: wanting_def)
qed

lemma nobody_wants_no_deliveries: "wanting fs routes e = [] \<Longrightarrow> deliveries P fs routes e = []"
  by (simp add: deliveries_def)

subsection \<open>Synchronous logging\<close>

definition direct :: "event \<Rightarrow> bool \<Rightarrow> 'q pipeline \<Rightarrow> bool" where
  "direct e force_sync p \<longleftrightarrow> \<not> async_mode (pl_cfg p) e force_sync \<or> \<not> pl_accepting p"

definition nobody_selected :: "filter_store \<Rightarrow> 'q pipeline \<Rightarrow> string \<Rightarrow> bool" where
  "nobody_selected fs p ep \<longleftrightarrow> ce_route_mask (compute_cache_entry fs (pl_routes p) ep) = 0"

definition passed_deliveries :: "platform \<Rightarrow> filter_store \<Rightarrow> 'q pipeline \<Rightarrow> event \<Rightarrow> effect list" where
  "passed_deliveries P fs p e =
     (if filters_pass fs (pl_global_filters p) e then deliveries P fs (pl_routes p) e else [])"

lemma cache_only_cong [simp]:
  "passed_deliveries P fs (p\<lparr>pl_cache := c\<rparr>) e = passed_deliveries P fs p e"
  "nobody_selected fs (p\<lparr>pl_cache := c\<rparr>) ep = nobody_selected fs p ep"
  "direct e f (p\<lparr>pl_cache := c\<rparr>) = direct e f p"
  "flush (p\<lparr>pl_cache := c\<rparr>) = flush p"
  "dispatch_sync P fs e m (p\<lparr>pl_cache := c\<rparr>) = dispatch_sync P fs e m p"
  by (simp_all add: passed_deliveries_def nobody_selected_def direct_def flush_def dispatch_sync_def)

lemma nobody_selected_passed:
  "nobody_selected fs p (ev_endpoint e) \<Longrightarrow> passed_deliveries P fs p e = []"
  by (simp add: nobody_selected_def passed_deliveries_def empty_mask_nobody_wants
      nobody_wants_no_deliveries)

lemma submit_direct:
  assumes "cache_coherent fs (pl_routes p) (pl_cache p)" "direct e force_sync p"
  shows "\<exists>c. cache_coherent fs (pl_routes p) c \<and>
    submit P fs W e force_sync p =
      (Returned,
       passed_deliveries P fs p e @
         (if nobody_selected fs p (ev_endpoint e) \<and> 500 \<le> ev_severity_priority e
          then [StderrWrite (fallback_text P e)] else []),
       p\<lparr>pl_cache := c\<rparr>)"
proof -
  obtain ce c where c: "cached_route_mask fs (pl_routes p) (ev_endpoint e) (pl_cache p) = (ce, c)"
    by fastforce
  note coh = cached_route_mask_coherent [OF assms(1), of "ev_endpoint e"]
  from coh c have ce: "ce = compute_cache_entry fs (pl_routes p) (ev_endpoint e)"
    and coh': "cache_coherent fs (pl_routes p) c" by simp_all
  have "submit P fs W e force_sync p =
      (Returned,
       passed_deliveries P fs p e @
         (if nobody_selected fs p (ev_endpoint e) \<and> 500 \<le> ev_severity_priority e
          then [StderrWrite (fallback_text P e)] else []),
       p\<lparr>pl_cache := c\<rparr>)"
  proof (cases "nobody_selected fs p (ev_endpoint e)")
    case True
    then show ?thesis using nobody_selected_passed [OF True, of P] c ce
      by (simp add: submit_def nobody_selected_def emergency_fallback_write_def severity_defs)
  next
    case False
    then show ?thesis using c ce assms(2)
      by (auto simp: submit_def nobody_selected_def passed_deliveries_def direct_def Let_def
          dispatch_sync_deliveries split: option.split)
  qed
  with coh' show ?thesis by blast
qed

lemma enabled_spec:
  assumes "cache_coherent fs (pl_routes p) (pl_cache p)"
  shows "\<exists>c. cache_coherent fs (pl_routes p) c \<and>
    enabled fs lgr sev p =
      ((if nobody_selected fs p (lgr_endpoint lgr) then sev_priority sev = 65535
        else ce_min_priority (compute_cache_entry fs (pl_routes p) (lgr_endpoint lgr)) \<le> sev_priority sev),
       p\<lparr>pl_cache := c\<rparr>)"
proof -
  obtain ce c where c: "cached_route_mask fs (pl_routes p) (lgr_endpoint lgr) (pl_cache p) = (ce, c)"
    by fastforce
  note coh = cached_route_mask_coherent [OF assms, of "lgr_endpoint lgr"]
  have top: "65535 \<le> x \<longleftrightarrow> x = 65535" for x :: u16
  proof -
    have "unat x < 2 ^ LENGTH(16)" by (rule unsigned_less)
    then have "x \<le> 65535" by (simp add: word_le_nat_alt)
    then show ?thesis by auto
  qed
  show ?thesis
    using coh c by (intro exI [of _ c])
      (simp add: enabled_def cached_min_priority_def nobody_selected_def top)
qed

text \<open>A logger refuses a call early only when no route wants the event.\<close>

lemma not_enabled_selects_none:
  assumes "ev_endpoint e = lgr_endpoint lgr" "ev_severity_priority e = sev_priority sev"
    "100 \<le> sev_priority sev"
    "nobody_selected fs p (lgr_endpoint lgr) \<or>
      \<not> ce_min_priority (compute_cache_entry fs (pl_routes p) (lgr_endpoint lgr)) \<le> sev_priority sev"
    "j < length (pl_routes p)" "j < 64"
  shows "\<not> filters_pass fs (rt_filters (pl_routes p ! j)) e"
proof
  assume "filters_pass fs (rt_filters (pl_routes p ! j)) e"
  then have "route_wants fs (pl_routes p) j e" using assms(5,6) by (simp add: route_wants_def)
  then have "entry_selects fs (pl_routes p) j e" "entry_enables fs (pl_routes p) e"
    using mask_prefilter.summary_complete priority_prefilter.summary_complete assms(2,3)
    by fastforce+
  with assms(1,2,4) show False
    by (auto simp: entry_selects_def entry_enables_def nobody_selected_def mask_has_def)
qed

lemma not_enabled_nobody_wants:
  assumes "ev_endpoint e = lgr_endpoint lgr" "ev_severity_priority e = sev_priority sev"
    "100 \<le> sev_priority sev"
    "nobody_selected fs p (lgr_endpoint lgr) \<or>
      \<not> ce_min_priority (compute_cache_entry fs (pl_routes p) (lgr_endpoint lgr)) \<le> sev_priority sev"
  shows "passed_deliveries P fs p e = []"
proof -
  have "\<not> filters_pass fs (rt_filters r) e" if "r \<in> set (take 64 (pl_routes p))" for r
    using that not_enabled_selects_none [OF assms] by (auto simp: in_set_conv_nth)
  then have "wanting fs (pl_routes p) e = []" by (simp add: wanting_def)
  then show ?thesis by (simp add: passed_deliveries_def nobody_wants_no_deliveries)
qed

text \<open>What a logging call does when it is not queued, whatever event it makes.\<close>

lemma logging_call_direct:
  assumes "cache_coherent fs (pl_routes p) (pl_cache p)" "direct e (sev_force_sync sev) p"
    "ev_endpoint e = lgr_endpoint lgr" "ev_severity_priority e = sev_priority sev"
    "100 \<le> sev_priority sev" "sev_priority sev \<noteq> 65535"
  shows "\<exists>c fl. cache_coherent fs (pl_routes p) c \<and>
    (case enabled fs lgr sev p of (ok, p1) \<Rightarrow>
       if \<not> ok then (Returned, [], p1) else submit_and_flush P fs W sev e p1) =
      (Returned, passed_deliveries P fs p e @ fl, p\<lparr>pl_cache := c\<rparr>) \<and>
    (sev_flush_after sev \<and> passed_deliveries P fs p e \<noteq> [] \<longrightarrow> fl = flush p) \<and>
    (\<not> sev_flush_after sev \<longrightarrow> fl = []) \<and> fl \<in> {[], flush p}"
proof -
  from enabled_spec [OF assms(1), of lgr sev] obtain c1 where
    c1: "cache_coherent fs (pl_routes p) c1" and
    en: "enabled fs lgr sev p =
      ((if nobody_selected fs p (lgr_endpoint lgr) then sev_priority sev = 65535
        else ce_min_priority (compute_cache_entry fs (pl_routes p) (lgr_endpoint lgr)) \<le> sev_priority sev),
       p\<lparr>pl_cache := c1\<rparr>)" by blast
  have coh1: "cache_coherent fs (pl_routes (p\<lparr>pl_cache := c1\<rparr>)) (pl_cache (p\<lparr>pl_cache := c1\<rparr>))"
    using c1 by simp
  have dir1: "direct e (sev_force_sync sev) (p\<lparr>pl_cache := c1\<rparr>)" using assms(2) by simp
  from submit_direct [OF coh1 dir1, of P W] obtain c2 where
    c2: "cache_coherent fs (pl_routes p) c2" and
    sub: "submit P fs W e (sev_force_sync sev) (p\<lparr>pl_cache := c1\<rparr>) =
      (Returned,
       passed_deliveries P fs p e @
         (if nobody_selected fs p (ev_endpoint e) \<and> 500 \<le> ev_severity_priority e
          then [StderrWrite (fallback_text P e)] else []), p\<lparr>pl_cache := c2\<rparr>)" by auto
  show ?thesis
  proof (cases "nobody_selected fs p (lgr_endpoint lgr) \<or>
      \<not> ce_min_priority (compute_cache_entry fs (pl_routes p) (lgr_endpoint lgr)) \<le> sev_priority sev")
    case True
    then have "passed_deliveries P fs p e = []"
      by (intro not_enabled_nobody_wants [OF assms(3-5)]) auto
    with True en c1 assms(6) show ?thesis by (intro exI [of _ c1] exI [of _ "[]"]) auto
  next
    case False
    with en sub c2 assms(3) show ?thesis
      by (intro exI [of _ c2] exI [of _ "if sev_flush_after sev then flush p else []"])
        (simp add: submit_and_flush_def)
  qed
qed

lemma log_at_deliveries:
  assumes "cache_coherent fs (pl_routes p) (pl_cache p)" "100 \<le> sev_priority sev"
    "sev_priority sev \<noteq> 65535"
    "\<not> cfg_async_by_default (pl_cfg p) \<or> sev_force_sync sev \<or> \<not> pl_accepting p"
  shows "\<exists>c fl. log_at P fs W lgr sev loc now tid message p =
      (Returned,
       (if filters_pass fs (pl_global_filters p) (make_event sev (lgr_endpoint lgr) now tid loc message)
        then concat (map (\<lambda>r. route_output P r (make_event sev (lgr_endpoint lgr) now tid loc message))
          (filter (\<lambda>r. filters_pass fs (rt_filters r) (make_event sev (lgr_endpoint lgr) now tid loc message))
            (take 64 (pl_routes p))))
        else []) @ fl,
       p\<lparr>pl_cache := c\<rparr>) \<and>
    fl \<in> {[], flush p} \<and> (\<not> sev_flush_after sev \<longrightarrow> fl = []) \<and> cache_coherent fs (pl_routes p) c"
proof -
  let ?e = "make_event sev (lgr_endpoint lgr) now tid loc message"
  have "direct ?e (sev_force_sync sev) p" using assms(4) by (auto simp: direct_def async_mode_def)
  from logging_call_direct [OF assms(1) this _ _ assms(2,3), of lgr P W] obtain c fl where
    c: "cache_coherent fs (pl_routes p) c" "fl \<in> {[], flush p}" "\<not> sev_flush_after sev \<longrightarrow> fl = []"
      "(case enabled fs lgr sev p of (ok, p1) \<Rightarrow>
         if \<not> ok then (Returned, [], p1) else submit_and_flush P fs W sev ?e p1) =
        (Returned, passed_deliveries P fs p ?e @ fl, p\<lparr>pl_cache := c\<rparr>)"
    by auto
  from c(4) have "log_at P fs W lgr sev loc now tid message p =
      (Returned, passed_deliveries P fs p ?e @ fl, p\<lparr>pl_cache := c\<rparr>)"
    unfolding log_at_def Let_def .
  with c(1-3) show ?thesis
    unfolding passed_deliveries_def deliveries_def wanting_def by blast
qed


definition sync_pipeline :: "(event list \<times> bool) pipeline" where
  "sync_pipeline =
     initial_pipeline\<lparr>pl_cfg := synchronous, pl_routes := [info_route, plain_route],
       pl_crossbar := Some demo_crossbar\<rparr>"

lemma sync_pipeline_simps [simp]:
  "pl_routes sync_pipeline = [info_route, plain_route]" "pl_global_filters sync_pipeline = []"
  "pl_cache sync_pipeline = initial_cache" "pl_cfg sync_pipeline = synchronous"
  "pl_crossbar sync_pipeline = Some demo_crossbar" "pl_accepting sync_pipeline"
  by (simp_all add: sync_pipeline_def initial_pipeline_def)


text \<open>
  The emergency fallback is dead code behind the logger: when no route can take a logger's
  endpoint, \<open>submit\<close> would write an event of severity \<open>error\<close> or more to the standard error stream,
  but a logging call of the same event (any priority below 65535) is refused by \<open>enabled\<close> before it
  gets there and writes nothing. The routing document promises the fallback for such events.
\<close>

theorem logger_never_falls_back:
  assumes "cache_coherent fs (pl_routes p) (pl_cache p)"
    "ce_route_mask (compute_cache_entry fs (pl_routes p) (lgr_endpoint lgr)) = 0"
    "500 \<le> sev_priority sev" "sev_priority sev \<noteq> 65535"
  shows "(\<exists>c. log_at P fs W lgr sev loc now tid message p = (Returned, [], p\<lparr>pl_cache := c\<rparr>)) \<and>
    (\<exists>c. submit P fs W (make_event sev (lgr_endpoint lgr) now tid loc message) force_sync p =
      (Returned, [StderrWrite (fallback_text P (make_event sev (lgr_endpoint lgr) now tid loc message))],
       p\<lparr>pl_cache := c\<rparr>))"
proof -
  obtain ce c where c: "cached_route_mask fs (pl_routes p) (lgr_endpoint lgr) (pl_cache p) = (ce, c)"
    by fastforce
  with cached_route_mask_coherent(1) [OF assms(1), of "lgr_endpoint lgr"] assms(2)
  have "ce_route_mask ce = 0" by simp
  then have "submit P fs W (make_event sev (lgr_endpoint lgr) now tid loc message) force_sync p =
      (Returned, [StderrWrite (fallback_text P (make_event sev (lgr_endpoint lgr) now tid loc message))],
       p\<lparr>pl_cache := c\<rparr>)"
    using c assms(3) by (simp add: submit_def emergency_fallback_write_def severity_defs)
  moreover from enabled_spec [OF assms(1), of lgr sev] assms(2,4)
  have "\<exists>c. log_at P fs W lgr sev loc now tid message p = (Returned, [], p\<lparr>pl_cache := c\<rparr>)"
    by (auto simp: log_at_def nobody_selected_def)
  ultimately show ?thesis by blast
qed

theorem logger_never_falls_back_witness:
  "\<exists>c. log_at plain_platform info_store list_workers \<lparr>lgr_endpoint = ''ui''\<rparr> error_severity
     \<lparr>loc_file = [], loc_line = 0, loc_func = []\<rparr> 0 0 ''boom'' initial_pipeline
     = (Returned, [], (initial_pipeline :: (event list \<times> bool) pipeline)\<lparr>pl_cache := c\<rparr>)"
proof -
  let ?p = "initial_pipeline :: (event list \<times> bool) pipeline"
  have "cache_coherent info_store (pl_routes ?p) (pl_cache ?p)"
    by (simp add: initial_pipeline_def)
  moreover have "ce_route_mask (compute_cache_entry info_store (pl_routes ?p)
      (lgr_endpoint \<lparr>lgr_endpoint = ''ui''\<rparr>)) = 0"
    by (simp add: initial_pipeline_def compute_cache_entry_def default_cache_entry_def)
  ultimately show ?thesis
    using logger_never_falls_back [of info_store ?p "\<lparr>lgr_endpoint = ''ui''\<rparr>" error_severity]
    by (simp add: severity_defs)
qed

subsection \<open>Severities below trace\<close>

lemma scan_filters_no_severity:
  "\<forall>r m. fs r \<noteq> SeverityFilter m \<Longrightarrow> snd (scan_filters fs ep ps st) = snd st"
  by (induction fs ep ps st rule: scan_filters.induct) (auto split: filter.split)

lemma compute_loop_min_ge:
  assumes "\<forall>r m. fs r \<noteq> SeverityFilter m" "100 \<le> ce_min_priority out"
  shows "100 \<le> ce_min_priority (compute_loop fs ep i rs out)"
  using assms(2)
proof (induction rs arbitrary: i out)
  case (Cons r rs)
  have "snd (scan_route fs ep r) = 100"
    using scan_filters_no_severity [OF assms(1)] by (simp add: scan_route_def severity_defs)
  then have "100 \<le> ce_min_priority (visit_route i (scan_route fs ep r) out)"
    using Cons.prems by (cases "scan_route fs ep r") (simp add: visit_route_def Let_def)
  with Cons show ?case by simp
qed simp

text \<open>
  A severity below \<open>trace\<close> (the default of \<open>severity_base\<close> is 0) is never logged through
  routes that have no severity filter, although a route without any filter passes every event: the
  cache takes \<open>trace\<close> as the minimum of such a route, and \<open>enabled\<close> refuses the call.
\<close>

theorem low_severity_never_logged:
  assumes "cache_coherent fs (pl_routes p) (pl_cache p)" "\<forall>r m. fs r \<noteq> SeverityFilter m"
    "sev_priority sev < 100"
  shows "\<exists>c. log_at P fs W lgr sev loc now tid message p = (Returned, [], p\<lparr>pl_cache := c\<rparr>)"
proof -
  have "100 \<le> ce_min_priority (compute_cache_entry fs (pl_routes p) (lgr_endpoint lgr))"
    using compute_loop_min_ge [OF assms(2)]
    by (simp add: compute_cache_entry_def default_cache_entry_def)
  moreover from assms(3) have "sev_priority sev \<noteq> 65535" by auto
  ultimately show ?thesis using enabled_spec [OF assms(1), of lgr sev] assms(3)
    by (auto simp: log_at_def)
qed

theorem low_severity_never_logged_witness:
  "let p = sync_pipeline\<lparr>pl_routes := [plain_route]\<rparr>;
       fs = (\<lambda>_. EndpointFilter [] []);
       e = make_event severity_base ''net'' 0 0 \<lparr>loc_file = [], loc_line = 0, loc_func = []\<rparr> ''up''
   in filters_pass fs (rt_filters plain_route) e \<and>
      (\<exists>c. log_at plain_platform fs list_workers \<lparr>lgr_endpoint = ''net''\<rparr> severity_base
         \<lparr>loc_file = [], loc_line = 0, loc_func = []\<rparr> 0 0 ''up'' p = (Returned, [], p\<lparr>pl_cache := c\<rparr>))"
proof -
  have "cache_coherent (\<lambda>_. EndpointFilter [] []) (pl_routes (sync_pipeline\<lparr>pl_routes := [plain_route]\<rparr>))
      (pl_cache (sync_pipeline\<lparr>pl_routes := [plain_route]\<rparr>))" by simp
  from low_severity_never_logged [OF this, of severity_base] show ?thesis
    by (simp add: Let_def severity_defs plain_route_def route_builder_defs)
qed

subsection \<open>Asynchronous logging\<close>

definition queued_as ::
  "filter_store \<Rightarrow> ('q \<Rightarrow> event list) \<Rightarrow> ('q \<Rightarrow> bool) \<Rightarrow> 'q pipeline \<Rightarrow> event \<Rightarrow> submit_state \<Rightarrow>
   'q crossbar \<Rightarrow> 'q crossbar \<Rightarrow> bool" where
  "queued_as fs items closed p e r x x' \<longleftrightarrow>
     (\<forall>j < length (pl_routes p).
        queued items x' j \<in> {queued items x j, queued items x j @ [e]} \<and>
        (r = Returned \<and> j < 64 \<and> filters_pass fs (rt_filters (pl_routes p ! j)) e \<and>
           admits items closed True (xb_lanes x ! j) \<longrightarrow> queued items x' j = queued items x j @ [e]) \<and>
        (\<not> admits items closed True (xb_lanes x ! j) \<longrightarrow> queued items x' j = queued items x j)) \<and>
     (\<forall>k d m. r = WaitingAt k d m \<longrightarrow> k < length (pl_routes p) \<and> blocks items True (xb_lanes x ! k))"

lemma submit_queued:
  assumes "workers_ok W items closed" "pipeline_ok fs items closed p" "pl_crossbar p = Some x"
    "async_mode (pl_cfg p) e force_sync" "pl_accepting p" "filters_pass fs (pl_global_filters p) e"
    "\<not> nobody_selected fs p (ev_endpoint e)"
  shows "\<exists>r x' c. submit P fs W e force_sync p = (r, [], p\<lparr>pl_cache := c, pl_crossbar := Some x'\<rparr>) \<and>
    queued_as fs items closed p e r x x'"
proof -
  have x: "crossbar_ok items closed x" "map ln_route (xb_lanes x) = pl_routes p"
    and coh: "cache_coherent fs (pl_routes p) (pl_cache p)"
    using assms(2,3) by (auto simp: pipeline_simps)
  have len: "length (xb_lanes x) = length (pl_routes p)"
    using x(2) by (metis length_map)
  obtain ce c where c: "cached_route_mask fs (pl_routes p) (ev_endpoint e) (pl_cache p) = (ce, c)"
    by fastforce
  with cached_route_mask_coherent(1) [OF coh, of "ev_endpoint e"]
  have ce: "ce = compute_cache_entry fs (pl_routes p) (ev_endpoint e)" by simp
  obtain r x' where s: "crossbar_submit W e (ce_route_mask ce) True x = (r, x')" by fastforce
  then have res: "crossbar_resume W e (ce_route_mask ce) True 0 False x = (r, x')"
    by (simp add: crossbar_submit_def)
  let ?r = "case r of Submitted _ \<Rightarrow> Returned | BlockedAt i d \<Rightarrow> WaitingAt i d (ce_route_mask ce)"
  have sub: "submit P fs W e force_sync p = (?r, [], p\<lparr>pl_cache := c, pl_crossbar := Some x'\<rparr>)"
    using c s assms(3-7) ce
    by (simp add: submit_def nobody_selected_def split: submit_result.split)
  have sel: "mask_has (ce_route_mask ce) j"
    if "j < length (pl_routes p)" "j < 64" "filters_pass fs (rt_filters (pl_routes p ! j)) e" for j
    using that mask_prefilter.summary_complete [of fs "pl_routes p" j e] ce
    by (simp add: route_wants_def entry_selects_def)
  have q: "queued items x' j = queued items x j @
      (if took items closed True (ce_route_mask ce) 0 r x j then [e] else [])"
    if "j < length (pl_routes p)" for j
    using crossbar_resume_spec(1) [OF assms(1) x(1) res] that len by simp
  obtain ls where "submit_loop W e (ce_route_mask ce) True 0 False (xb_lanes x) = (r, ls)"
    using res by (auto simp: crossbar_resume_def split: prod.splits)
  then have blk: "k < length (pl_routes p) \<and> blocks items True (xb_lanes x ! k)" if "r = BlockedAt k d" for k d
    using submit_loop_blocked [of W e "ce_route_mask ce" True 0 False "xb_lanes x" k d ls] that len
      lane_offered_spec(5) [OF assms(1), of "xb_lanes x ! k"] x(1)
    by (auto simp: crossbar_ok_def)
  have "queued_as fs items closed p e ?r x x'"
    using q sel blk by (auto simp: queued_as_def took_def reached_def split: submit_result.splits)
  with sub show ?thesis by blast
qed

lemma log_at_queues:
  assumes "workers_ok W items closed" "pipeline_ok fs items closed p" "pl_crossbar p = Some x"
    "cfg_async_by_default (pl_cfg p)" "\<not> sev_force_sync sev" "sev_priority sev < 600"
    "100 \<le> sev_priority sev" "\<not> sev_flush_after sev" "pl_accepting p"
    "filters_pass fs (pl_global_filters p) (make_event sev (lgr_endpoint lgr) now tid loc message)"
  shows "\<exists>r x' c. log_at P fs W lgr sev loc now tid message p =
      (r, [], p\<lparr>pl_cache := c, pl_crossbar := Some x'\<rparr>) \<and>
    queued_as fs items closed p (make_event sev (lgr_endpoint lgr) now tid loc message) r x x'"
proof -
  let ?e = "make_event sev (lgr_endpoint lgr) now tid loc message"
  have coh: "cache_coherent fs (pl_routes p) (pl_cache p)" using assms(2) by (simp add: pipeline_ok_def)
  have top: "sev_priority sev \<noteq> 65535" using assms(6) by auto
  from enabled_spec [OF coh, of lgr sev] obtain c1 where
    c1: "cache_coherent fs (pl_routes p) c1" and
    en: "enabled fs lgr sev p =
      ((if nobody_selected fs p (lgr_endpoint lgr) then sev_priority sev = 65535
        else ce_min_priority (compute_cache_entry fs (pl_routes p) (lgr_endpoint lgr)) \<le> sev_priority sev),
       p\<lparr>pl_cache := c1\<rparr>)" by blast
  show ?thesis
  proof (cases "nobody_selected fs p (lgr_endpoint lgr) \<or>
      \<not> ce_min_priority (compute_cache_entry fs (pl_routes p) (lgr_endpoint lgr)) \<le> sev_priority sev")
    case True
    have none: "\<not> filters_pass fs (rt_filters (pl_routes p ! j)) ?e"
      if "j < length (pl_routes p)" "j < 64" for j
      using not_enabled_selects_none [OF _ _ assms(7) True that] by simp
    have "p\<lparr>pl_cache := c1\<rparr> = p\<lparr>pl_cache := c1, pl_crossbar := Some x\<rparr>" using assms(3) by simp
    moreover have "queued_as fs items closed p ?e Returned x x"
      using none by (auto simp: queued_as_def)
    ultimately show ?thesis using en True top
      by (intro exI [of _ Returned] exI [of _ x] exI [of _ c1]) (auto simp: log_at_def)
  next
    case False
    let ?p1 = "p\<lparr>pl_cache := c1\<rparr>"
    have "pipeline_ok fs items closed ?p1" "pl_crossbar ?p1 = Some x"
      using assms(2,3) c1 by (auto simp: pipeline_simps)
    moreover have "async_mode (pl_cfg ?p1) ?e (sev_force_sync sev)"
      using assms(4-6) by (simp add: async_mode_def severity_defs not_le)
    moreover have "\<not> nobody_selected fs ?p1 (ev_endpoint ?e)" using False by simp
    ultimately obtain r x' c where "submit P fs W ?e (sev_force_sync sev) ?p1 =
        (r, [], ?p1\<lparr>pl_cache := c, pl_crossbar := Some x'\<rparr>)" "queued_as fs items closed ?p1 ?e r x x'"
      using submit_queued [OF assms(1), of fs ?p1 x ?e "sev_force_sync sev" P] assms(9,10) by auto
    with en False assms(8) show ?thesis
      by (intro exI [of _ r] exI [of _ x'] exI [of _ c])
        (auto simp: log_at_def submit_and_flush_def queued_as_def Let_def)
  qed
qed

text \<open>
  Asynchronous logging queues and writes nothing itself: in a pipeline that accepts events,
  a call of a severity that is neither forced nor fatal leaves the sinks alone; when it returns,
  every route among the first 64 whose filters pass the event has it at the end of its queue,
  unless its lane had no room (or was closed); no lane gets it twice, and no queue changes
  otherwise. It only waits at a full lane that is configured to block.
\<close>

theorem log_at_queued:
  assumes "workers_ok W items closed" "pipeline_ok fs items closed p" "pl_crossbar p = Some x"
    "cfg_async_by_default (pl_cfg p)" "\<not> sev_force_sync sev" "sev_priority sev < 600"
    "100 \<le> sev_priority sev" "\<not> sev_flush_after sev" "pl_accepting p"
    "filters_pass fs (pl_global_filters p) (make_event sev (lgr_endpoint lgr) now tid loc message)"
  shows "\<exists>r x' c. log_at P fs W lgr sev loc now tid message p =
      (r, [], p\<lparr>pl_cache := c, pl_crossbar := Some x'\<rparr>) \<and>
    queued_as fs items closed p (make_event sev (lgr_endpoint lgr) now tid loc message) r x x'"
  by (rule log_at_queues [OF assms])

definition async_pipeline :: "(event list \<times> bool) pipeline" where
  "async_pipeline =
     initial_pipeline\<lparr>pl_routes := [plain_route], pl_running := True, pl_crossbar := Some demo_crossbar\<rparr>"

lemma async_pipeline_ok: "pipeline_ok info_store fst snd async_pipeline"
    "pl_crossbar async_pipeline = Some demo_crossbar" "pl_routes async_pipeline = [plain_route]"
    "pl_running async_pipeline"
proof -
  have "crossbar_open snd demo_crossbar"
    using demo_crossbar_ok(1,2) by (auto simp: crossbar_ok_def crossbar_open_def live_def)
  then show "pipeline_ok info_store fst snd async_pipeline"
    using demo_crossbar_ok(1,2,5)
    by (simp add: pipeline_simps async_pipeline_def initial_pipeline_def)
qed (simp_all add: async_pipeline_def)

theorem log_at_queued_witness:
  "\<exists>r x' c. log_at plain_platform info_store list_workers \<lparr>lgr_endpoint = ''net''\<rparr> warn_severity
       \<lparr>loc_file = [], loc_line = 0, loc_func = []\<rparr> 0 0 ''up'' async_pipeline =
     (r, [], async_pipeline\<lparr>pl_cache := c, pl_crossbar := Some x'\<rparr>)"
proof -
  have "cfg_async_by_default (pl_cfg async_pipeline)" "pl_accepting async_pipeline"
    "pl_global_filters async_pipeline = []"
    by (simp_all add: async_pipeline_def initial_pipeline_def default_config_def)
  with log_at_queued [OF list_workers_ok async_pipeline_ok(1,2), of warn_severity
      "\<lparr>lgr_endpoint = ''net''\<rparr>" 0 0 "\<lparr>loc_file = [], loc_line = 0, loc_func = []\<rparr>" "''up''"
      plain_platform]
  show ?thesis by (auto simp: severity_defs)
qed

end
