(* ===== verification/Lifecycle.thy ===== *)
theory Lifecycle
  imports Logger
begin

section \<open>Starting, closing and restarting\<close>

text \<open>
  What \<open>close\<close>, \<open>request_stop\<close> and changes of the routes do with the events that are queued, for a
  running pipeline and for one that was not started yet. The queued events of lane \<open>j\<close> are
  \<open>queued items x j\<close>, \<open>x\<close> being the pipeline's crossbar.
\<close>

definition quiet :: "effect \<Rightarrow> bool" where
  "quiet e \<longleftrightarrow> (case e of SinkFlush _ \<Rightarrow> True | _ \<Rightarrow> False)"

definition reset_pipeline :: "('q \<Rightarrow> event list) \<Rightarrow> 'q pipeline \<Rightarrow> 'q pipeline \<Rightarrow> bool" where
  "reset_pipeline items p p' \<longleftrightarrow>
     \<not> pl_running p' \<and> \<not> pl_accepting p' \<and> pl_routes p' = pl_routes p \<and> pl_cfg p' = pl_cfg p \<and>
     (\<exists>y. pl_crossbar p' = Some y \<and> map ln_route (xb_lanes y) = pl_routes p \<and>
        (\<forall>j < length (pl_routes p). queued items y j = []))"

lemma crossbar_flush_quiet: "list_all quiet (crossbar_flush x)"
  by (auto simp: crossbar_flush_def quiet_def list_all_iff split: option.splits)

lemma quiet_bytes: "list_all quiet es \<Longrightarrow> sink_bytes s es = []"
  by (induction es) (auto simp: quiet_def split: effect.splits)

lemma flush_covers:
  assumes "map ln_route (xb_lanes x) = routes" "r \<in> set routes" "rt_sink r = Some s"
  shows "SinkFlush s \<in> set (crossbar_flush x)"
proof -
  have "r \<in> set (map ln_route (xb_lanes x))" using assms(1,2) by simp
  then obtain l where "l \<in> set (xb_lanes x)" "ln_route l = r" by auto
  with assms(3) show ?thesis by (force simp: crossbar_flush_def)
qed

lemma stop_pipeline_bytes:
  assumes "workers_ok W items closed" "pipeline_ok fs items closed p" "pl_crossbar p = Some x"
  shows "\<exists>d es fl p'. stop_pipeline P fs W sched drain p = Some (es @ fl, p') \<and>
    reset_pipeline items p p' \<and> pipeline_ok fs items closed p' \<and> produced P fs (xb_lanes x) d es \<and>
    list_all quiet fl \<and> (\<forall>r \<in> set (pl_routes p). \<forall>s. rt_sink r = Some s \<longrightarrow> SinkFlush s \<in> set fl) \<and>
    (\<forall>j < length (pl_routes p). (\<exists>rest. queued items x j = d j @ rest) \<and>
       (pl_running p \<and> drain \<longrightarrow> d j = queued items x j)) \<and>
    (\<not> pl_running p \<longrightarrow> es = [])"
proof -
  from stop_pipeline_spec [OF assms, of P sched drain] obtain d es x' y where
    s: "stop_pipeline P fs W sched drain p = Some (es @ crossbar_flush x',
        p\<lparr>pl_accepting := False, pl_running := False, pl_crossbar := Some y\<rparr>)"
      "stop_lanes P fs W sched drain x = Some (es, x')" "stopped_as items drain x d x'"
      "produced P fs (xb_lanes x) d es"
      "crossbar_in_sync items closed
        (p\<lparr>pl_accepting := False, pl_running := False, pl_crossbar := Some y\<rparr>) y"
      "pipeline_ok fs items closed
        (p\<lparr>pl_accepting := False, pl_running := False, pl_crossbar := Some y\<rparr>)"
      "\<forall>j < length (pl_routes p). queued items y j = []"
    by (auto simp: Let_def)
  have x: "crossbar_ok items closed x" "map ln_route (xb_lanes x) = pl_routes p"
    "xb_running x = pl_running p"
    using assms(2,3) by (auto simp: pipeline_simps)
  then have len: "length (xb_lanes x) = length (pl_routes p)" by (metis length_map)
  have routes': "map ln_route (xb_lanes x') = pl_routes p" using s(3) x(2) by (simp add: stopped_as_def)
  have "es = []" if "\<not> pl_running p"
    using stop_lanes_idle [of x P fs W sched drain] s(2) x(1,3) that
    by (auto simp: crossbar_ok_def)
  moreover have "\<forall>j < length (pl_routes p). (\<exists>rest. queued items x j = d j @ rest) \<and>
      (pl_running p \<and> drain \<longrightarrow> d j = queued items x j)"
    using s(3) len x(3) by (auto simp: stopped_as_def)
  moreover have "reset_pipeline items p
      (p\<lparr>pl_accepting := False, pl_running := False, pl_crossbar := Some y\<rparr>)"
    using s(5,7) by (auto simp: reset_pipeline_def crossbar_in_sync_def)
  ultimately show ?thesis
    using s(1,4,6) crossbar_flush_quiet [of x'] flush_covers [OF routes']
    by (intro exI [of _ d] exI [of _ es] exI [of _ "crossbar_flush x'"]
        exI [of _ "p\<lparr>pl_accepting := False, pl_running := False, pl_crossbar := Some y\<rparr>"]) auto
qed

lemma closing_delivers:
  assumes "workers_ok W items closed" "pipeline_ok fs items closed p" "pl_crossbar p = Some x"
    "pl_running p"
  shows "\<exists>es fl p'. close P fs W sched p = Some (es @ fl, p') \<and> reset_pipeline items p p' \<and>
    pipeline_ok fs items closed p' \<and>
    (\<forall>s j. exclusive (xb_lanes x) s j \<longrightarrow>
       sink_bytes s es = sink_bytes s (concat (map (process P fs (pl_routes p ! j)) (queued items x j)))) \<and>
    list_all quiet fl \<and> (\<forall>r \<in> set (pl_routes p). \<forall>s. rt_sink r = Some s \<longrightarrow> SinkFlush s \<in> set fl)"
proof -
  from stop_pipeline_bytes [OF assms(1-3), of P sched True] obtain d es fl p' where
    s: "close P fs W sched p = Some (es @ fl, p')" "reset_pipeline items p p'"
      "pipeline_ok fs items closed p'" "produced P fs (xb_lanes x) d es" "list_all quiet fl"
      "\<forall>r \<in> set (pl_routes p). \<forall>s. rt_sink r = Some s \<longrightarrow> SinkFlush s \<in> set fl"
      "\<forall>j < length (pl_routes p). d j = queued items x j"
    using assms(4) by (auto simp: stop_pipeline_def)
  have routes: "map ln_route (xb_lanes x) = pl_routes p"
    using assms(2,3) by (auto simp: pipeline_simps)
  have "sink_bytes s es = sink_bytes s (concat (map (process P fs (pl_routes p ! j)) (queued items x j)))"
    if "exclusive (xb_lanes x) s j" for s j
  proof -
    have "j < length (xb_lanes x)" using that by (simp add: exclusive_def)
    moreover from this have "ln_route (xb_lanes x ! j) = pl_routes p ! j" "j < length (pl_routes p)"
      using routes by (metis nth_map, metis length_map)
    ultimately show ?thesis using s(4,7) that by (simp add: produced_def handled_def)
  qed
  with s(1-3,5,6) show ?thesis by blast
qed

text \<open>
  Closing a running pipeline returns; every sink of only one route receives exactly the output
  of the events queued for that route, in order; after that every sink of a route is flushed. The
  pipeline is left ready for a restart: routes and configuration kept, nothing queued, not
  accepting.
\<close>

theorem close_delivers_queued:
  assumes "workers_ok W items closed" "pipeline_ok fs items closed p" "pl_crossbar p = Some x"
    "pl_running p"
  shows "\<exists>es fl p'. close P fs W sched p = Some (es @ fl, p') \<and> reset_pipeline items p p' \<and>
    pipeline_ok fs items closed p' \<and>
    (\<forall>s j. exclusive (xb_lanes x) s j \<longrightarrow>
       sink_bytes s es = sink_bytes s (concat (map (process P fs (pl_routes p ! j)) (queued items x j)))) \<and>
    list_all quiet fl \<and> (\<forall>r \<in> set (pl_routes p). \<forall>s. rt_sink r = Some s \<longrightarrow> SinkFlush s \<in> set fl)"
  by (rule closing_delivers [OF assms])

theorem close_delivers_queued_witness:
  "\<exists>es fl p'. close plain_platform info_store list_workers [0] async_pipeline = Some (es @ fl, p') \<and>
     reset_pipeline fst async_pipeline p' \<and> SinkFlush 0 \<in> set fl"
proof -
  have "plain_route \<in> set (pl_routes async_pipeline)" "rt_sink plain_route = Some 0"
    by (simp_all add: async_pipeline_ok(3) plain_route_def route_builder_defs)
  then show ?thesis
    using close_delivers_queued [OF list_workers_ok async_pipeline_ok(1,2,4), of plain_platform "[0]"]
    by blast
qed

text \<open>
  Closing a pipeline that was never started discards what is queued: nothing is written to any
  sink, although the lifecycle document says that calls before \<open>start\<close> are queued and that
  \<open>close\<close> drains queued events.
\<close>

theorem close_before_start_discards:
  assumes "workers_ok W items closed" "pipeline_ok fs items closed p" "\<not> pl_running p"
  shows "\<exists>es p'. close P fs W sched p = Some (es, p') \<and> list_all quiet es \<and> reset_pipeline items p p'"
proof -
  obtain x where x: "pl_crossbar p = Some x" using assms(2) by (rule pipeline_okE)
  from stop_pipeline_bytes [OF assms(1,2) x, of P sched True] assms(3) show ?thesis
    by (auto simp: stop_pipeline_def)
qed

definition waiting_crossbar :: "(event list \<times> bool) crossbar" where
  "waiting_crossbar = snd (crossbar_submit list_workers second_event 1 True
     \<lparr>xb_capacity = 2, xb_running = False, xb_lanes = [new_lane list_workers 2 plain_route]\<rparr>)"

definition waiting_pipeline :: "(event list \<times> bool) pipeline" where
  "waiting_pipeline =
     initial_pipeline\<lparr>pl_routes := [plain_route], pl_crossbar := Some waiting_crossbar\<rparr>"

lemma waiting_pipeline_ok: "pipeline_ok info_store fst snd waiting_pipeline"
    "pl_crossbar waiting_pipeline = Some waiting_crossbar" "\<not> pl_running waiting_pipeline"
    "queued fst waiting_crossbar 0 = [second_event]" "pl_routes waiting_pipeline = [plain_route]"
proof -
  show w: "pl_crossbar waiting_pipeline = Some waiting_crossbar" "\<not> pl_running waiting_pipeline"
    "pl_routes waiting_pipeline = [plain_route]"
    by (simp_all add: waiting_pipeline_def initial_pipeline_def)
  show "queued fst waiting_crossbar 0 = [second_event]"
    by (simp add: waiting_crossbar_def crossbar_submit_def demo_defs lane_items_def Let_def)
  let ?x = "\<lparr>xb_capacity = 2, xb_running = False, xb_lanes = [new_lane list_workers 2 plain_route]\<rparr>"
  obtain r where r: "crossbar_resume list_workers second_event 1 True 0 False ?x = (r, waiting_crossbar)"
    by (metis crossbar_submit_def prod.collapse waiting_crossbar_def)
  have "crossbar_ok fst snd ?x" "crossbar_open snd ?x"
    using new_lane_spec [OF list_workers_ok, of 2 plain_route]
    by (simp_all add: crossbar_ok_def crossbar_open_def)
  with crossbar_resume_spec(2,3) [OF list_workers_ok _ r] crossbar_resume_lanes(2) [OF r]
    resume_open [OF list_workers_ok _ _ r]
  show "pipeline_ok info_store fst snd waiting_pipeline"
    by (simp add: pipeline_simps waiting_pipeline_def initial_pipeline_def
        new_lane_spec(4) [OF list_workers_ok])
qed

theorem close_before_start_discards_witness:
  "queued fst waiting_crossbar 0 = [second_event] \<and>
   (\<exists>es p'. close plain_platform info_store list_workers [] waiting_pipeline = Some (es, p') \<and>
      list_all quiet es \<and> reset_pipeline fst waiting_pipeline p')"
  using close_before_start_discards [OF list_workers_ok waiting_pipeline_ok(1,3)] waiting_pipeline_ok(4)
  by blast

text \<open>
  Adding a route keeps the lanes in step with the routes and always returns. In a running
  pipeline the old lanes are drained first: nothing queued is lost, and the new lanes run. Before
  \<open>start\<close>, the events queued so far are discarded without output.
\<close>

theorem add_route_queued_events:
  assumes "workers_ok W items closed" "pipeline_ok fs items closed p" "pl_crossbar p = Some x"
  shows "\<exists>es p' y. add_route P fs W sched r p = Some (es, p') \<and> pipeline_ok fs items closed p' \<and>
    pl_routes p' = pl_routes p @ [r] \<and> pl_running p' = pl_running p \<and> pl_crossbar p' = Some y \<and>
    (\<forall>j < length (pl_routes p'). queued items y j = []) \<and>
    (if pl_running p
     then \<forall>s j. exclusive (xb_lanes x) s j \<longrightarrow>
       sink_bytes s es = sink_bytes s (concat (map (process P fs (pl_routes p ! j)) (queued items x j)))
     else es = [])"
proof -
  have x: "crossbar_ok items closed x" "xb_running x = pl_running p" "pl_running p \<longrightarrow> pl_accepting p"
    "map ln_route (xb_lanes x) = pl_routes p"
    using assms(2,3) by (auto simp: pipeline_simps)
  let ?p1 = "p\<lparr>pl_routes := pl_routes p @ [r], pl_cache := invalidate_cache (pl_cache p)\<rparr>"
  have "rc_dirty (pl_cache ?p1)" by (simp add: invalidate_cache_def)
  with reconfigure_spec [OF assms(1), of ?p1 x "pl_routes ?p1" P fs sched] x(1-3) assms(3)
  obtain d es y where
    y: "add_route P fs W sched r p = Some (es, ?p1\<lparr>pl_crossbar := Some y\<rparr>)"
      "pipeline_ok fs items closed (?p1\<lparr>pl_crossbar := Some y\<rparr>)" "produced P fs (xb_lanes x) d es"
      "\<forall>j < length (pl_routes ?p1). queued items y j = []"
      "\<forall>j < length (xb_lanes x). d j = (if pl_running p then queued items x j else [])"
      "\<not> pl_running p \<longrightarrow> es = []"
    by (auto simp: add_route_def Let_def)
  have "sink_bytes s es = sink_bytes s (concat (map (process P fs (pl_routes p ! j)) (queued items x j)))"
    if "exclusive (xb_lanes x) s j" "pl_running p" for s j
  proof -
    have j: "j < length (xb_lanes x)" using that by (simp add: exclusive_def)
    then have "ln_route (xb_lanes x ! j) = pl_routes p ! j" using x(4) by (metis nth_map)
    with y(3,5) that j show ?thesis by (simp add: produced_def handled_def)
  qed
  with y(1,2,4,6) show ?thesis
    by (intro exI [of _ es] exI [of _ "?p1\<lparr>pl_crossbar := Some y\<rparr>"] exI [of _ y]) simp
qed

theorem add_route_queued_events_witness:
  "queued fst waiting_crossbar 0 = [second_event] \<and>
   (\<exists>p' y. add_route plain_platform info_store list_workers [] info_route waiting_pipeline = Some ([], p') \<and>
      pl_crossbar p' = Some y \<and> queued fst y 0 = [] \<and> queued fst y 1 = [])"
proof -
  from add_route_queued_events [OF list_workers_ok waiting_pipeline_ok(1,2), of plain_platform "[]" info_route]
  obtain p' y where
    "add_route plain_platform info_store list_workers [] info_route waiting_pipeline = Some ([], p')"
    "pl_crossbar p' = Some y" "\<forall>j < length (pl_routes p'). queued fst y j = []"
    "pl_routes p' = [plain_route, info_route]"
    using waiting_pipeline_ok(3,5) by auto
  then show ?thesis using waiting_pipeline_ok(4) by auto
qed




subsection \<open>What callers can observe\<close>

definition is_running :: "'q pipeline \<Rightarrow> bool" where
  "is_running p = pl_running p"

definition crossbar_is_running :: "'q crossbar \<Rightarrow> bool" where
  "crossbar_is_running x = xb_running x"

definition lane_count :: "'q crossbar \<Rightarrow> nat" where
  "lane_count x = length (xb_lanes x)"

text \<open>In every reachable state pipeline and crossbar agree, and there is a lane for each route.\<close>

lemma observers_agree:
  assumes "workers_ok W items closed" "(pl_trans P fs W)\<^sup>*\<^sup>* initial_pipeline p" "pl_crossbar p = Some x"
  shows "crossbar_is_running x = is_running p" "lane_count x = length (pl_routes p)"
proof -
  have "pipeline_ok fs items closed p"
    using api.reach_inv [OF refl assms(2)] assms(1) by blast
  then have "xb_running x = pl_running p" "map ln_route (xb_lanes x) = pl_routes p"
    using assms(3) by (auto simp: pipeline_simps)
  then show "crossbar_is_running x = is_running p" "lane_count x = length (pl_routes p)"
    by (simp_all add: crossbar_is_running_def is_running_def lane_count_def flip: length_map [of ln_route])
qed

end
