(* ===== verification/Rotation.thy ===== *)
theory Rotation
  imports Text_Format
begin

section \<open>Rotation modes\<close>

text \<open>
  The namespace \<open>rotation\<close> of \<open>include/sylog/sink.hpp\<close>: the context a file sink hands to its
  mode, the four built-in modes and a user-defined one. Sizes are 64-bit words, so the sum in
  \<open>file_size_exceeds\<close> wraps as it does in the code. The locale \<open>size_limited\<close> is what the file
  sink's size bound needs of a mode.
\<close>

record rotation_context =
  rx_current_size :: size_t
  rx_incoming_bytes :: size_t
  rx_opened_day :: string
  rx_today :: string

datatype rotation_mode =
    Never
  | FileSizeExceeds size_t int
  | NewDayBegins int
  | FileSizeExceedsOrNewDayBegins size_t int
  | CustomMode "rotation_context \<Rightarrow> bool" int

definition size_exceeds :: "size_t \<Rightarrow> rotation_context \<Rightarrow> bool" where
  "size_exceeds max_bytes ctx \<longleftrightarrow> rx_current_size ctx + rx_incoming_bytes ctx > max_bytes"

definition day_changed :: "rotation_context \<Rightarrow> bool" where
  "day_changed ctx \<longleftrightarrow>
     rx_opened_day ctx \<noteq> [] \<and> rx_today ctx \<noteq> [] \<and> rx_opened_day ctx \<noteq> rx_today ctx"

primrec should_rotate :: "rotation_mode \<Rightarrow> rotation_context \<Rightarrow> bool" where
  "should_rotate Never ctx = False"
| "should_rotate (FileSizeExceeds m k) ctx = size_exceeds m ctx"
| "should_rotate (NewDayBegins k) ctx = day_changed ctx"
| "should_rotate (FileSizeExceedsOrNewDayBegins m k) ctx = (size_exceeds m ctx \<or> day_changed ctx)"
| "should_rotate (CustomMode p k) ctx = p ctx"

primrec max_archived_files :: "rotation_mode \<Rightarrow> int" where
  "max_archived_files Never = 5"
| "max_archived_files (FileSizeExceeds m k) = k"
| "max_archived_files (NewDayBegins k) = k"
| "max_archived_files (FileSizeExceedsOrNewDayBegins m k) = k"
| "max_archived_files (CustomMode p k) = k"

definition never_rotate :: rotation_mode where
  "never_rotate = Never"

definition when_file_size_exceeds :: "size_t \<Rightarrow> int \<Rightarrow> rotation_mode" where
  "when_file_size_exceeds bytes keep_files = FileSizeExceeds bytes keep_files"

definition when_new_day_begins :: "int \<Rightarrow> rotation_mode" where
  "when_new_day_begins keep_files = NewDayBegins keep_files"

definition when_file_size_exceeds_or_new_day_begins :: "size_t \<Rightarrow> int \<Rightarrow> rotation_mode" where
  "when_file_size_exceeds_or_new_day_begins bytes keep_files =
     FileSizeExceedsOrNewDayBegins bytes keep_files"

text \<open>
  A mode keeps a size limit when it rotates before any write that would pass it, as long as the
  byte count itself does not overflow.
\<close>

locale size_limited =
  fixes mode :: rotation_mode and limit :: size_t
  assumes keeps_limit:
    "\<not> should_rotate mode ctx \<Longrightarrow>
     unat (rx_current_size ctx) + unat (rx_incoming_bytes ctx) < 2 ^ 64 \<Longrightarrow>
     unat (rx_current_size ctx) + unat (rx_incoming_bytes ctx) \<le> unat limit"

lemma size_exceeds_nat:
  assumes "unat (rx_current_size ctx) + unat (rx_incoming_bytes ctx) < 2 ^ 64"
  shows "size_exceeds m ctx \<longleftrightarrow>
    unat m < unat (rx_current_size ctx) + unat (rx_incoming_bytes ctx)"
  using assms by (simp add: size_exceeds_def word_less_nat_alt unat_word_ariths)

interpretation by_size: size_limited "FileSizeExceeds m k" m for m k
  by unfold_locales (simp add: size_exceeds_nat)

interpretation by_size_or_day: size_limited "FileSizeExceedsOrNewDayBegins m k" m for m k
  by unfold_locales (simp add: size_exceeds_nat)

text \<open>
  \<open>file_size_exceeds\<close> rotates exactly when the file would outgrow its limit, except that
  the 64-bit sum wraps: where the two sizes together reach \<open>2 ^ 64\<close>, the test looks at the
  remainder.
\<close>

theorem size_rotation_exact:
  "should_rotate (FileSizeExceeds m k) ctx \<longleftrightarrow>
     unat m < (unat (rx_current_size ctx) + unat (rx_incoming_bytes ctx)) mod 2 ^ 64"
  by (simp add: size_exceeds_def word_less_nat_alt unat_word_ariths)

end
