(* ===== verification/File_Sink.thy ===== *)
theory File_Sink
  imports Rotation
begin

section \<open>The rotating file sink\<close>

text \<open>
  \<open>src/sinks/file_sink.cpp\<close>. The file system is a map from paths to contents, and the output
  stream is what the code uses of \<open>std::ofstream\<close>: whether it is open, whether its fail bit is
  set, and the bytes it has accepted but not yet passed on. How many of those a write passes on
  is the stream's choice, and whether the system lets a file be opened or renamed, the local
  time and the clock are the environment's: they are the record \<open>io\<close>, and the theorems hold for
  every value of it. Writing to an open file is taken to succeed.
\<close>

type_synonym path = string
type_synonym file_system = "path \<Rightarrow> string option"

record io =
  io_can_open :: "path \<Rightarrow> bool"
  io_can_rename :: "path \<Rightarrow> path \<Rightarrow> bool"
  io_local_tm :: "int \<Rightarrow> tm"
  io_now :: int
  io_spill :: nat

record file_sink =
  fk_path :: path
  fk_rotation :: "rotation_mode option"
  fk_opened_day :: string
  fk_current_size :: size_t
  fk_open :: bool
  fk_fail :: bool
  fk_buf :: string

subsection \<open>The stream\<close>

datatype open_mode = OpenApp | OpenTrunc

text \<open>
  \<open>ofs.open\<close>: opening an open stream fails; success clears the fail bit. Appending creates a
  missing file and keeps the contents of an existing one, truncating empties it.
\<close>

definition ofs_open :: "io \<Rightarrow> open_mode \<Rightarrow> file_sink \<times> file_system \<Rightarrow> file_sink \<times> file_system" where
  "ofs_open io mode st =
     (case st of (s, fs) \<Rightarrow>
        if fk_open s \<or> \<not> io_can_open io (fk_path s) then (s\<lparr>fk_fail := True\<rparr>, fs)
        else (s\<lparr>fk_open := True, fk_fail := False, fk_buf := []\<rparr>,
              fs(fk_path s :=
                   Some (case (mode, fs (fk_path s)) of (OpenApp, Some c) \<Rightarrow> c | _ \<Rightarrow> []))))"

text \<open>Passing the first \<open>n\<close> buffered bytes on to the file.\<close>

definition ofs_sync :: "nat \<Rightarrow> file_sink \<times> file_system \<Rightarrow> file_sink \<times> file_system" where
  "ofs_sync n st =
     (case st of (s, fs) \<Rightarrow>
        (s\<lparr>fk_buf := drop n (fk_buf s)\<rparr>,
         fs(fk_path s :=
              Some ((case fs (fk_path s) of Some c \<Rightarrow> c | None \<Rightarrow> []) @ take n (fk_buf s)))))"

definition ofs_close :: "file_sink \<times> file_system \<Rightarrow> file_sink \<times> file_system" where
  "ofs_close st =
     (case st of (s, fs) \<Rightarrow>
        if \<not> fk_open s then (s\<lparr>fk_fail := True\<rparr>, fs)
        else (case ofs_sync (length (fk_buf s)) (s, fs) of (s', fs') \<Rightarrow> (s'\<lparr>fk_open := False\<rparr>, fs')))"

definition ofs_write :: "io \<Rightarrow> string \<Rightarrow> file_sink \<times> file_system \<Rightarrow> file_sink \<times> file_system" where
  "ofs_write io bytes st =
     (case st of (s, fs) \<Rightarrow>
        if fk_fail s \<or> \<not> fk_open s then (s\<lparr>fk_fail := True\<rparr>, fs)
        else ofs_sync (io_spill io) (s\<lparr>fk_buf := fk_buf s @ bytes\<rparr>, fs))"

definition ofs_flush :: "file_sink \<times> file_system \<Rightarrow> file_sink \<times> file_system" where
  "ofs_flush st =
     (case st of (s, fs) \<Rightarrow> if fk_open s then ofs_sync (length (fk_buf s)) (s, fs) else (s, fs))"

subsection \<open>The sink\<close>

definition file_size_or_zero :: "file_system \<Rightarrow> path \<Rightarrow> size_t" where
  "file_size_or_zero fs p = (case fs p of Some c \<Rightarrow> of_nat (length c) | None \<Rightarrow> 0)"

definition today :: "io \<Rightarrow> string" where
  "today io = today_ymd (io_local_tm io) (io_now io)"

definition open_if_needed :: "io \<Rightarrow> file_sink \<times> file_system \<Rightarrow> file_sink \<times> file_system" where
  "open_if_needed io st =
     (case st of (s, fs) \<Rightarrow>
        case ofs_open io OpenApp (s\<lparr>fk_opened_day := today io\<rparr>, fs) of (s1, fs1) \<Rightarrow>
          (s1\<lparr>fk_current_size := file_size_or_zero fs1 (fk_path s1)\<rparr>, fs1))"

definition file_sink_new ::
  "io \<Rightarrow> path \<Rightarrow> rotation_mode option \<Rightarrow> file_system \<Rightarrow> file_sink \<times> file_system" where
  "file_sink_new io p rotation fs =
     open_if_needed io
       (\<lparr>fk_path = p, fk_rotation = Some (case rotation of Some m \<Rightarrow> m | None \<Rightarrow> Never),
         fk_opened_day = [], fk_current_size = 0, fk_open = False, fk_fail = False, fk_buf = []\<rparr>, fs)"

definition archive :: "path \<Rightarrow> nat \<Rightarrow> path" where
  "archive p i = p @ ''.'' @ dec i"

definition rename_if_exists :: "io \<Rightarrow> path \<Rightarrow> path \<Rightarrow> file_system \<Rightarrow> file_system" where
  "rename_if_exists io src dst fs =
     (if fs src \<noteq> None \<and> io_can_rename io src dst then fs(dst := fs src, src := None) else fs)"

text \<open>The loop from \<open>keep - 1\<close> down to 1.\<close>

fun shift_loop :: "io \<Rightarrow> path \<Rightarrow> nat \<Rightarrow> file_system \<Rightarrow> file_system" where
  "shift_loop io p 0 fs = fs"
| "shift_loop io p (Suc i) fs =
     shift_loop io p i (rename_if_exists io (archive p (Suc i)) (archive p (Suc i + 1)) fs)"

definition rotate_files :: "io \<Rightarrow> file_sink \<Rightarrow> file_system \<Rightarrow> file_system" where
  "rotate_files io s fs =
     (let keep = (case fk_rotation s of Some m \<Rightarrow> max_archived_files m | None \<Rightarrow> 0)
      in if keep \<le> 0 then fs
         else rename_if_exists io (fk_path s) (archive (fk_path s) 1)
                (shift_loop io (fk_path s) (nat (keep - 1)) fs))"

definition rotate_if_needed ::
  "io \<Rightarrow> size_t \<Rightarrow> file_sink \<times> file_system \<Rightarrow> file_sink \<times> file_system" where
  "rotate_if_needed io incoming_bytes st =
     (case st of (s, fs) \<Rightarrow>
        case fk_rotation s of
          None \<Rightarrow> (s, fs)
        | Some mode \<Rightarrow>
            if \<not> should_rotate mode
                 \<lparr>rx_current_size = fk_current_size s, rx_incoming_bytes = incoming_bytes,
                  rx_opened_day = fk_opened_day s, rx_today = today io\<rparr>
            then (s, fs)
            else
              (case ofs_close (s, fs) of (s1, fs1) \<Rightarrow>
                 (let fs2 = rotate_files io s1 fs1
                  in case ofs_open io OpenTrunc (s1\<lparr>fk_opened_day := today io\<rparr>, fs2) of (s3, fs3) \<Rightarrow>
                       (s3\<lparr>fk_current_size := 0\<rparr>, fs3))))"

definition file_write :: "io \<Rightarrow> string \<Rightarrow> file_sink \<times> file_system \<Rightarrow> file_sink \<times> file_system" where
  "file_write io bytes st =
     (let st1 = (if \<not> fk_open (fst st) then open_if_needed io st else st)
      in if fk_fail (fst st1) then st1
         else (case ofs_write io bytes (rotate_if_needed io (of_nat (length bytes)) st1) of (s3, fs3) \<Rightarrow>
                 (s3\<lparr>fk_current_size := fk_current_size s3 + of_nat (length bytes)\<rparr>, fs3)))"

definition file_flush :: "file_sink \<times> file_system \<Rightarrow> file_sink \<times> file_system" where
  "file_flush st = (if \<not> fk_fail (fst st) then ofs_flush st else st)"

definition file_ok :: "file_sink \<Rightarrow> bool" where
  "file_ok s \<longleftrightarrow> \<not> fk_fail s"

lemmas ofs_defs = ofs_open_def ofs_sync_def ofs_close_def ofs_write_def ofs_flush_def

subsection \<open>Archive names and the shift\<close>

lemma archive_eq [simp]: "archive p i = archive p j \<longleftrightarrow> i = j"
  by (simp add: archive_def dec_inj)

lemma archive_not_path [simp]: "archive p i \<noteq> p" "p \<noteq> archive p i"
  by (simp_all add: archive_def)

definition io_ok :: "io \<Rightarrow> bool" where
  "io_ok io \<longleftrightarrow> (\<forall>p. io_can_open io p) \<and> (\<forall>a b. io_can_rename io a b)"

lemma rename_ok:
  "io_ok io \<Longrightarrow>
   rename_if_exists io src dst fs = (if fs src = None then fs else fs(dst := fs src, src := None))"
  by (simp add: rename_if_exists_def io_ok_def)

text \<open>No gap among the archives: a missing one has no successor.\<close>

definition contiguous :: "path \<Rightarrow> nat \<Rightarrow> file_system \<Rightarrow> bool" where
  "contiguous p n fs \<longleftrightarrow>
     (\<forall>j. 1 \<le> j \<and> j \<le> n \<longrightarrow> fs (archive p j) = None \<longrightarrow> fs (archive p (Suc j)) = None)"

lemma shift_step:
  assumes "io_ok io" "contiguous p (Suc n) fs"
  defines "fs1 \<equiv> rename_if_exists io (archive p (Suc n)) (archive p (Suc n + 1)) fs"
  shows "fs1 (archive p (Suc (Suc n))) = fs (archive p (Suc n))" "fs1 (archive p (Suc n)) = None"
    "q \<noteq> archive p (Suc n) \<Longrightarrow> q \<noteq> archive p (Suc (Suc n)) \<Longrightarrow> fs1 q = fs q"
    "contiguous p n fs1"
proof -
  show "fs1 (archive p (Suc (Suc n))) = fs (archive p (Suc n))"
    using assms(1,2) by (auto simp: fs1_def rename_ok contiguous_def)
  show none: "fs1 (archive p (Suc n)) = None"
    using assms(1) by (auto simp: fs1_def rename_ok)
  show frame: "fs1 q = fs q" if "q \<noteq> archive p (Suc n)" "q \<noteq> archive p (Suc (Suc n))" for q
    using that assms(1) by (auto simp: fs1_def rename_ok)
  show "contiguous p n fs1"
    unfolding contiguous_def
  proof (intro allI impI)
    fix j
    assume j: "1 \<le> j \<and> j \<le> n" and "fs1 (archive p j) = None"
    then have "fs (archive p j) = None" using frame [of "archive p j"] by simp
    then have "fs (archive p (Suc j)) = None" using assms(2) j by (simp add: contiguous_def)
    then show "fs1 (archive p (Suc j)) = None"
      using none frame [of "archive p (Suc j)"] j by (cases "j = n") auto
  qed
qed

lemma shift_loop_at:
  assumes "io_ok io" "contiguous p n fs"
  shows "2 \<le> j \<Longrightarrow> j \<le> Suc n \<Longrightarrow> shift_loop io p n fs (archive p j) = fs (archive p (j - 1))"
    "1 \<le> n \<Longrightarrow> shift_loop io p n fs (archive p 1) = None"
    "n = 0 \<or> (\<forall>i \<in> {1..Suc n}. q \<noteq> archive p i) \<Longrightarrow> shift_loop io p n fs q = fs q"
  using assms(2)
proof (induction n arbitrary: fs j q)
  case 0
  { case 1 then show ?case by simp next case 2 then show ?case by simp
    next case 3 then show ?case by simp }
next
  case (Suc n)
  define fs1 where "fs1 fs = rename_if_exists io (archive p (Suc n)) (archive p (Suc n + 1)) fs" for fs
  have unfold: "shift_loop io p (Suc n) fs = shift_loop io p n (fs1 fs)" for fs
    by (simp add: fs1_def)
  {
    case 1
    note st = shift_step [OF assms(1) 1(3), folded fs1_def]
    consider "j = Suc (Suc n)" | "j \<le> Suc n" using 1 by linarith
    then show ?case
    proof cases
      case 1
      then have "n = 0 \<or> (\<forall>i \<in> {1..Suc n}. archive p j \<noteq> archive p i)" by auto
      from Suc.IH(3) [OF this st(4)] st(1) 1 show ?thesis by (simp add: unfold del: shift_loop.simps)
    next
      case 2
      have "shift_loop io p n (fs1 fs) (archive p j) = fs1 fs (archive p (j - 1))"
        by (rule Suc.IH(1) [OF 1(1) 2 st(4)])
      moreover have "fs1 fs (archive p (j - 1)) = fs (archive p (j - 1))"
        using 1 2 by (intro st(3)) auto
      ultimately show ?thesis by (simp add: unfold del: shift_loop.simps)
    qed
  next
    case 2
    note st = shift_step [OF assms(1) 2(2), folded fs1_def]
    have "shift_loop io p n (fs1 fs) (archive p 1) = None"
    proof (cases n)
      case 0
      then show ?thesis using st(2) by simp
    next
      case (Suc m)
      then show ?thesis using Suc.IH(2) [OF _ st(4)] by simp
    qed
    then show ?case by (simp add: unfold del: shift_loop.simps)
  next
    case 3
    note st = shift_step [OF assms(1) 3(2), folded fs1_def]
    from 3(1) have "shift_loop io p n (fs1 fs) q = fs1 fs q"
      by (intro Suc.IH(3) st(4)) auto
    moreover have "fs1 fs q = fs q" using 3(1) by (intro st(3)) auto
    ultimately show ?case by (simp add: unfold del: shift_loop.simps)
  }
qed

subsection \<open>What a rotating file promises\<close>

text \<open>
  The abstract log: the bytes written since the last rotation and the archives, newest first, of
  which at most as many are kept as the mode says. A write that rotates archives the active
  bytes and starts a new file with its own.
\<close>

record log_spec =
  lg_active :: string
  lg_archives :: "string list"
  lg_day :: string

definition keep_of :: "rotation_mode \<Rightarrow> nat" where
  "keep_of mode = nat (max_archived_files mode)"

definition spec_rotates :: "rotation_mode \<Rightarrow> string \<Rightarrow> string \<Rightarrow> log_spec \<Rightarrow> bool" where
  "spec_rotates mode day bytes L \<longleftrightarrow> should_rotate mode
     \<lparr>rx_current_size = of_nat (length (lg_active L)), rx_incoming_bytes = of_nat (length bytes),
      rx_opened_day = lg_day L, rx_today = day\<rparr>"

definition spec_write :: "rotation_mode \<Rightarrow> string \<Rightarrow> string \<Rightarrow> log_spec \<Rightarrow> log_spec" where
  "spec_write mode day bytes L =
     (if spec_rotates mode day bytes L
      then \<lparr>lg_active = bytes, lg_archives = take (keep_of mode) (lg_active L # lg_archives L),
            lg_day = day\<rparr>
      else L\<lparr>lg_active := lg_active L @ bytes\<rparr>)"

definition nth_opt :: "'a list \<Rightarrow> nat \<Rightarrow> 'a option" where
  "nth_opt xs i = (if i < length xs then Some (xs ! i) else None)"

definition holds_archives :: "path \<Rightarrow> nat \<Rightarrow> file_system \<Rightarrow> string list \<Rightarrow> bool" where
  "holds_archives p k fs xs \<longleftrightarrow>
     length xs \<le> k \<and> (\<forall>j \<in> {1..k}. fs (archive p j) = nth_opt xs (j - 1))"

definition file_refines :: "rotation_mode \<Rightarrow> file_sink \<times> file_system \<Rightarrow> log_spec \<Rightarrow> bool" where
  "file_refines mode st L \<longleftrightarrow>
     (case st of (s, fs) \<Rightarrow>
        fk_rotation s = Some mode \<and> fk_open s \<and> \<not> fk_fail s \<and>
        (\<exists>c. fs (fk_path s) = Some c \<and> lg_active L = c @ fk_buf s) \<and>
        fk_current_size s = of_nat (length (lg_active L)) \<and> fk_opened_day s = lg_day L \<and>
        holds_archives (fk_path s) (keep_of mode) fs (lg_archives L))"

lemma nth_opt_Nil [simp]: "nth_opt [] i = None"
  by (simp add: nth_opt_def)

lemma nth_opt_take: "i < k \<Longrightarrow> nth_opt (take k xs) i = nth_opt xs i"
  by (simp add: nth_opt_def)

lemma nth_opt_Cons: "nth_opt (x # xs) i = (if i = 0 then Some x else nth_opt xs (i - 1))"
  by (cases i) (simp_all add: nth_opt_def)

lemma holds_archives_upd [simp]:
  "holds_archives p k (fs(p := v)) xs = holds_archives p k fs xs"
  by (simp add: holds_archives_def)

lemma holds_contiguous:
  assumes "holds_archives p (Suc n) fs xs"
  shows "contiguous p n fs"
  unfolding contiguous_def
proof (intro allI impI)
  fix j
  assume j: "1 \<le> j \<and> j \<le> n" "fs (archive p j) = None"
  then have "fs (archive p j) = nth_opt xs (j - 1)" "fs (archive p (Suc j)) = nth_opt xs j"
    using assms by (auto simp: holds_archives_def)
  with j show "fs (archive p (Suc j)) = None" by (simp add: nth_opt_def split: if_splits)
qed

lemma rotate_files_shift:
  assumes "io_ok io" "fk_rotation s = Some mode" "fs (fk_path s) = Some c"
    "holds_archives (fk_path s) (keep_of mode) fs xs"
  shows "holds_archives (fk_path s) (keep_of mode) (rotate_files io s fs) (take (keep_of mode) (c # xs))"
proof (cases "max_archived_files mode \<le> 0")
  case True
  then show ?thesis using assms(2,4) by (simp add: rotate_files_def keep_of_def holds_archives_def)
next
  case False
  let ?p = "fk_path s"
  define n where "n = nat (max_archived_files mode - 1)"
  have k: "keep_of mode = Suc n" using False by (simp add: keep_of_def n_def)
  have cont: "contiguous ?p n fs" using assms(4) by (simp add: k holds_contiguous)
  note sh = shift_loop_at [OF assms(1) cont]
  have active: "shift_loop io ?p n fs ?p = Some c" using sh(3) [of ?p] assms(3) by simp
  have "rotate_files io s fs = (shift_loop io ?p n fs)(archive ?p 1 := Some c, ?p := None)"
    using False assms(1,2) active
    by (simp add: rotate_files_def Let_def rename_ok flip: n_def)
  moreover have "((shift_loop io ?p n fs)(archive ?p 1 := Some c, ?p := None)) (archive ?p j)
      = nth_opt (take (Suc n) (c # xs)) (j - 1)" if j: "1 \<le> j" "j \<le> Suc n" for j
  proof (cases "j = 1")
    case True
    then show ?thesis by (simp add: nth_opt_def)
  next
    case False
    with j have "2 \<le> j" by simp
    with sh(1) j have "shift_loop io ?p n fs (archive ?p j) = fs (archive ?p (j - 1))" by simp
    also have "\<dots> = nth_opt xs (j - 1 - 1)"
    proof -
      have "j - 1 \<in> {1..Suc n}" using j \<open>2 \<le> j\<close> by auto
      then show ?thesis using assms(4) unfolding k holds_archives_def by blast
    qed
    finally show ?thesis using j \<open>2 \<le> j\<close>
      by (simp add: nth_opt_take nth_opt_Cons numeral_2_eq_2 del: take_Suc_Cons)
  qed
  ultimately show ?thesis by (simp add: k holds_archives_def del: take_Suc_Cons)
qed

lemma ofs_write_appends:
  assumes "fk_open s" "\<not> fk_fail s" "fs (fk_path s) = Some c" "ofs_write io bytes (s, fs) = (s', fs')"
  shows "fk_rotation s' = fk_rotation s" "fk_path s' = fk_path s" "fk_open s'" "\<not> fk_fail s'"
    "fk_current_size s' = fk_current_size s" "fk_opened_day s' = fk_opened_day s"
    "\<exists>c'. fs' (fk_path s) = Some c' \<and> c' @ fk_buf s' = c @ fk_buf s @ bytes"
    "\<exists>v. fs' = fs(fk_path s := v)"
  using assms
  by (auto simp: ofs_write_def ofs_sync_def append_take_drop_id simp del: take_append drop_append)

lemma rotate_if_needed_refines:
  assumes "io_ok io" "file_refines mode (s, fs) L"
    "rotate_if_needed io (of_nat (length bytes)) (s, fs) = (s', fs')"
  shows "file_refines mode (s', fs')
    (if spec_rotates mode (today io) bytes L
     then \<lparr>lg_active = [], lg_archives = take (keep_of mode) (lg_active L # lg_archives L),
           lg_day = today io\<rparr>
     else L)"
proof (cases "spec_rotates mode (today io) bytes L")
  case False
  then show ?thesis using assms(2,3) by (simp add: rotate_if_needed_def file_refines_def spec_rotates_def)
next
  case True
  from assms(2) obtain c where s: "fk_rotation s = Some mode" "fk_open s" "\<not> fk_fail s"
    "fs (fk_path s) = Some c" "lg_active L = c @ fk_buf s"
    "holds_archives (fk_path s) (keep_of mode) fs (lg_archives L)"
    by (auto simp: file_refines_def)
  define s1 where "s1 = s\<lparr>fk_buf := [], fk_open := False\<rparr>"
  define fs1 where "fs1 = fs(fk_path s := Some (lg_active L))"
  have closed: "ofs_close (s, fs) = (s1, fs1)"
    by (simp add: ofs_close_def ofs_sync_def s s1_def fs1_def)
  have "holds_archives (fk_path s1) (keep_of mode) (rotate_files io s1 fs1)
      (take (keep_of mode) (lg_active L # lg_archives L))"
    by (rule rotate_files_shift [OF assms(1)]) (simp_all add: s1_def fs1_def s)
  then have shifted: "holds_archives (fk_path s) (keep_of mode) (rotate_files io s1 fs1)
      (take (keep_of mode) (lg_active L # lg_archives L))"
    by (simp add: s1_def)
  have can: "io_can_open io q" for q using assms(1) by (simp add: io_ok_def)
  have rot: "should_rotate mode \<lparr>rx_current_size = fk_current_size s,
      rx_incoming_bytes = of_nat (length bytes), rx_opened_day = fk_opened_day s, rx_today = today io\<rparr>"
    using True assms(2) by (simp add: spec_rotates_def file_refines_def)
  from assms(3) have "s' = s1\<lparr>fk_opened_day := today io, fk_open := True, fk_fail := False,
      fk_buf := [], fk_current_size := 0\<rparr>"
    and "fs' = (rotate_files io s1 fs1)(fk_path s := Some [])"
    by (simp_all add: rotate_if_needed_def s(1) rot closed Let_def ofs_open_def can s1_def)
  then show ?thesis using True shifted by (simp add: file_refines_def s1_def s(1))
qed

lemma file_write_step:
  assumes "io_ok io" "file_refines mode st L"
  shows "file_refines mode (file_write io bytes st) (spec_write mode (today io) bytes L)"
proof -
  obtain s fs where st: "st = (s, fs)" by (cases st)
  obtain s2 fs2 where rot: "rotate_if_needed io (of_nat (length bytes)) (s, fs) = (s2, fs2)"
    by (cases "rotate_if_needed io (of_nat (length bytes)) (s, fs)")
  obtain s3 fs3 where wr: "ofs_write io bytes (s2, fs2) = (s3, fs3)"
    by (cases "ofs_write io bytes (s2, fs2)")
  let ?L2 = "if spec_rotates mode (today io) bytes L
     then \<lparr>lg_active = [], lg_archives = take (keep_of mode) (lg_active L # lg_archives L),
           lg_day = today io\<rparr>
     else L"
  have r2: "file_refines mode (s2, fs2) ?L2"
    by (rule rotate_if_needed_refines [OF assms(1) _ rot]) (use assms(2) st in simp)
  then obtain c where s2: "fk_open s2" "\<not> fk_fail s2" "fs2 (fk_path s2) = Some c"
    "lg_active ?L2 = c @ fk_buf s2"
    by (auto simp only: file_refines_def prod.case)
  have "fk_open s" "\<not> fk_fail s" using assms(2) st by (simp_all add: file_refines_def)
  then have "file_write io bytes st = (s3\<lparr>fk_current_size := fk_current_size s3 + of_nat (length bytes)\<rparr>, fs3)"
    by (simp add: file_write_def st rot wr)
  moreover have "spec_write mode (today io) bytes L = ?L2\<lparr>lg_active := lg_active ?L2 @ bytes\<rparr>"
    by (simp add: spec_write_def)
  ultimately show ?thesis
    using r2 ofs_write_appends [OF s2(1-3) wr] s2(4)
    by (auto simp only: file_refines_def prod.case holds_archives_upd) (auto simp: file_refines_def)
qed

lemma file_sink_new_refines:
  assumes "io_can_open io p" "holds_archives p (keep_of mode) fs xs"
  shows "file_refines mode (file_sink_new io p (Some mode) fs)
    \<lparr>lg_active = (case fs p of Some c \<Rightarrow> c | None \<Rightarrow> []), lg_archives = xs, lg_day = today io\<rparr>"
  using assms
  by (auto simp: file_sink_new_def open_if_needed_def ofs_open_def file_refines_def
      file_size_or_zero_def split: option.split)

text \<open>The environment of the witnesses: everything succeeds, and writes stay in the buffer.\<close>

definition plain_io :: io where
  "plain_io = \<lparr>io_can_open = (\<lambda>_. True), io_can_rename = (\<lambda>_ _. True),
     io_local_tm = (\<lambda>_. sample_tm), io_now = 0, io_spill = 0\<rparr>"

lemma plain_io_ok: "io_ok plain_io"
  by (simp add: io_ok_def plain_io_def)

definition fresh_log :: "string \<Rightarrow> log_spec" where
  "fresh_log day = \<lparr>lg_active = [], lg_archives = [], lg_day = day\<rparr>"

lemma fresh_refines:
  "file_refines mode (file_sink_new plain_io p (Some mode) (\<lambda>_. None)) (fresh_log (today plain_io))"
  using file_sink_new_refines [of plain_io p mode "\<lambda>_. None" "[]"]
  by (simp add: plain_io_def holds_archives_def fresh_log_def)

text \<open>
  C21. The rotating file sink implements the abstract log: while files can be opened and
  renamed, a write to an open sink does to the files on disk, the stream's buffer and the size
  and day the sink remembers exactly what the specification's write does to the active bytes and
  the numbered archives, however much of the buffer the stream happens to pass on.
\<close>

theorem file_write_refines:
  assumes "io_ok io" "file_refines mode st L"
  shows "file_refines mode (file_write io bytes st) (spec_write mode (today io) bytes L)"
  using assms by (rule file_write_step)

theorem file_write_refines_witness:
  "file_refines (FileSizeExceeds 3 2)
     (file_write plain_io ''abcd'' (file_sink_new plain_io ''log'' (Some (FileSizeExceeds 3 2)) (\<lambda>_. None)))
     (spec_write (FileSizeExceeds 3 2) (today plain_io) ''abcd'' (fresh_log (today plain_io)))"
  by (rule file_write_refines [OF plain_io_ok fresh_refines])

subsection \<open>Consequences for whole runs\<close>

fun file_run :: "(io \<times> string) list \<Rightarrow> file_sink \<times> file_system \<Rightarrow> file_sink \<times> file_system" where
  "file_run [] st = st"
| "file_run ((io, bytes) # ws) st = file_run ws (file_write io bytes st)"

fun spec_run :: "rotation_mode \<Rightarrow> (io \<times> string) list \<Rightarrow> log_spec \<Rightarrow> log_spec" where
  "spec_run mode [] L = L"
| "spec_run mode ((io, bytes) # ws) L = spec_run mode ws (spec_write mode (today io) bytes L)"

lemma file_run_refines:
  "list_all (\<lambda>w. io_ok (fst w)) ws \<Longrightarrow> file_refines mode st L \<Longrightarrow>
   file_refines mode (file_run ws st) (spec_run mode ws L)"
proof (induction mode ws L arbitrary: st rule: spec_run.induct)
  case (2 mode io bytes ws L)
  then show ?case by (simp add: file_write_step)
qed simp

text \<open>All bytes an abstract log holds, oldest first.\<close>

definition log_contents :: "log_spec \<Rightarrow> string" where
  "log_contents L = concat (rev (lg_archives L)) @ lg_active L"

lemma spec_write_contents:
  "\<exists>dropped. dropped @ log_contents (spec_write mode day bytes L) = log_contents L @ bytes"
proof (cases "spec_rotates mode day bytes L")
  case True
  let ?k = "keep_of mode" and ?xs = "lg_active L # lg_archives L"
  have "concat (rev (drop ?k ?xs)) @ concat (rev (take ?k ?xs)) = concat (rev ?xs)"
    by (metis append_take_drop_id concat_append rev_append)
  then show ?thesis
    by (intro exI [of _ "concat (rev (drop ?k ?xs))"])
      (simp add: spec_write_def True log_contents_def)
next
  case False
  then show ?thesis by (intro exI [of _ "[]"]) (simp add: spec_write_def log_contents_def)
qed

lemma spec_run_contents:
  "\<exists>dropped. dropped @ log_contents (spec_run mode ws L) = log_contents L @ concat (map snd ws)"
proof (induction mode ws L rule: spec_run.induct)
  case (2 mode io bytes ws L)
  obtain d where d: "d @ log_contents (spec_run mode ws (spec_write mode (today io) bytes L))
      = log_contents (spec_write mode (today io) bytes L) @ concat (map snd ws)"
    using 2 by blast
  obtain d' where d': "d' @ log_contents (spec_write mode (today io) bytes L) = log_contents L @ bytes"
    using spec_write_contents by blast
  have "(d' @ d) @ log_contents (spec_run mode ws (spec_write mode (today io) bytes L))
      = (d' @ log_contents (spec_write mode (today io) bytes L)) @ concat (map snd ws)"
    by (simp add: d)
  then show ?case by (simp add: d') (metis append_assoc)
qed simp

lemma spec_run_never:
  "lg_active (spec_run Never ws L) = lg_active L @ concat (map snd ws) \<and>
   lg_archives (spec_run Never ws L) = lg_archives L"
proof (induction ws arbitrary: L)
  case (Cons w ws)
  then show ?case by (cases w) (simp add: spec_write_def spec_rotates_def)
qed simp

lemma spec_run_never_contents:
  "log_contents (spec_run Never ws L) = log_contents L @ concat (map snd ws)"
  using spec_run_never [of ws L] by (simp add: log_contents_def)

text \<open>
  Across any sequence of writes, with any mode and any clock, the archives from the oldest
  kept to the newest followed by the active file are the tail of everything ever written:
  rotation drops whole old archives only, and never loses, duplicates or reorders a byte within
  what it keeps. Without rotation nothing is dropped.
\<close>

theorem file_run_keeps_tail:
  assumes "list_all (\<lambda>w. io_ok (fst w)) ws" "file_refines mode st L"
  shows "\<exists>L' dropped. file_refines mode (file_run ws st) L' \<and>
    dropped @ log_contents L' = log_contents L @ concat (map snd ws) \<and>
    (mode = Never \<longrightarrow> dropped = [])"
proof (cases "mode = Never")
  case True
  then show ?thesis
    using file_run_refines [OF assms] spec_run_never_contents [of ws L] by (metis append_Nil)
next
  case False
  then show ?thesis
    using file_run_refines [OF assms] spec_run_contents [of mode ws L] by blast
qed

theorem file_run_keeps_tail_witness:
  "\<exists>L' dropped. file_refines (FileSizeExceeds 3 2)
       (file_run [(plain_io, ''ab''), (plain_io, ''cd''), (plain_io, ''ef'')]
          (file_sink_new plain_io ''log'' (Some (FileSizeExceeds 3 2)) (\<lambda>_. None))) L' \<and>
     dropped @ log_contents L' = ''abcdef''"
  using file_run_keeps_tail [OF _ fresh_refines,
      of "[(plain_io, ''ab''), (plain_io, ''cd''), (plain_io, ''ef'')]" "FileSizeExceeds 3 2" "''log''"]
  by (simp add: plain_io_ok fresh_log_def log_contents_def)

subsection \<open>The size limit\<close>

context size_limited begin

lemma spec_write_bounded:
  assumes "length (lg_active L) + length bytes < 2 ^ 64"
  shows "length (lg_active (spec_write mode day bytes L)) \<le> max (unat limit) (length bytes)"
proof (cases "spec_rotates mode day bytes L")
  case True
  then show ?thesis by (simp add: spec_write_def)
next
  case False
  have nats: "unat (of_nat (length (lg_active L)) :: size_t) = length (lg_active L)"
    "unat (of_nat (length bytes) :: size_t) = length bytes"
    using assms by (simp_all add: unat_of_nat)
  from False keeps_limit assms nats
  have "length (lg_active L) + length bytes \<le> unat limit"
    by (fastforce simp: spec_rotates_def)
  with False show ?thesis by (simp add: spec_write_def)
qed

lemma file_write_bounded:
  assumes "io_ok io" "file_refines mode st L" "length (lg_active L) + length bytes < 2 ^ 64"
    "file_write io bytes st = (s', fs')"
  shows "\<exists>c. fs' (fk_path s') = Some c \<and> length c + length (fk_buf s') \<le> max (unat limit) (length bytes)"
  using file_write_step [OF assms(1,2), of bytes] spec_write_bounded [OF assms(3), of "today io"]
  by (auto simp: assms(4) file_refines_def)

end

text \<open>
  C38. With either of the two size-based modes, after every write the active file, including
  what the stream still buffers, is no larger than the configured limit, or than the one record
  just written when that alone is larger (as long as the byte count itself fits 64 bits).
\<close>

theorem active_file_size_bounded:
  assumes "mode \<in> {FileSizeExceeds m k, FileSizeExceedsOrNewDayBegins m k}" "io_ok io"
    "file_refines mode st L" "length (lg_active L) + length bytes < 2 ^ 64"
    "file_write io bytes st = (s', fs')"
  shows "\<exists>c. fs' (fk_path s') = Some c \<and> length c + length (fk_buf s') \<le> max (unat m) (length bytes)"
  using assms(1)
proof (elim insertE emptyE)
  assume "mode = FileSizeExceeds m k"
  with by_size.file_write_bounded assms show ?thesis by blast
next
  assume "mode = FileSizeExceedsOrNewDayBegins m k"
  with by_size_or_day.file_write_bounded assms show ?thesis by blast
qed

theorem active_file_size_bounded_witness:
  "\<exists>s' fs' c. file_write plain_io ''abcd''
       (file_sink_new plain_io ''log'' (Some (FileSizeExceeds 3 2)) (\<lambda>_. None)) = (s', fs') \<and>
     fs' (fk_path s') = Some c \<and> length c + length (fk_buf s') \<le> 4"
proof -
  obtain s' fs' where w: "file_write plain_io ''abcd''
       (file_sink_new plain_io ''log'' (Some (FileSizeExceeds 3 2)) (\<lambda>_. None)) = (s', fs')"
    by fastforce
  from active_file_size_bounded [OF _ plain_io_ok fresh_refines _ w, of 3 2] w show ?thesis
    by (auto simp: fresh_log_def)
qed

subsection \<open>Footprint and failures\<close>

definition own_file :: "file_sink \<Rightarrow> path \<Rightarrow> bool" where
  "own_file s q \<longleftrightarrow> q = fk_path s \<or> (\<exists>i \<ge> 1. q = archive (fk_path s) i \<and>
     int i \<le> (case fk_rotation s of Some m \<Rightarrow> max_archived_files m | None \<Rightarrow> 0))"

lemma ofs_frame:
  assumes "q \<noteq> fk_path (fst st)"
  shows "snd (ofs_open io md st) q = snd st q" "snd (ofs_sync n st) q = snd st q"
    "snd (ofs_close st) q = snd st q" "snd (ofs_write io bytes st) q = snd st q"
    "snd (ofs_flush st) q = snd st q"
  using assms by (cases st; simp add: ofs_defs)+

lemma ofs_keeps:
  "fk_path (fst (ofs_open io md st)) = fk_path (fst st)"
  "fk_rotation (fst (ofs_open io md st)) = fk_rotation (fst st)"
  "fk_path (fst (ofs_close st)) = fk_path (fst st)"
  "fk_rotation (fst (ofs_close st)) = fk_rotation (fst st)"
  by (cases st; simp add: ofs_defs)+

lemma rename_frame: "q \<noteq> a \<Longrightarrow> q \<noteq> b \<Longrightarrow> rename_if_exists io a b fs q = fs q"
  by (simp add: rename_if_exists_def)

lemma shift_frame:
  "\<forall>i \<in> {1..Suc n}. q \<noteq> archive p i \<Longrightarrow> shift_loop io p n fs q = fs q"
proof (induction n arbitrary: fs)
  case (Suc n)
  then have "shift_loop io p n fs' q = fs' q" for fs' by simp
  moreover have "q \<noteq> archive p (Suc n)" "q \<noteq> archive p (Suc n + 1)" using Suc.prems by auto
  ultimately show ?case by (simp add: rename_frame)
qed simp

lemma rotate_files_frame: "\<not> own_file s q \<Longrightarrow> rotate_files io s fs q = fs q"
proof -
  assume no: "\<not> own_file s q"
  let ?keep = "case fk_rotation s of Some m \<Rightarrow> max_archived_files m | None \<Rightarrow> 0"
  show ?thesis
  proof (cases "?keep \<le> 0")
    case True
    then show ?thesis by (simp add: rotate_files_def)
  next
    case False
    have ne: "q \<noteq> archive (fk_path s) i" if "1 \<le> i" "i \<le> Suc (nat (?keep - 1))" for i
      using no that False by (auto simp: own_file_def)
    moreover have "q \<noteq> fk_path s" using no by (simp add: own_file_def)
    ultimately show ?thesis using False
      by (simp add: rotate_files_def Let_def rename_frame shift_frame)
  qed
qed

lemma open_if_needed_frame:
  "q \<noteq> fk_path (fst st) \<Longrightarrow> snd (open_if_needed io st) q = snd st q"
  "fk_path (fst (open_if_needed io st)) = fk_path (fst st)"
  "fk_rotation (fst (open_if_needed io st)) = fk_rotation (fst st)"
  by (cases st; simp add: open_if_needed_def ofs_open_def)+

lemma own_file_cong:
  "fk_path s = fk_path s' \<Longrightarrow> fk_rotation s = fk_rotation s' \<Longrightarrow> own_file s q = own_file s' q"
  by (simp add: own_file_def)

lemma rotate_if_needed_frame:
  assumes "\<not> own_file (fst st) q"
  shows "snd (rotate_if_needed io n st) q = snd st q"
    "fk_path (fst (rotate_if_needed io n st)) = fk_path (fst st)"
proof -
  obtain s fs where st: "st = (s, fs)" by (cases st)
  obtain s1 fs1 where c: "ofs_close (s, fs) = (s1, fs1)" by (cases "ofs_close (s, fs)")
  have q: "q \<noteq> fk_path s" using assms st by (simp add: own_file_def)
  have s1: "fk_path s1 = fk_path s" "fk_rotation s1 = fk_rotation s"
    using ofs_keeps(3,4) [of "(s, fs)"] by (simp_all add: c)
  have "\<not> own_file s1 q" using assms own_file_cong [OF s1] by (simp add: st)
  moreover have "fs1 q = fs q" using ofs_frame(3) [of q "(s, fs)"] q by (simp add: c)
  ultimately have "rotate_files io s1 fs1 q = fs q" by (simp add: rotate_files_frame)
  then show "snd (rotate_if_needed io n st) q = snd st q"
    "fk_path (fst (rotate_if_needed io n st)) = fk_path (fst st)"
    using q s1 by (auto simp: st rotate_if_needed_def c Let_def ofs_open_def split: option.split)
qed

text \<open>
  Whatever the environment does, a write touches no file other than the sink's own path
  and its archives numbered from 1 to the mode's limit.
\<close>

theorem file_write_footprint:
  assumes "\<not> own_file (fst st) q"
  shows "snd (file_write io bytes st) q = snd st q"
proof -
  let ?st1 = "if \<not> fk_open (fst st) then open_if_needed io st else st"
  have q: "q \<noteq> fk_path (fst st)" using assms by (simp add: own_file_def)
  have st1: "snd ?st1 q = snd st q" "fk_path (fst ?st1) = fk_path (fst st)"
    "fk_rotation (fst ?st1) = fk_rotation (fst st)"
    using open_if_needed_frame(1) [of q st io] open_if_needed_frame(2,3) [of io st] q by auto
  have "\<not> own_file (fst ?st1) q" using assms own_file_cong [OF st1(2,3)] by simp
  note rot = rotate_if_needed_frame [OF this, of io "of_nat (length bytes)"]
  have "snd (ofs_write io bytes st2) q = snd st2 q" if "q \<noteq> fk_path (fst st2)" for st2
    by (rule ofs_frame(4) [OF that])
  then have "snd (ofs_write io bytes (rotate_if_needed io (of_nat (length bytes)) ?st1)) q = snd st q"
    using rot st1 q by simp
  then show ?thesis using st1 by (simp add: file_write_def Let_def split_beta)
qed

theorem file_write_footprint_witness:
  "snd (file_write plain_io ''x'' (file_sink_new plain_io ''log'' None (\<lambda>_. None))) ''log.9''
   = snd (file_sink_new plain_io ''log'' None (\<lambda>_. None)) ''log.9''"
proof (rule file_write_footprint)
  have "i = 9" if "''9'' = dec i" for i
  proof -
    have "undec ''9'' = i" by (simp only: that undec_dec)
    then show ?thesis by (simp add: undec_def)
  qed
  then show "\<not> own_file (fst (file_sink_new plain_io ''log'' None (\<lambda>_. None))) ''log.9''"
    by (fastforce simp: file_sink_new_def open_if_needed_def ofs_open_def plain_io_def own_file_def
        archive_def)
qed

lemma rotate_keeps_open:
  assumes "io_ok io" "fk_open s" "\<not> fk_fail s" "fk_rotation s = Some mode" "fs (fk_path s) = Some c"
    "rotate_if_needed io n (s, fs) = (s', fs')"
  shows "fk_open s'" "\<not> fk_fail s'" "fk_path s' = fk_path s" "\<exists>c'. fs' (fk_path s) = Some c'"
proof -
  have can: "io_can_open io q" for q using assms(1) by (simp add: io_ok_def)
  show "fk_open s'" "\<not> fk_fail s'" "fk_path s' = fk_path s" "\<exists>c'. fs' (fk_path s) = Some c'"
    using assms(2-6)
    by (auto simp: rotate_if_needed_def ofs_close_def ofs_sync_def ofs_open_def Let_def can
        split: if_splits)
qed

text \<open>
  A sink whose file cannot be opened reports so through \<open>ok()\<close>, drops the record and leaves
  the file system alone; it tries again at the next write, and once the file can be opened the
  record of that write is in the file.
\<close>

theorem file_write_recovers:
  assumes "\<not> fk_open s" "\<not> io_can_open io (fk_path s)" "io_ok io2" "fk_rotation s = Some mode"
    "file_write io bytes (s, fs) = (s', fs')" "file_write io2 bytes2 (s', fs') = (s2, fs2)"
  shows "\<not> file_ok s' \<and> fs' = fs \<and> file_ok s2 \<and>
    (\<exists>before c. fs2 (fk_path s) = Some c \<and> c @ fk_buf s2 = before @ bytes2)"
proof -
  have s': "fk_fail s'" "\<not> fk_open s'" "fk_path s' = fk_path s" "fk_rotation s' = Some mode" "fs' = fs"
    using assms(1,2,4,5) by (auto simp: file_write_def open_if_needed_def ofs_open_def)
  have can: "io_can_open io2 q" for q using assms(3) by (simp add: io_ok_def)
  obtain s3 fs3 where o: "open_if_needed io2 (s', fs') = (s3, fs3)"
    by (cases "open_if_needed io2 (s', fs')")
  then have s3: "fk_open s3" "\<not> fk_fail s3" "fk_path s3 = fk_path s" "fk_rotation s3 = Some mode"
    "\<exists>c. fs3 (fk_path s3) = Some c"
    using s' by (auto simp: open_if_needed_def ofs_open_def can)
  obtain s4 fs4 where r: "rotate_if_needed io2 (of_nat (length bytes2)) (s3, fs3) = (s4, fs4)"
    by (cases "rotate_if_needed io2 (of_nat (length bytes2)) (s3, fs3)")
  from s3(5) rotate_keeps_open [OF assms(3) s3(1,2,4) _ r]
  obtain c4 where s4: "fk_open s4" "\<not> fk_fail s4" "fk_path s4 = fk_path s" "fs4 (fk_path s4) = Some c4"
    using s3(3) by auto
  obtain s5 fs5 where w: "ofs_write io2 bytes2 (s4, fs4) = (s5, fs5)"
    by (cases "ofs_write io2 bytes2 (s4, fs4)")
  note app = ofs_write_appends [OF s4(1,2,4) w]
  have "s2 = s5\<lparr>fk_current_size := fk_current_size s5 + of_nat (length bytes2)\<rparr>" "fs2 = fs5"
    using assms(6) s' s3 o r w by (simp_all add: file_write_def Let_def)
  with app s' s4(3) show ?thesis
    by (auto simp: file_ok_def)
qed

definition closed_sink :: file_sink where
  "closed_sink = \<lparr>fk_path = ''log'', fk_rotation = Some Never, fk_opened_day = [],
     fk_current_size = 0, fk_open = False, fk_fail = True, fk_buf = []\<rparr>"

theorem file_write_recovers_witness:
  "\<exists>s' fs'. file_write (plain_io\<lparr>io_can_open := (\<lambda>_. False)\<rparr>) ''a'' (closed_sink, \<lambda>_. None) = (s', fs') \<and>
     \<not> file_ok s' \<and> file_ok (fst (file_write plain_io ''b'' (s', fs')))"
proof -
  let ?io = "plain_io\<lparr>io_can_open := (\<lambda>_. False)\<rparr>"
  obtain s' fs' where a: "file_write ?io ''a'' (closed_sink, \<lambda>_. None) = (s', fs')" by fastforce
  obtain s2 fs2 where b: "file_write plain_io ''b'' (s', fs') = (s2, fs2)" by fastforce
  from file_write_recovers [OF _ _ plain_io_ok _ a b] have "\<not> file_ok s' \<and> file_ok s2"
    by (simp add: closed_sink_def)
  with a b show ?thesis by auto
qed

text \<open>
  C40. The error codes of the renames are ignored: when a rotation cannot rename the active
  file, the file is truncated all the same, so its contents are lost although no archive
  received them.
\<close>

theorem failed_rename_discards_log:
  assumes "fk_open s" "\<not> fk_fail s" "fk_rotation s = Some mode" "fs (fk_path s) = Some c"
    "should_rotate mode \<lparr>rx_current_size = fk_current_size s, rx_incoming_bytes = of_nat (length bytes),
       rx_opened_day = fk_opened_day s, rx_today = today io\<rparr>"
    "\<forall>q. io_can_open io q" "\<forall>a b. \<not> io_can_rename io a b"
    "file_write io bytes (s, fs) = (s', fs')"
  shows "(\<exists>c'. fs' (fk_path s) = Some c' \<and> c' @ fk_buf s' = bytes) \<and>
    (\<forall>q. q \<noteq> fk_path s \<longrightarrow> fs' q = fs q)"
proof -
  have ren: "rename_if_exists io a b fs = fs" for a b fs
    using assms(7) by (simp add: rename_if_exists_def)
  have loop: "shift_loop io p n fs = fs" for p n fs
    by (induction n arbitrary: fs) (simp_all add: ren)
  have rot: "rotate_files io s0 fs0 = fs0" for s0 fs0
    by (simp add: rotate_files_def Let_def ren loop)
  show ?thesis
    using assms(1-6,8)
    by (auto simp: file_write_def rotate_if_needed_def ofs_close_def ofs_sync_def ofs_open_def
        ofs_write_def rot Let_def)
qed

theorem failed_rename_discards_log_witness:
  "let st = file_sink_new plain_io ''log'' (Some (FileSizeExceeds 3 2)) (\<lambda>_. Some ''abc'');
       st' = file_write (plain_io\<lparr>io_can_rename := (\<lambda>_ _. False)\<rparr>) ''d'' st
   in (\<exists>c'. snd st' ''log'' = Some c' \<and> c' @ fk_buf (fst st') = ''d'')"
proof -
  let ?st = "file_sink_new plain_io ''log'' (Some (FileSizeExceeds 3 2)) (\<lambda>_. Some ''abc'')"
  let ?io = "plain_io\<lparr>io_can_rename := (\<lambda>_ _. False)\<rparr>"
  obtain s fs where st: "?st = (s, fs)" by (cases ?st)
  obtain s' fs' where w: "file_write ?io ''d'' (s, fs) = (s', fs')" by fastforce
  have s: "fk_open s" "\<not> fk_fail s" "fk_rotation s = Some (FileSizeExceeds 3 2)"
    "fs (fk_path s) = Some ''abc''" "fk_current_size s = 3" "fk_path s = ''log''"
    using st by (auto simp: file_sink_new_def open_if_needed_def ofs_open_def plain_io_def
        file_size_or_zero_def)
  from failed_rename_discards_log [OF s(1-4) _ _ _ w] s
  have "\<exists>c'. fs' ''log'' = Some c' \<and> c' @ fk_buf s' = ''d''"
    by (simp add: size_exceeds_def plain_io_def)
  with st w show ?thesis by (simp add: Let_def)
qed

end
