(* ===== verification/Sinks.thy ===== *)
theory Sinks
  imports Routes File_Sink
begin

section \<open>Sinks\<close>

text \<open>
  \<open>ISink\<close> as a contract: what a sink holds after a write is the end of what it held followed by the
  bytes, and a flush changes nothing in that (locale \<open>sink_log\<close>); a sink that never drops its past
  extends it (\<open>lossless_sink\<close>). The console sink (\<open>src/sinks/console_sink.cpp\<close>) and the rotating file
  sink are shown to keep it, and what the dispatchers produce, a sequence of effects, is applied
  to them.
\<close>

subsection \<open>The console sink\<close>

text \<open>A \<open>FILE*\<close>: what has left the process and what is still buffered.\<close>

record stream =
  sm_out :: string
  sm_buf :: string

record streams =
  std_out :: stream
  std_err :: stream

definition fwrite :: "nat \<Rightarrow> string \<Rightarrow> stream \<Rightarrow> stream" where
  "fwrite n bytes f =
     (let pending = sm_buf f @ bytes
      in \<lparr>sm_out = sm_out f @ take n pending, sm_buf = drop n pending\<rparr>)"

definition fflush :: "stream \<Rightarrow> stream" where
  "fflush f = \<lparr>sm_out = sm_out f @ sm_buf f, sm_buf = []\<rparr>"

definition console_write :: "bool \<Rightarrow> nat \<Rightarrow> string \<Rightarrow> streams \<Rightarrow> streams" where
  "console_write use_stderr n bytes ss =
     (if use_stderr then ss\<lparr>std_err := fwrite n bytes (std_err ss)\<rparr>
      else ss\<lparr>std_out := fwrite n bytes (std_out ss)\<rparr>)"

definition console_flush :: "bool \<Rightarrow> streams \<Rightarrow> streams" where
  "console_flush use_stderr ss =
     (if use_stderr then ss\<lparr>std_err := fflush (std_err ss)\<rparr>
      else ss\<lparr>std_out := fflush (std_out ss)\<rparr>)"

definition console_text :: "bool \<Rightarrow> streams \<Rightarrow> string" where
  "console_text use_stderr ss =
     (let f = if use_stderr then std_err ss else std_out ss in sm_out f @ sm_buf f)"

subsection \<open>Effects on one sink\<close>

text \<open>The environment may differ from call to call: the write takes the number of the call.\<close>

fun apply_effects ::
  "(nat \<Rightarrow> string \<Rightarrow> 's \<Rightarrow> 's) \<Rightarrow> ('s \<Rightarrow> 's) \<Rightarrow> sink_id \<Rightarrow> nat \<Rightarrow> effect list \<Rightarrow> 's \<Rightarrow> 's" where
  "apply_effects wr fl s n [] st = st"
| "apply_effects wr fl s n (SinkWrite t b # es) st =
     apply_effects wr fl s (Suc n) es (if t = s then wr n b st else st)"
| "apply_effects wr fl s n (SinkFlush t # es) st =
     apply_effects wr fl s (Suc n) es (if t = s then fl st else st)"
| "apply_effects wr fl s n (StderrWrite b # es) st = apply_effects wr fl s (Suc n) es st"

locale sink_log =
  fixes wr :: "nat \<Rightarrow> string \<Rightarrow> 's \<Rightarrow> 's" and fl :: "'s \<Rightarrow> 's" and holds :: "'s \<Rightarrow> string \<Rightarrow> bool"
  assumes write_log: "holds st t \<Longrightarrow> \<exists>lost t'. holds (wr n b st) t' \<and> lost @ t' = t @ b"
    and flush_log: "holds st t \<Longrightarrow> holds (fl st) t"
begin

lemma effects_log:
  "holds st t \<Longrightarrow>
   \<exists>lost t'. holds (apply_effects wr fl s n es st) t' \<and> lost @ t' = t @ sink_bytes s es"
proof (induction es arbitrary: n st t)
  case Nil
  then show ?case by (intro exI [of _ "[]"] exI [of _ t]) simp
next
  case (Cons e es)
  show ?case
  proof (cases "\<exists>b. e = SinkWrite s b")
    case True
    then obtain b where e: "e = SinkWrite s b" by blast
    from write_log [OF Cons.prems, of n b] obtain l1 t1 where
      1: "holds (wr n b st) t1" "l1 @ t1 = t @ b" by blast
    from Cons.IH [OF 1(1), of "Suc n"] obtain l2 t2 where
      2: "holds (apply_effects wr fl s (Suc n) es (wr n b st)) t2" "l2 @ t2 = t1 @ sink_bytes s es"
      by blast
    have "(l1 @ l2) @ t2 = t @ b @ sink_bytes s es"
      using 1(2) 2(2) by (metis append.assoc)
    with 2(1) e show ?thesis by (intro exI [of _ "l1 @ l2"] exI [of _ t2]) simp
  next
    case False
    have "\<exists>st'. holds st' t \<and> apply_effects wr fl s n (e # es) st = apply_effects wr fl s (Suc n) es st'
        \<and> effect_bytes s e = []"
      using False Cons.prems flush_log by (cases e) auto
    with Cons.IH show ?thesis by fastforce
  qed
qed

end

locale lossless_sink = sink_log +
  assumes write_all: "holds st t \<Longrightarrow> holds (wr n b st) (t @ b)"
begin

lemma effects_all:
  "holds st t \<Longrightarrow> holds (apply_effects wr fl s n es st) (t @ sink_bytes s es)"
proof (induction es arbitrary: n st t)
  case (Cons e es)
  from Cons.IH [OF write_all [OF Cons.prems]] Cons.IH [OF flush_log [OF Cons.prems]]
    Cons.IH [OF Cons.prems]
  show ?case by (cases e) auto
qed simp

end

lemma fwrite_text: "sm_out (fwrite n b f) @ sm_buf (fwrite n b f) = sm_out f @ sm_buf f @ b"
  by (simp add: fwrite_def Let_def del: take_append drop_append)

lemma console_write_text [simp]:
  "console_text u (console_write u n b ss) = console_text u ss @ b"
  "console_text u (console_flush u ss) = console_text u ss"
  by (simp_all add: console_write_def console_flush_def console_text_def fwrite_text fflush_def Let_def)

interpretation console: lossless_sink "\<lambda>n. console_write use_stderr (spill n)"
    "console_flush use_stderr" "\<lambda>ss t. console_text use_stderr ss = t" for use_stderr spill
  by unfold_locales auto

definition file_holds ::
  "rotation_mode \<Rightarrow> file_sink \<times> file_system \<Rightarrow> string \<Rightarrow> bool" where
  "file_holds mode st t \<longleftrightarrow> (\<exists>L. file_refines mode st L \<and> log_contents L = t)"

lemma file_flush_refines:
  assumes "file_refines mode st L"
  shows "file_refines mode (file_flush st) L"
    "snd (file_flush st) (fk_path (fst st)) = Some (lg_active L)"
proof -
  obtain s fs where st: "st = (s, fs)" by (cases st)
  have "holds_archives (fk_path s) (keep_of mode) (fs(fk_path s := c)) (lg_archives L)" for c
    using assms st by (auto simp: file_refines_def holds_archives_def)
  with assms st show "file_refines mode (file_flush st) L"
    "snd (file_flush st) (fk_path (fst st)) = Some (lg_active L)"
    by (auto simp: file_refines_def file_flush_def ofs_flush_def ofs_sync_def)
qed

lemma file_write_holds:
  assumes "io_ok io" "file_holds mode st t"
  shows "\<exists>lost t'. file_holds mode (file_write io b st) t' \<and> lost @ t' = t @ b"
    "mode = Never \<Longrightarrow> file_holds mode (file_write io b st) (t @ b)"
proof -
  obtain L where L: "file_refines mode st L" "log_contents L = t"
    using assms(2) by (auto simp: file_holds_def)
  note step = file_write_step [OF assms(1) L(1), of b]
  show "\<exists>lost t'. file_holds mode (file_write io b st) t' \<and> lost @ t' = t @ b"
    using step spec_write_contents [of mode "today io" b L] L(2) by (auto simp: file_holds_def)
  show "file_holds mode (file_write io b st) (t @ b)" if "mode = Never"
    using step that L(2) spec_run_never_contents [of "[(io, b)]" L] by (auto simp: file_holds_def)
qed

text \<open>The environment of each call is part of the file system's good behaviour here.\<close>

interpretation file_log: sink_log "\<lambda>n. file_write (ios n)" file_flush
    "\<lambda>st t. (\<forall>n. io_ok (ios n)) \<and> file_holds mode st t" for ios mode
proof (unfold_locales, goal_cases)
  case (1 st t n b)
  then show ?case using file_write_holds(1) by blast
next
  case (2 st t)
  then show ?case using file_flush_refines(1) [of mode st] by (auto simp: file_holds_def)
qed

interpretation plain_file: lossless_sink "\<lambda>n. file_write (ios n)" file_flush
    "\<lambda>st t. (\<forall>n. io_ok (ios n)) \<and> file_holds Never st t" for ios
  by unfold_locales (use file_write_holds(2) in blast)

text \<open>
  Console sinks neither lose nor reorder: whatever a dispatcher produces, and whenever the C
  library passes bytes on, the text of the stream is what it was followed by exactly the bytes
  written to this sink; after a final flush all of it has left the process.
\<close>

theorem console_receives_all:
  "console_text use_stderr (apply_effects (\<lambda>n. console_write use_stderr (spill n))
       (console_flush use_stderr) s n es ss) = console_text use_stderr ss @ sink_bytes s es \<and>
   (let f = (if use_stderr then std_err else std_out) (console_flush use_stderr
       (apply_effects (\<lambda>n. console_write use_stderr (spill n)) (console_flush use_stderr) s n es ss))
    in sm_out f = console_text use_stderr ss @ sink_bytes s es \<and> sm_buf f = [])"
proof -
  let ?ss = "apply_effects (\<lambda>n. console_write use_stderr (spill n)) (console_flush use_stderr) s n es ss"
  have all: "console_text use_stderr ?ss = console_text use_stderr ss @ sink_bytes s es"
    by (rule console.effects_all) simp
  have "(let f = (if use_stderr then std_err else std_out) (console_flush use_stderr ss')
      in sm_out f = console_text use_stderr ss' \<and> sm_buf f = [])" for ss'
    by (simp add: console_flush_def console_text_def fflush_def Let_def)
  from this [of ?ss] all show ?thesis by simp
qed

text \<open>
  A file sink, with any rotation mode and a clock that moves between the calls, holds the end of
  what it held followed by exactly the bytes written to it; without rotation it holds all of it.
\<close>

theorem file_sink_receives_all:
  assumes "\<forall>n. io_ok (ios n)" "file_refines mode st L"
  shows "\<exists>L' lost. file_refines mode
       (file_flush (apply_effects (\<lambda>n. file_write (ios n)) file_flush s n es st)) L' \<and>
     lost @ log_contents L' = log_contents L @ sink_bytes s es \<and> (mode = Never \<longrightarrow> lost = [])"
proof -
  have h: "(\<forall>n. io_ok (ios n)) \<and> file_holds mode st (log_contents L)"
    using assms by (auto simp: file_holds_def)
  show ?thesis
  proof (cases "mode = Never")
    case True
    with plain_file.effects_all [of ios st "log_contents L" s n es] h
    obtain L' where "file_refines mode (apply_effects (\<lambda>n. file_write (ios n)) file_flush s n es st) L'"
      "log_contents L' = log_contents L @ sink_bytes s es" by (auto simp: file_holds_def)
    then show ?thesis using file_flush_refines(1) by fastforce
  next
    case False
    from file_log.effects_log [OF h, of s n es]
    obtain L' lost where "file_refines mode (apply_effects (\<lambda>n. file_write (ios n)) file_flush s n es st) L'"
      "lost @ log_contents L' = log_contents L @ sink_bytes s es" by (auto simp: file_holds_def)
    then show ?thesis using file_flush_refines(1) False by blast
  qed
qed

theorem file_sink_receives_all_witness:
  "\<exists>L' lost. file_refines (FileSizeExceeds 3 2)
     (file_flush (apply_effects (\<lambda>_. file_write plain_io) file_flush 0 0
        [SinkWrite 0 ''ab'', SinkFlush 0, SinkWrite 1 ''x'', SinkWrite 0 ''cd'']
        (file_sink_new plain_io ''log'' (Some (FileSizeExceeds 3 2)) (\<lambda>_. None)))) L' \<and>
     lost @ log_contents L' = ''abcd''"
  using file_sink_receives_all [OF _ fresh_refines, of "\<lambda>_. plain_io" "FileSizeExceeds 3 2" 0 0
      "[SinkWrite 0 ''ab'', SinkFlush 0, SinkWrite 1 ''x'', SinkWrite 0 ''cd'']"]
  by (simp add: plain_io_ok fresh_log_def log_contents_def)

text \<open>The same for any list of effects, with the log as the state.\<close>

lemma file_takes_effects:
  assumes "\<forall>n. io_ok (ios n)" "file_refines mode st L"
  shows "\<exists>L' lost. file_refines mode (apply_effects (\<lambda>n. file_write (ios n)) file_flush s n es st) L' \<and>
     lost @ log_contents L' = log_contents L @ sink_bytes s es \<and> (mode = Never \<longrightarrow> lost = [])"
proof (cases "mode = Never")
  case True
  with plain_file.effects_all [of ios st "log_contents L" s n es] assms show ?thesis
    by (fastforce simp: file_holds_def)
next
  case False
  with file_log.effects_log [of ios mode st "log_contents L" s n es] assms show ?thesis
    by (fastforce simp: file_holds_def)
qed

end
