(* ===== verification/Process_Exit.thy ===== *)
theory Process_Exit
  imports Lifecycle Sinks
begin

section \<open>The end of the process\<close>

text \<open>
  The destructors. \<open>Pipeline::instance\<close> is a static object, destroyed when the program ends: its
  destructor closes it, and then the crossbar in its \<open>Impl\<close> is destroyed, whose destructor is
  \<open>request_stop\<close>. The destructor of a file sink closes its stream. A new process starts with the
  files the last one left.
\<close>

subsection \<open>The pipeline\<close>

definition crossbar_destroy ::
  "platform \<Rightarrow> filter_store \<Rightarrow> 'q workers \<Rightarrow> nat list \<Rightarrow> 'q crossbar \<Rightarrow> effect list option" where
  "crossbar_destroy P fs W sched x = map_option fst (crossbar_request_stop P fs W sched x)"

definition pipeline_destroy ::
  "platform \<Rightarrow> filter_store \<Rightarrow> 'q workers \<Rightarrow> nat list \<Rightarrow> 'q pipeline \<Rightarrow> effect list option" where
  "pipeline_destroy P fs W sched p =
     do {
       r \<leftarrow> close P fs W sched p;
       es \<leftarrow> (case pl_crossbar (snd r) of
               None \<Rightarrow> Some []
             | Some x \<Rightarrow> crossbar_destroy P fs W [] x);
       Some (fst r @ es)
     }"

lemma destroy_closed:
  assumes "pipeline_ok fs items closed p" "\<not> pl_running p" "pl_crossbar p = Some x"
  shows "crossbar_destroy P fs W sched x = Some []"
proof -
  have "\<forall>l \<in> set (xb_lanes x). ln_worker l = NoThread"
    using assms by (auto simp: pipeline_simps crossbar_ok_def)
  from stop_lanes_idle [OF this, of P fs W sched False] show ?thesis
    by (auto simp: crossbar_destroy_def crossbar_request_stop_def)
qed

lemma destroy_is_close:
  assumes "close P fs W sched p = Some (es, p')" "pipeline_ok fs items closed p'" "\<not> pl_running p'"
  shows "pipeline_destroy P fs W sched p = Some es"
proof -
  obtain x where "pl_crossbar p' = Some x" using assms(2) by (rule pipeline_okE)
  with destroy_closed [OF assms(2,3) this, of P W "[]"] assms(1) show ?thesis
    by (simp add: pipeline_destroy_def)
qed



subsection \<open>The file sink\<close>

text \<open>The default destructor destroys the stream, which writes out its buffer and closes the file.\<close>

definition file_sink_destroy :: "file_sink \<times> file_system \<Rightarrow> file_system" where
  "file_sink_destroy st = (if fk_open (fst st) then snd (ofs_close st) else snd st)"

lemma file_sink_destroy_files:
  assumes "file_refines mode st L"
  shows "file_sink_destroy st (fk_path (fst st)) = Some (lg_active L)"
    "holds_archives (fk_path (fst st)) (keep_of mode) (file_sink_destroy st) (lg_archives L)"
  using assms
  by (auto simp: file_sink_destroy_def file_refines_def ofs_close_def ofs_sync_def holds_archives_def
      split: prod.splits)

text \<open>
  C24. A log survives the end of the process: destroying the file sink and opening one with the same
  path and mode, in another process at another time, gives a sink that holds exactly the log there
  was, archives included, buffered bytes included. Only the day is the day of the new opening, so a mode
  that rotates when a new day begins does not rotate what earlier processes wrote on earlier days:
  the next write of that day goes behind it.
\<close>

theorem restart_keeps_log:
  assumes "file_refines mode st L" "io_can_open io (fk_path (fst st))"
  shows "file_refines mode (file_sink_new io (fk_path (fst st)) (Some mode) (file_sink_destroy st))
      (L\<lparr>lg_day := today io\<rparr>) \<and>
    (\<forall>io' b k. io_ok io' \<and> today io' = today io \<and> mode = NewDayBegins k \<longrightarrow>
      file_refines mode
        (file_write io' b (file_sink_new io (fk_path (fst st)) (Some mode) (file_sink_destroy st)))
        (L\<lparr>lg_day := today io, lg_active := lg_active L @ b\<rparr>))"
proof -
  let ?st = "file_sink_new io (fk_path (fst st)) (Some mode) (file_sink_destroy st)"
  let ?L = "L\<lparr>lg_day := today io\<rparr>"
  note f = file_sink_destroy_files [OF assms(1)]
  have L: "?L = \<lparr>lg_active = lg_active L, lg_archives = lg_archives L, lg_day = today io\<rparr>" by (cases L) simp
  have new: "file_refines mode ?st ?L"
    using file_sink_new_refines [OF assms(2) f(2)] f(1) unfolding L by simp
  have "file_refines mode (file_write io' b ?st) (L\<lparr>lg_day := today io, lg_active := lg_active L @ b\<rparr>)"
    if "io_ok io'" "today io' = today io" "mode = NewDayBegins k" for io' b k
  proof -
    have "\<not> spec_rotates mode (today io') b ?L"
      using that(2,3) by (simp add: spec_rotates_def day_changed_def)
    then have "spec_write mode (today io') b ?L = L\<lparr>lg_day := today io, lg_active := lg_active L @ b\<rparr>"
      by (simp add: spec_write_def)
    with file_write_step [OF that(1) new, of b] show ?thesis by simp
  qed
  with new show ?thesis by blast
qed

theorem restart_keeps_log_witness:
  "file_refines (NewDayBegins 5)
     (file_write plain_io ''b'' (file_sink_new plain_io ''log'' (Some (NewDayBegins 5))
       (file_sink_destroy (file_write plain_io ''a''
         (file_sink_new plain_io ''log'' (Some (NewDayBegins 5)) (\<lambda>_. None))))))
     ((fresh_log (today plain_io))\<lparr>lg_active := ''ab''\<rparr>)"
proof -
  let ?st = "file_write plain_io ''a'' (file_sink_new plain_io ''log'' (Some (NewDayBegins 5)) (\<lambda>_. None))"
  let ?L = "spec_write (NewDayBegins 5) (today plain_io) ''a'' (fresh_log (today plain_io))"
  have st: "file_refines (NewDayBegins 5) ?st ?L"
    by (rule file_write_step [OF plain_io_ok fresh_refines])
  have "?L = (fresh_log (today plain_io))\<lparr>lg_active := ''a''\<rparr>"
    by (simp add: spec_write_def spec_rotates_def day_changed_def fresh_log_def)
  moreover have "fk_path (fst ?st) = ''log''" by code_simp
  ultimately show ?thesis
    using restart_keeps_log [OF st] plain_io_ok by (auto simp: fresh_log_def plain_io_def io_ok_def)
qed

end
