(* ===== verification/Queue_Threads.thy ===== *)
theory Queue_Threads
  imports Event_Queue
begin

section \<open>The event queue under concurrency\<close>

text \<open>
  The same queue, one atomic action at a time: producers in \<open>try_push\<close> or \<open>push_blocking\<close>, workers
  in \<open>lane_loop_\<close> and a thread that closes the pipeline share the count \<open>size_\<close>, the Workers queue
  (whose operations are atomic), the flag \<open>accepting\<close>, the mutex \<open>space_m_\<close> and the condition
  variable \<open>cv_space_\<close>. A program point of a thread says what it does next and holds its local
  variables. \<open>compare_exchange_weak\<close> may fail for no reason. Waiting on the condition variable first
  evaluates the predicate (two loads) under the mutex, then goes to sleep and gives the mutex up in
  one action; nothing keeps a notification from arriving in between. The two histories of accepted
  and of taken events are ghosts.
\<close>

datatype pc =
    Load event \<comment> \<open>\<open>push_blocking\<close>: head of the loop\<close>
  | Reserve bool event \<comment> \<open>\<open>reserve_slot_\<close>, the flag: from \<open>push_blocking\<close>\<close>
  | Cas bool event size_t
  | Push bool event \<comment> \<open>a slot is reserved\<close>
  | Undo bool event \<comment> \<open>the push failed: \<open>release_slot_\<close>\<close>
  | UndoNotify bool event
  | Lock event
  | PredAccepting event \<comment> \<open>the wait's predicate, holding \<open>space_m_\<close>\<close>
  | PredSize event
  | Sleepy event \<comment> \<open>the predicate was false\<close>
  | Asleep event
  | Done bool
  | Pop bool \<comment> \<open>a worker; the flag: in the draining loop\<close>
  | Release bool event \<comment> \<open>an event was taken: \<open>release_slot_\<close>\<close>
  | ReleaseNotify bool event
  | PopDone
  | StopAccepting \<comment> \<open>the thread that closes\<close>
  | CloseQueue
  | NotifyAll
  | StopWorker
  | StopDone

record 'q shared =
  sh_size :: size_t
  sh_inner :: 'q
  sh_accepting :: bool
  sh_mutex :: bool
  sh_drain :: bool
  sh_stop :: bool
  sh_pushed :: "event list"
  sh_popped :: "event list"

text \<open>Actions of one thread that leave the others where they are.\<close>

inductive local_step ::
  "'q workers \<Rightarrow> size_t \<Rightarrow> 'q shared \<times> pc \<Rightarrow> 'q shared \<times> pc \<Rightarrow> bool"
  for W :: "'q workers" and capacity :: size_t where
  load: "sh_accepting s \<Longrightarrow> local_step W capacity (s, Load e) (s, Reserve True e)"
| load_refused: "\<not> sh_accepting s \<Longrightarrow> local_step W capacity (s, Load e) (s, Done False)"
| reserve: "sh_size s < capacity \<Longrightarrow>
    local_step W capacity (s, Reserve b e) (s, Cas b e (sh_size s))"
| reserve_full: "\<not> sh_size s < capacity \<Longrightarrow>
    local_step W capacity (s, Reserve b e) (s, if b then Lock e else Done False)"
| cas: "sh_size s = n \<Longrightarrow> n < capacity \<Longrightarrow>
    local_step W capacity (s, Cas b e n) (s\<lparr>sh_size := n + 1\<rparr>, Push b e)"
| cas_retry: "sh_size s < capacity \<Longrightarrow>
    local_step W capacity (s, Cas b e n) (s, Cas b e (sh_size s))"
| cas_full: "\<not> sh_size s < capacity \<Longrightarrow>
    local_step W capacity (s, Cas b e n) (s, if b then Lock e else Done False)"
| push: "wk_push W e (sh_inner s) = (True, q) \<Longrightarrow>
    local_step W capacity (s, Push b e)
      (s\<lparr>sh_inner := q, sh_pushed := sh_pushed s @ [e]\<rparr>, Done True)"
| push_closed: "wk_push W e (sh_inner s) = (False, q) \<Longrightarrow>
    local_step W capacity (s, Push b e) (s\<lparr>sh_inner := q\<rparr>, Undo b e)"
| undo: "local_step W capacity (s, Undo b e) (s\<lparr>sh_size := sh_size s - 1\<rparr>, UndoNotify b e)"
| lock: "\<not> sh_mutex s \<Longrightarrow>
    local_step W capacity (s, Lock e) (s\<lparr>sh_mutex := True\<rparr>, PredAccepting e)"
| pred_accepting: "sh_accepting s \<Longrightarrow>
    local_step W capacity (s, PredAccepting e) (s, PredSize e)"
| pred_closed: "\<not> sh_accepting s \<Longrightarrow>
    local_step W capacity (s, PredAccepting e) (s\<lparr>sh_mutex := False\<rparr>, Load e)"
| pred_room: "sh_size s < capacity \<Longrightarrow>
    local_step W capacity (s, PredSize e) (s\<lparr>sh_mutex := False\<rparr>, Load e)"
| pred_full: "\<not> sh_size s < capacity \<Longrightarrow>
    local_step W capacity (s, PredSize e) (s, Sleepy e)"
| sleep: "local_step W capacity (s, Sleepy e) (s\<lparr>sh_mutex := False\<rparr>, Asleep e)"
| pop: "wk_pop W (sh_stop s) (sh_inner s) = (PopOk e, q) \<Longrightarrow>
    local_step W capacity (s, Pop False)
      (s\<lparr>sh_inner := q, sh_popped := sh_popped s @ [e]\<rparr>, Release False e)"
| pop_ended: "wk_pop W (sh_stop s) (sh_inner s) = (PopEnded, q) \<Longrightarrow>
    local_step W capacity (s, Pop False)
      (s\<lparr>sh_inner := q\<rparr>, if \<not> sh_drain s then PopDone else Pop True)"
| drain: "wk_try_pop W (sh_inner s) = (Some e, q) \<Longrightarrow>
    local_step W capacity (s, Pop True)
      (s\<lparr>sh_inner := q, sh_popped := sh_popped s @ [e]\<rparr>, Release True e)"
| drained: "wk_try_pop W (sh_inner s) = (None, q) \<Longrightarrow>
    local_step W capacity (s, Pop True) (s\<lparr>sh_inner := q\<rparr>, PopDone)"
| release: "local_step W capacity (s, Release d e)
    (s\<lparr>sh_size := sh_size s - 1\<rparr>, ReleaseNotify d e)"
| stop_accepting: "local_step W capacity (s, StopAccepting) (s\<lparr>sh_accepting := False\<rparr>, CloseQueue)"
| close_queue: "local_step W capacity (s, CloseQueue)
    (s\<lparr>sh_inner := wk_close W (sh_inner s)\<rparr>, NotifyAll)"
| stop_worker: "local_step W capacity (s, StopWorker) (s\<lparr>sh_stop := True\<rparr>, StopDone)"

text \<open>Notifying: a woken thread goes for the mutex and the predicate again.\<close>

fun after_notify_one :: "pc \<Rightarrow> pc option" where
  "after_notify_one (UndoNotify b e) = Some (Done False)"
| "after_notify_one (ReleaseNotify d e) = Some (Pop d)"
| "after_notify_one _ = None"

fun asleep :: "pc \<Rightarrow> bool" where
  "asleep (Asleep e) = True"
| "asleep _ = False"

fun wake :: "pc \<Rightarrow> pc" where
  "wake (Asleep e) = Lock e"
| "wake p = p"

type_synonym 'q config_state = "'q shared \<times> pc list"

inductive queue_step ::
  "'q workers \<Rightarrow> size_t \<Rightarrow> 'q config_state \<Rightarrow> 'q config_state \<Rightarrow> bool"
  for W :: "'q workers" and capacity :: size_t where
  own: "i < length ps \<Longrightarrow> local_step W capacity (s, ps ! i) (s', p') \<Longrightarrow>
    queue_step W capacity (s, ps) (s', ps[i := p'])"
| notify_one: "i < length ps \<Longrightarrow> after_notify_one (ps ! i) = Some p' \<Longrightarrow>
    j < length ps \<Longrightarrow> asleep (ps ! j) \<Longrightarrow>
    queue_step W capacity (s, ps) (s, ps[i := p', j := wake (ps ! j)])"
| notify_none: "i < length ps \<Longrightarrow> after_notify_one (ps ! i) = Some p' \<Longrightarrow>
    \<not> (\<exists>p \<in> set ps. asleep p) \<Longrightarrow>
    queue_step W capacity (s, ps) (s, ps[i := p'])"
| notify_all: "i < length ps \<Longrightarrow> ps ! i = NotifyAll \<Longrightarrow>
    queue_step W capacity (s, ps) (s, map wake (ps[i := StopWorker]))"

text \<open>With the spurious wake-ups the standard allows.\<close>

inductive queue_step_any ::
  "'q workers \<Rightarrow> size_t \<Rightarrow> 'q config_state \<Rightarrow> 'q config_state \<Rightarrow> bool"
  for W :: "'q workers" and capacity :: size_t where
  proper: "queue_step W capacity c c' \<Longrightarrow> queue_step_any W capacity c c'"
| spurious: "i < length ps \<Longrightarrow> asleep (ps ! i) \<Longrightarrow>
    queue_step_any W capacity (s, ps) (s, ps[i := wake (ps ! i)])"

inductive_cases local_stepE: "local_step W capacity (s, p) (s', p')"

text \<open>A fresh queue and threads that have not begun.\<close>

fun fresh_pc :: "pc \<Rightarrow> bool" where
  "fresh_pc (Load e) = True"
| "fresh_pc (Reserve b e) = (\<not> b)"
| "fresh_pc (Pop d) = (\<not> d)"
| "fresh_pc StopAccepting = True"
| "fresh_pc _ = False"

definition queue_init :: "'q workers \<Rightarrow> 'q config_state \<Rightarrow> bool" where
  "queue_init W c \<longleftrightarrow>
     (case c of (s, ps) \<Rightarrow>
        sh_size s = 0 \<and> sh_inner s = wk_new W \<and> sh_accepting s \<and> \<not> sh_mutex s \<and> \<not> sh_stop s \<and>
        sh_pushed s = [] \<and> sh_popped s = [] \<and> list_all fresh_pc ps)"

subsection \<open>The invariant\<close>

text \<open>Threads that hold a slot without the event being queued, and threads that hold the mutex.\<close>

fun holds_slot :: "pc \<Rightarrow> bool" where
  "holds_slot (Push b e) = True"
| "holds_slot (Undo b e) = True"
| "holds_slot (Release d e) = True"
| "holds_slot _ = False"

fun holds_mutex :: "pc \<Rightarrow> bool" where
  "holds_mutex (PredAccepting e) = True"
| "holds_mutex (PredSize e) = True"
| "holds_mutex (Sleepy e) = True"
| "holds_mutex _ = False"

definition slots_ok :: "('q \<Rightarrow> event list) \<Rightarrow> size_t \<Rightarrow> nat \<Rightarrow> 'q shared \<Rightarrow> bool" where
  "slots_ok items capacity n s \<longleftrightarrow>
     unat (sh_size s) = length (items (sh_inner s)) + n \<and> sh_size s \<le> capacity \<and>
     sh_pushed s = sh_popped s @ items (sh_inner s)"

definition queue_good :: "('q \<Rightarrow> event list) \<Rightarrow> size_t \<Rightarrow> 'q config_state \<Rightarrow> bool" where
  "queue_good items capacity c \<longleftrightarrow>
     (case c of (s, ps) \<Rightarrow>
        slots_ok items capacity (count_if holds_slot ps) s \<and>
        count_if holds_mutex ps = (if sh_mutex s then 1 else 0))"

lemma local_step_slots:
  assumes "local_step W capacity (s, p) (s', p')" "workers_ok W items closed"
    "slots_ok items capacity (n + (if holds_slot p then 1 else 0)) s"
  shows "slots_ok items capacity (n + (if holds_slot p' then 1 else 0)) s'"
  using assms(1)
proof cases
  case (cas m b e)
  with assms(3) unat_succ_less [of m capacity] show ?thesis
    by (auto simp: slots_ok_def word_le_nat_alt word_less_nat_alt)
next
  case (push e q b)
  with assms(3) workers_push [OF assms(2) push(4)] show ?thesis by (auto simp: slots_ok_def)
next
  case (push_closed e q b)
  with assms(3) workers_push [OF assms(2) push_closed(4)] show ?thesis by (auto simp: slots_ok_def)
next
  case (undo b e)
  with assms(3) unat_pred_pos [of "sh_size s"] show ?thesis
    by (auto simp: slots_ok_def word_le_nat_alt)
next
  case (release d e)
  with assms(3) unat_pred_pos [of "sh_size s"] show ?thesis
    by (auto simp: slots_ok_def word_le_nat_alt)
next
  case (pop e q)
  with assms(3) workers_pop [OF assms(2) pop(4)] show ?thesis by (auto simp: slots_ok_def)
next
  case (pop_ended q)
  with assms(3) workers_pop [OF assms(2) pop_ended(4)] show ?thesis by (auto simp: slots_ok_def)
next
  case (drain e q)
  with assms(3) workers_try_pop [OF assms(2) drain(4)] show ?thesis
    by (auto simp: slots_ok_def split: list.splits)
next
  case (drained q)
  with assms(3) workers_try_pop [OF assms(2) drained(4)] show ?thesis
    by (auto simp: slots_ok_def split: list.splits)
next
  case close_queue
  with assms(3) workers_new_close [OF assms(2)] show ?thesis by (auto simp: slots_ok_def)
qed (use assms(3) in \<open>auto simp: slots_ok_def\<close>)

lemma local_step_mutex:
  assumes "local_step W capacity (s, p) (s', p')"
    "n + (if holds_mutex p then 1 else 0) = (if sh_mutex s then 1 else 0)"
  shows "n + (if holds_mutex p' then 1 else 0) = (if sh_mutex s' then (1 :: nat) else 0)"
  using assms by cases (auto split: if_splits)

lemma wake_holds [simp]:
  "holds_slot (wake p) = holds_slot p" "holds_mutex (wake p) = holds_mutex p"
  by (cases p; simp)+

lemma after_notify_holds:
  assumes "after_notify_one p = Some p'"
  shows "\<not> holds_slot p" "\<not> holds_slot p'" "\<not> holds_mutex p" "\<not> holds_mutex p'" "\<not> asleep p"
  using assms by (cases p rule: after_notify_one.cases; auto)+

lemma queue_step_good:
  assumes "workers_ok W items closed" "queue_step W capacity c c'" "queue_good items capacity c"
  shows "queue_good items capacity c'"
  using assms(2)
proof cases
  case (own i ps s s' p')
  obtain n where n: "\<And>y. count_if holds_slot (ps[i := y]) = n + (if holds_slot y then 1 else 0)"
    "count_if holds_slot ps = n + (if holds_slot (ps ! i) then 1 else 0)"
    using count_if_others [OF own(3)] by metis
  obtain m where m: "\<And>y. count_if holds_mutex (ps[i := y]) = m + (if holds_mutex y then 1 else 0)"
    "count_if holds_mutex ps = m + (if holds_mutex (ps ! i) then 1 else 0)"
    using count_if_others [OF own(3)] by metis
  have good: "slots_ok items capacity (n + (if holds_slot (ps ! i) then 1 else 0)) s"
    "m + (if holds_mutex (ps ! i) then 1 else 0) = (if sh_mutex s then 1 else 0)"
    using assms(3) own(1) n(2) m(2) by (simp_all add: queue_good_def)
  from local_step_slots [OF own(4) assms(1) good(1)] local_step_mutex [OF own(4) good(2)]
  show ?thesis using own(2) n(1) m(1) by (simp add: queue_good_def)
next
  case (notify_one i ps p' j s)
  have "count_if q (ps[i := p', j := wake (ps ! j)]) = count_if q ps"
    if q: "\<And>p. q (wake p) = q p" "\<And>p p'. after_notify_one p = Some p' \<Longrightarrow> \<not> q p \<and> \<not> q p'" for q
  proof -
    have "i \<noteq> j" using notify_one(4,6) after_notify_holds(5) by auto
    with notify_one(3-5) q show ?thesis by (simp add: count_if_update_iff)
  qed
  with after_notify_holds have "count_if holds_slot (ps[i := p', j := wake (ps ! j)]) = count_if holds_slot ps"
    "count_if holds_mutex (ps[i := p', j := wake (ps ! j)]) = count_if holds_mutex ps"
    by (metis wake_holds)+
  with assms(3) notify_one(1,2) show ?thesis by (simp add: queue_good_def)
next
  case (notify_none i ps p' s)
  with assms(3) after_notify_holds [OF notify_none(4)] show ?thesis
    by (simp add: queue_good_def count_if_update_iff)
next
  case (notify_all i ps s)
  then have "count_if holds_slot (ps[i := StopWorker]) = count_if holds_slot ps"
    "count_if holds_mutex (ps[i := StopWorker]) = count_if holds_mutex ps"
    by (simp_all add: count_if_update_iff)
  with assms(3) notify_all(1,2) show ?thesis by (simp add: queue_good_def count_if_map_same)
qed

lemma queue_step_any_good:
  assumes "workers_ok W items closed" "queue_step_any W capacity c c'" "queue_good items capacity c"
  shows "queue_good items capacity c'"
  using assms(2)
proof cases
  case proper
  then show ?thesis using queue_step_good [OF assms(1) _ assms(3)] by simp
next
  case (spurious i ps s)
  with assms(3) show ?thesis by (simp add: queue_good_def count_if_update_iff)
qed

lemma fresh_pc_holds: "fresh_pc p \<Longrightarrow> \<not> holds_slot p \<and> \<not> holds_mutex p"
  by (cases p rule: fresh_pc.cases) auto

lemma count_if_none: "list_all (\<lambda>x. \<not> p x) xs \<Longrightarrow> count_if p xs = 0"
  by (induction xs) auto

lemma queue_init_good:
  assumes "workers_ok W items closed" "queue_init W c"
  shows "queue_good items capacity c"
proof -
  obtain s ps where c: "c = (s, ps)" by (cases c)
  have "list_all fresh_pc ps" using assms(2) c by (simp add: queue_init_def)
  then have "list_all (\<lambda>x. \<not> holds_slot x) ps" "list_all (\<lambda>x. \<not> holds_mutex x) ps"
    by (simp_all add: list_all_iff fresh_pc_holds)
  then show ?thesis
    using assms c workers_new_close [OF assms(1)]
    by (simp add: queue_good_def queue_init_def slots_ok_def count_if_none)
qed

interpretation threads: invariant_system "queue_init W" "queue_step_any W capacity"
    "\<lambda>c. workers_ok W items closed \<longrightarrow> queue_good items capacity c" for W capacity items closed
  by unfold_locales (blast intro: queue_init_good, blast intro: queue_step_any_good)

text \<open>
  C16. In every interleaving of any number of producers (blocking or dropping), workers and closing
  threads, at every moment: the events accepted so far are those taken so far, in the same order,
  followed by those queued; \<open>size_\<close> is exactly the number of queued events plus the slots
  that threads hold (a reservation not yet pushed, an event taken and not yet released), so the
  queue never holds more than its capacity; and at most one thread is inside the predicate's mutex.
\<close>

theorem concurrent_queue_invariant:
  assumes "workers_ok W items closed" "queue_init W c" "(queue_step_any W capacity)\<^sup>*\<^sup>* c (s, ps)"
  shows "sh_pushed s = sh_popped s @ items (sh_inner s) \<and>
    unat (sh_size s) = length (items (sh_inner s)) + count_if holds_slot ps \<and>
    length (items (sh_inner s)) \<le> unat capacity \<and> count_if holds_mutex ps \<le> 1"
proof -
  have "queue_good items capacity (s, ps)"
    using threads.reach_inv [OF assms(2,3)] assms(1) by blast
  then show ?thesis by (auto simp: queue_good_def slots_ok_def word_le_nat_alt)
qed

subsection \<open>Lost wake-ups\<close>

definition shared_of ::
  "size_t \<Rightarrow> event list \<times> bool \<Rightarrow> bool \<Rightarrow> bool \<Rightarrow> bool \<Rightarrow> event list \<Rightarrow> event list \<Rightarrow> (event list \<times> bool) shared" where
  "shared_of n q accepting m stop pushed popped =
     \<lparr>sh_size = n, sh_inner = q, sh_accepting = accepting, sh_mutex = m, sh_drain = True,
      sh_stop = stop, sh_pushed = pushed, sh_popped = popped\<rparr>"

abbreviation qsteps where
  "qsteps \<equiv> (queue_step list_workers 1)\<^sup>*\<^sup>*"

lemma own_steps:
  "local_step W c (s, p0) (s', p') \<Longrightarrow> queue_step W c (s, [p0, p1, p2]) (s', [p', p1, p2])"
  "local_step W c (s, p1) (s', p') \<Longrightarrow> queue_step W c (s, [p0, p1, p2]) (s', [p0, p', p2])"
  "local_step W c (s, p2) (s', p') \<Longrightarrow> queue_step W c (s, [p0, p1, p2]) (s', [p0, p1, p'])"
  using queue_step.own [of 0 "[p0, p1, p2]" W c s s' p']
    queue_step.own [of 1 "[p0, p1, p2]" W c s s' p']
    queue_step.own [of 2 "[p0, p1, p2]" W c s s' p'] by simp_all

lemma then_own:
  "qsteps c (s, [p0, p1, p2]) \<Longrightarrow> local_step list_workers 1 (s, p0) (s', p') \<Longrightarrow> qsteps c (s', [p', p1, p2])"
  "qsteps c (s, [p0, p1, p2]) \<Longrightarrow> local_step list_workers 1 (s, p1) (s', p') \<Longrightarrow> qsteps c (s', [p0, p', p2])"
  "qsteps c (s, [p0, p1, p2]) \<Longrightarrow> local_step list_workers 1 (s, p2) (s', p') \<Longrightarrow> qsteps c (s', [p0, p1, p'])"
  by (erule rtranclp.rtrancl_into_rtrancl, erule own_steps)+

text \<open>A producer fills the queue; a second one finds it full and is about to sleep.\<close>

definition start_with :: "pc \<Rightarrow> (event list \<times> bool) config_state" where
  "start_with p = (shared_of 0 ([], False) True False False [] [], [Load sample_event, Load second_event, p])"

lemma start_with_init: "fresh_pc p \<Longrightarrow> queue_init list_workers (start_with p)"
  by (simp add: queue_init_def start_with_def shared_of_def list_workers_def)

lemma about_to_sleep:
  "qsteps (start_with p)
     (shared_of 1 ([sample_event], False) True True False [sample_event] [],
      [Done True, Sleepy second_event, p])"
proof -
  let ?s0 = "shared_of 0 ([], False) True False False [] []"
  let ?s1 = "shared_of 1 ([], False) True False False [] []"
  let ?s2 = "shared_of 1 ([sample_event], False) True False False [sample_event] []"
  let ?s3 = "shared_of 1 ([sample_event], False) True True False [sample_event] []"
  have "qsteps (start_with p) (?s0, [Load sample_event, Load second_event, p])"
    by (simp add: start_with_def)
  from then_own(1) [OF this local_step.load]
  have "qsteps (start_with p) (?s0, [Reserve True sample_event, Load second_event, p])"
    by (simp add: shared_of_def)
  from then_own(1) [OF this local_step.reserve]
  have "qsteps (start_with p) (?s0, [Cas True sample_event 0, Load second_event, p])"
    by (simp add: shared_of_def)
  from then_own(1) [OF this local_step.cas]
  have "qsteps (start_with p) (?s1, [Push True sample_event, Load second_event, p])"
    by (simp add: shared_of_def)
  from then_own(1) [OF this local_step.push [of _ _ _ "([sample_event], False)"]]
  have "qsteps (start_with p) (?s2, [Done True, Load second_event, p])"
    by (simp add: shared_of_def list_workers_def)
  from then_own(2) [OF this local_step.load]
  have "qsteps (start_with p) (?s2, [Done True, Reserve True second_event, p])"
    by (simp add: shared_of_def)
  from then_own(2) [OF this local_step.reserve_full]
  have "qsteps (start_with p) (?s2, [Done True, Lock second_event, p])"
    by (simp add: shared_of_def)
  from then_own(2) [OF this local_step.lock]
  have "qsteps (start_with p) (?s3, [Done True, PredAccepting second_event, p])"
    by (simp add: shared_of_def)
  from then_own(2) [OF this local_step.pred_accepting]
  have "qsteps (start_with p) (?s3, [Done True, PredSize second_event, p])"
    by (simp add: shared_of_def)
  from then_own(2) [OF this local_step.pred_full]
  show ?thesis by (simp add: shared_of_def)
qed

text \<open>Configurations in which the second thread sleeps and the others have nothing to do.\<close>

lemma stuck:
  assumes "\<And>s' p'. \<not> local_step W c (s, p0) (s', p')" "after_notify_one p0 = None" "p0 \<noteq> NotifyAll"
    "\<And>s' p'. \<not> local_step W c (s, p2) (s', p')" "after_notify_one p2 = None" "p2 \<noteq> NotifyAll"
  shows "\<not> queue_step W c (s, [p0, Asleep e, p2]) c'"
proof
  have own: "\<not> local_step W c (s, Asleep e) (s', p')" for s' p'
    by (auto elim: local_step.cases)
  assume "queue_step W c (s, [p0, Asleep e, p2]) c'"
  then show False
  proof cases
    case (own i s' p')
    then have "i = 0 \<or> i = 1 \<or> i = 2" by auto
    with own assms \<open>\<And>s' p'. \<not> local_step W c (s, Asleep e) (s', p')\<close> show False by auto
  next
    case (notify_one i p' j)
    then have "i = 0 \<or> i = 1 \<or> i = 2" by auto
    with notify_one assms show False by auto
  next
    case (notify_none i p')
    then show False by simp
  next
    case (notify_all i)
    then have "i = 0 \<or> i = 1 \<or> i = 2" by auto
    with notify_all assms show False by auto
  qed
qed

lemma done_stuck: "\<not> local_step W c (s, Done b) (s', p')" "\<not> local_step W c (s, StopDone) (s', p')"
  by (auto elim: local_stepE)

text \<open>
  C25. A blocking producer can sleep forever although the queue is empty and the pipeline accepts
  events: \<open>release_slot_\<close> notifies without holding the mutex, so its notification can fall between
  the producer's evaluation of the predicate and its going to sleep, where nobody hears it. Here the
  worker has taken the only event and waits for the next; no thread can move again.
\<close>

theorem lost_wakeup_on_release:
  "\<exists>c s ps. queue_init list_workers c \<and> qsteps c (s, ps) \<and>
     Asleep second_event \<in> set ps \<and> Pop False \<in> set ps \<and>
     sh_size s = 0 \<and> fst (sh_inner s) = [] \<and> sh_accepting s \<and>
     (\<forall>c'. \<not> queue_step list_workers 1 (s, ps) c')"
proof -
  let ?c = "start_with (Pop False)"
  let ?s1 = "shared_of 1 ([], False) True True False [sample_event] [sample_event]"
  let ?s2 = "shared_of 0 ([], False) True True False [sample_event] [sample_event]"
  let ?s3 = "shared_of 0 ([], False) True False False [sample_event] [sample_event]"
  from then_own(3) [OF about_to_sleep local_step.pop [of _ _ "sample_event" "([], False)"]]
  have "qsteps ?c (?s1, [Done True, Sleepy second_event, Release False sample_event])"
    by (simp add: shared_of_def list_workers_def)
  from then_own(3) [OF this local_step.release]
  have a: "qsteps ?c (?s2, [Done True, Sleepy second_event, ReleaseNotify False sample_event])"
    by (simp add: shared_of_def)
  have "queue_step list_workers 1 (?s2, [Done True, Sleepy second_event, ReleaseNotify False sample_event])
      (?s2, [Done True, Sleepy second_event, Pop False])"
    using queue_step.notify_none [of 2 "[Done True, Sleepy second_event, ReleaseNotify False sample_event]" "Pop False"]
    by simp
  with a have "qsteps ?c (?s2, [Done True, Sleepy second_event, Pop False])"
    by (rule rtranclp.rtrancl_into_rtrancl)
  from then_own(2) [OF this local_step.sleep]
  have r: "qsteps ?c (?s3, [Done True, Asleep second_event, Pop False])"
    by (simp add: shared_of_def)
  have "\<not> local_step list_workers 1 (?s3, Pop False) (s', p')" for s' p'
    by (auto elim!: local_step.cases simp: shared_of_def list_workers_def)
  then have "\<not> queue_step list_workers 1 (?s3, [Done True, Asleep second_event, Pop False]) c'" for c'
    by (intro stuck done_stuck) simp_all
  with r start_with_init [of "Pop False"] show ?thesis
    by (intro exI [of _ ?c] exI [of _ ?s3] exI [of _ "[Done True, Asleep second_event, Pop False]"])
      (simp add: shared_of_def)
qed

text \<open>
  Shutting down does not always free a blocked producer: \<open>close\<close> stops accepting, closes the
  queue and notifies everybody, but again without the mutex. A producer that has just found the
  predicate false goes to sleep afterwards and never returns, although the pipeline has
  stopped accepting and the closing thread is through.
\<close>

theorem lost_wakeup_on_close:
  "\<exists>c s ps. queue_init list_workers c \<and> qsteps c (s, ps) \<and>
     Asleep second_event \<in> set ps \<and> StopDone \<in> set ps \<and>
     \<not> sh_accepting s \<and> snd (sh_inner s) \<and>
     (\<forall>c'. \<not> queue_step list_workers 1 (s, ps) c')"
proof -
  let ?c = "start_with StopAccepting"
  let ?s1 = "shared_of 1 ([sample_event], False) False True False [sample_event] []"
  let ?s2 = "shared_of 1 ([sample_event], True) False True False [sample_event] []"
  let ?s3 = "shared_of 1 ([sample_event], True) False True True [sample_event] []"
  let ?s4 = "shared_of 1 ([sample_event], True) False False True [sample_event] []"
  from then_own(3) [OF about_to_sleep local_step.stop_accepting]
  have "qsteps ?c (?s1, [Done True, Sleepy second_event, CloseQueue])"
    by (simp add: shared_of_def)
  from then_own(3) [OF this local_step.close_queue]
  have a: "qsteps ?c (?s2, [Done True, Sleepy second_event, NotifyAll])"
    by (simp add: shared_of_def list_workers_def)
  have "queue_step list_workers 1 (?s2, [Done True, Sleepy second_event, NotifyAll])
      (?s2, [Done True, Sleepy second_event, StopWorker])"
    using queue_step.notify_all [of 2 "[Done True, Sleepy second_event, NotifyAll]"] by simp
  with a have "qsteps ?c (?s2, [Done True, Sleepy second_event, StopWorker])"
    by (rule rtranclp.rtrancl_into_rtrancl)
  from then_own(3) [OF this local_step.stop_worker]
  have "qsteps ?c (?s3, [Done True, Sleepy second_event, StopDone])"
    by (simp add: shared_of_def)
  from then_own(2) [OF this local_step.sleep]
  have r: "qsteps ?c (?s4, [Done True, Asleep second_event, StopDone])"
    by (simp add: shared_of_def)
  have "\<not> queue_step list_workers 1 (?s4, [Done True, Asleep second_event, StopDone]) c'" for c'
    by (intro stuck done_stuck) simp_all
  with r start_with_init [of StopAccepting] show ?thesis
    by (intro exI [of _ ?c] exI [of _ ?s4] exI [of _ "[Done True, Asleep second_event, StopDone]"])
      (simp add: shared_of_def)
qed

theorem concurrent_queue_invariant_witness:
  "(let s = shared_of 1 ([sample_event], False) True True False [sample_event] [];
        ps = [Done True, Sleepy second_event, Pop False]
    in sh_pushed s = sh_popped s @ fst (sh_inner s) \<and> count_if holds_mutex ps \<le> 1)"
proof -
  have "(queue_step_any list_workers 1)\<^sup>*\<^sup>* (start_with (Pop False))
      (shared_of 1 ([sample_event], False) True True False [sample_event] [],
       [Done True, Sleepy second_event, Pop False])"
    using about_to_sleep by (rule rtranclp_mono [THEN predicate2D, rotated])
      (auto intro: queue_step_any.proper)
  from concurrent_queue_invariant [OF list_workers_ok start_with_init this] show ?thesis
    unfolding Let_def by (simp only: fresh_pc.simps simp_thms)
qed

end
