(* ===== verification/Queue_Drain.thy ===== *)
theory Queue_Drain
  imports Queue_Threads
begin

section \<open>Draining under concurrency\<close>

text \<open>
  More on the step relation of \<open>Queue_Threads\<close>: what holds once a worker has returned, in every
  interleaving with producers that are still at work; and what a reconfiguration of the running
  crossbar does to a producer that is about to push.
\<close>

subsection \<open>After a worker has returned\<close>

text \<open>Program points that are reached only after the queue was closed.\<close>

fun after_close :: "pc \<Rightarrow> bool" where
  "after_close NotifyAll = True"
| "after_close StopWorker = True"
| "after_close StopDone = True"
| "after_close (Pop d) = d"
| "after_close (Release d e) = d"
| "after_close (ReleaseNotify d e) = d"
| "after_close PopDone = True"
| "after_close _ = False"

fun accepted :: "pc \<Rightarrow> bool" where
  "accepted (Done b) = b"
| "accepted _ = False"

definition drain_good ::
  "('q \<Rightarrow> event list) \<Rightarrow> ('q \<Rightarrow> bool) \<Rightarrow> 'q config_state \<Rightarrow> bool" where
  "drain_good items closed c \<longleftrightarrow>
     (case c of (s, ps) \<Rightarrow>
        (sh_stop s \<or> (\<exists>p \<in> set ps. after_close p) \<longrightarrow> closed (sh_inner s)) \<and>
        (sh_drain s \<and> PopDone \<in> set ps \<longrightarrow> items (sh_inner s) = []) \<and>
        count_if accepted ps = length (sh_pushed s))"

lemma local_step_drain:
  assumes "local_step W capacity (s, p) (s', p')" "workers_ok W items closed"
  shows "closed (sh_inner s) \<Longrightarrow> closed (sh_inner s')"
    "closed (sh_inner s) \<Longrightarrow> items (sh_inner s) = [] \<Longrightarrow> items (sh_inner s') = []"
    "sh_drain s' = sh_drain s"
    "sh_stop s \<longrightarrow> closed (sh_inner s) \<Longrightarrow> after_close p \<longrightarrow> closed (sh_inner s) \<Longrightarrow>
      (sh_stop s' \<or> after_close p' \<longrightarrow> closed (sh_inner s')) \<and>
      (sh_drain s' \<and> p' = PopDone \<longrightarrow> items (sh_inner s') = [])"
    "length (sh_pushed s') + (if accepted p then 1 else 0) = length (sh_pushed s) + (if accepted p' then 1 else 0)"
  subgoal using assms(1) by cases (auto dest: workers_push [OF assms(2)] workers_pop(1) [OF assms(2)]
      workers_try_pop(1) [OF assms(2)] simp: workers_new_close [OF assms(2)])
  subgoal using assms(1) by cases (auto dest: workers_push [OF assms(2)] workers_pop(2) [OF assms(2)]
      workers_try_pop(2) [OF assms(2)] simp: workers_new_close [OF assms(2)])
  subgoal using assms(1) by cases auto
  subgoal using assms(1)
  proof cases
    case (pop e q)
    then show ?thesis
      if "sh_stop s \<longrightarrow> closed (sh_inner s)" "after_close p \<longrightarrow> closed (sh_inner s)"
      using that workers_pop(1) [OF assms(2) pop(4)] by auto
  next
    case (pop_ended q)
    then show ?thesis
      if "sh_stop s \<longrightarrow> closed (sh_inner s)" "after_close p \<longrightarrow> closed (sh_inner s)"
      using that workers_pop [OF assms(2) pop_ended(4)] by auto
  next
    case (drain e q)
    then show ?thesis
      if "sh_stop s \<longrightarrow> closed (sh_inner s)" "after_close p \<longrightarrow> closed (sh_inner s)"
      using that workers_try_pop(1) [OF assms(2) drain(4)] by auto
  next
    case (drained q)
    then show ?thesis
      if "sh_stop s \<longrightarrow> closed (sh_inner s)" "after_close p \<longrightarrow> closed (sh_inner s)"
      using that workers_try_pop [OF assms(2) drained(4)] by (auto split: list.splits)
  qed (auto dest: workers_push(2) [OF assms(2)] simp: workers_new_close [OF assms(2)])
  subgoal using assms(1) by cases auto
  done

lemma wake_drain [simp]:
  "after_close (wake p) = after_close p" "accepted (wake p) = accepted p"
  "wake p = PopDone \<longleftrightarrow> p = PopDone" "PopDone = wake p \<longleftrightarrow> p = PopDone"
  by (cases p; simp)+

lemma after_notify_drain:
  assumes "after_notify_one p = Some p'"
  shows "after_close p' \<Longrightarrow> after_close p" "\<not> accepted p" "\<not> accepted p'" "p' \<noteq> PopDone"
  using assms by (cases p rule: after_notify_one.cases; auto)+

text \<open>Changes of the program points alone.\<close>

lemma in_set_update: "x \<in> set (xs[i := y]) \<Longrightarrow> x = y \<or> x \<in> set xs"
  using set_update_subset_insert by fastforce

lemma drain_good_update:
  assumes "drain_good items closed (s, ps)" "i < length ps" "after_close p' \<longrightarrow> after_close (ps ! i)"
    "p' = PopDone \<longrightarrow> ps ! i = PopDone" "accepted p' = accepted (ps ! i)"
  shows "drain_good items closed (s, ps[i := p'])"
proof -
  have i: "ps ! i \<in> set ps" using assms(2) by simp
  have "\<exists>p \<in> set ps. after_close p" if "\<exists>p \<in> set (ps[i := p']). after_close p"
    using that i assms(3) by (metis in_set_update)
  moreover have "PopDone \<in> set ps" if "PopDone \<in> set (ps[i := p'])"
    using that i assms(4) by (metis in_set_update)
  moreover have "count_if accepted (ps[i := p']) = count_if accepted ps"
    using assms(2,5) by (intro count_if_update_iff) simp_all
  ultimately show ?thesis using assms(1) by (auto simp: drain_good_def)
qed

lemma drain_good_wake: "drain_good items closed (s, ps) \<Longrightarrow> drain_good items closed (s, map wake ps)"
  by (simp add: drain_good_def count_if_map_same image_iff)

lemma queue_step_drain:
  assumes "workers_ok W items closed" "queue_step W capacity c c'" "drain_good items closed c"
  shows "drain_good items closed c'"
  using assms(2)
proof cases
  case (own i ps s s' p')
  note st = local_step_drain [OF own(4) assms(1)]
  have good: "sh_stop s \<or> (\<exists>p \<in> set ps. after_close p) \<longrightarrow> closed (sh_inner s)"
    "sh_drain s \<and> PopDone \<in> set ps \<longrightarrow> items (sh_inner s) = []"
    "count_if accepted ps = length (sh_pushed s)"
    using assms(3) own(1) by (simp_all add: drain_good_def)
  have i: "ps ! i \<in> set ps" using own(3) by simp
  have 4: "(sh_stop s' \<or> after_close p' \<longrightarrow> closed (sh_inner s')) \<and>
      (sh_drain s' \<and> p' = PopDone \<longrightarrow> items (sh_inner s') = [])"
    using good(1) i by (intro st(4)) blast+
  have "PopDone \<in> set ps \<longrightarrow> closed (sh_inner s)" using good(1) by force
  then have "sh_drain s' \<and> PopDone \<in> set (ps[i := p']) \<longrightarrow> items (sh_inner s') = []"
    using 4 good(2) st(2,3) by (auto dest: in_set_update)
  moreover have "sh_stop s' \<or> (\<exists>p \<in> set (ps[i := p']). after_close p) \<longrightarrow> closed (sh_inner s')"
    using 4 good(1) st(1) by (auto dest: in_set_update)
  moreover have "count_if accepted (ps[i := p']) = length (sh_pushed s')"
    using count_if_update [OF own(3), of accepted p'] good(3) st(5) by (auto split: if_splits)
  ultimately show ?thesis using own(2) by (simp add: drain_good_def)
next
  case (notify_one i ps p' j s)
  have ij: "i \<noteq> j" using notify_one(4,6) after_notify_holds(5) by auto
  have "drain_good items closed (s, ps[i := p'])"
    using assms(3) notify_one(1,3) after_notify_drain [OF notify_one(4)]
    by (intro drain_good_update) auto
  then show ?thesis unfolding notify_one(2)
    by (rule drain_good_update) (use notify_one(5) ij in simp_all)
next
  case (notify_none i ps p' s)
  then show ?thesis using assms(3) after_notify_drain [OF notify_none(4)]
    by (simp add: drain_good_update)
next
  case (notify_all i ps s)
  then have "drain_good items closed (s, ps[i := StopWorker])"
    using assms(3) by (intro drain_good_update) simp_all
  with notify_all(2) show ?thesis by (simp only: drain_good_wake)
qed

lemma queue_step_any_drain:
  assumes "workers_ok W items closed" "queue_step_any W capacity c c'" "drain_good items closed c"
  shows "drain_good items closed c'"
  using assms(2)
proof cases
  case proper
  then show ?thesis by (rule queue_step_drain [OF assms(1) _ assms(3)])
next
  case (spurious i ps s)
  with assms(3) show ?thesis by (simp add: drain_good_update)
qed

lemma fresh_pc_drain: "fresh_pc p \<Longrightarrow> \<not> after_close p \<and> \<not> accepted p \<and> p \<noteq> PopDone"
  by (cases p rule: fresh_pc.cases) auto

lemma queue_init_drain:
  assumes "queue_init W c"
  shows "drain_good items closed c"
proof -
  obtain s ps where c: "c = (s, ps)" by (cases c)
  have "\<forall>p \<in> set ps. \<not> after_close p \<and> \<not> accepted p \<and> p \<noteq> PopDone"
    using assms c fresh_pc_drain by (auto simp: queue_init_def list_all_iff)
  moreover from this have "count_if accepted ps = 0" by (intro count_if_none) (simp add: list_all_iff)
  ultimately show ?thesis using assms c by (auto simp: queue_init_def drain_good_def)
qed

interpretation drains: invariant_system "queue_init W" "queue_step_any W capacity"
    "\<lambda>c. workers_ok W items closed \<longrightarrow> queue_good items capacity c \<and> drain_good items closed c"
  for W capacity items closed
  by unfold_locales (blast intro: queue_init_good queue_init_drain,
    blast intro: queue_step_any_good queue_step_any_drain)

lemma queue_step_keeps_drain:
  "queue_step_any W capacity c c' \<Longrightarrow> sh_drain (fst c') = sh_drain (fst c)"
proof (induction rule: queue_step_any.induct)
  case (proper c c')
  then show ?case
  proof cases
    case (own i ps s s' p')
    from own(4) have "sh_drain s' = sh_drain s" by cases auto
    with own(1,2) show ?thesis by simp
  qed simp_all
qed simp

lemma queue_run_keeps_drain:
  "(queue_step_any W capacity)\<^sup>*\<^sup>* c c' \<Longrightarrow> sh_drain (fst c') = sh_drain (fst c)"
  by (induction rule: rtranclp_induct) (auto dest: queue_step_keeps_drain)

text \<open>
  C9. Draining is complete in every interleaving: take any number of producers, workers and a
  closing thread, on a queue that is to be drained. As soon as one worker has returned, the queue is
  closed and empty, every event that was ever accepted has been taken, and the producers that were
  told that their push succeeded are as many as the events taken: none of them lost its event,
  however late its push came. This stays so whatever the threads do afterwards.
\<close>

theorem drained_queue_lost_nothing:
  assumes "workers_ok W items closed" "queue_init W c" "sh_drain (fst c)"
    "(queue_step_any W capacity)\<^sup>*\<^sup>* c (s, ps)" "PopDone \<in> set ps"
  shows "closed (sh_inner s) \<and> items (sh_inner s) = [] \<and> sh_popped s = sh_pushed s \<and>
    count_if (\<lambda>p. p = Done True) ps = length (sh_popped s) \<and>
    unat (sh_size s) = count_if holds_slot ps"
proof -
  have good: "queue_good items capacity (s, ps)" "drain_good items closed (s, ps)"
    using drains.reach_inv [OF assms(2,4)] assms(1) by blast+
  have "sh_drain s" using queue_run_keeps_drain [OF assms(4)] assms(3) by simp
  moreover have "\<exists>p \<in> set ps. after_close p" using assms(5) by force
  ultimately have fin: "closed (sh_inner s)" "items (sh_inner s) = []"
    "count_if accepted ps = length (sh_pushed s)"
    using good(2) assms(5) by (auto simp: drain_good_def)
  moreover have "accepted = (\<lambda>p. p = Done True)"
  proof
    show "accepted p = (p = Done True)" for p by (cases p) auto
  qed
  ultimately show ?thesis using good(1) by (simp add: queue_good_def slots_ok_def)
qed

text \<open>A producer, a worker and the closing thread, one after the other.\<close>

definition trio :: "(event list \<times> bool) config_state" where
  "trio = (shared_of 0 ([], False) True False False [] [], [Load sample_event, Pop False, StopAccepting])"

lemma trio_pushed:
  "qsteps trio (shared_of 1 ([sample_event], False) True False False [sample_event] [],
     [Done True, Pop False, StopAccepting])"
proof -
  let ?s0 = "shared_of 0 ([], False) True False False [] []"
  let ?s1 = "shared_of 1 ([], False) True False False [] []"
  let ?s2 = "shared_of 1 ([sample_event], False) True False False [sample_event] []"
  have "qsteps trio (?s0, [Load sample_event, Pop False, StopAccepting])" by (simp add: trio_def)
  from then_own(1) [OF this local_step.load]
  have "qsteps trio (?s0, [Reserve True sample_event, Pop False, StopAccepting])"
    by (simp add: shared_of_def)
  from then_own(1) [OF this local_step.reserve]
  have "qsteps trio (?s0, [Cas True sample_event 0, Pop False, StopAccepting])"
    by (simp add: shared_of_def)
  from then_own(1) [OF this local_step.cas]
  have "qsteps trio (?s1, [Push True sample_event, Pop False, StopAccepting])"
    by (simp add: shared_of_def)
  from then_own(1) [OF this local_step.push [of _ _ _ "([sample_event], False)"]]
  show ?thesis by (simp add: shared_of_def list_workers_def)
qed

lemma trio_closed:
  "qsteps trio (shared_of 1 ([sample_event], True) False False True [sample_event] [],
     [Done True, Pop False, StopDone])"
proof -
  let ?s1 = "shared_of 1 ([sample_event], False) False False False [sample_event] []"
  let ?s2 = "shared_of 1 ([sample_event], True) False False False [sample_event] []"
  from then_own(3) [OF trio_pushed local_step.stop_accepting]
  have "qsteps trio (?s1, [Done True, Pop False, CloseQueue])" by (simp add: shared_of_def)
  from then_own(3) [OF this local_step.close_queue]
  have "qsteps trio (?s2, [Done True, Pop False, NotifyAll])"
    by (simp add: shared_of_def list_workers_def)
  moreover have "queue_step list_workers 1 (?s2, [Done True, Pop False, NotifyAll])
      (?s2, [Done True, Pop False, StopWorker])"
    using queue_step.notify_all [of 2 "[Done True, Pop False, NotifyAll]"] by simp
  ultimately have "qsteps trio (?s2, [Done True, Pop False, StopWorker])"
    by (rule rtranclp.rtrancl_into_rtrancl)
  from then_own(3) [OF this local_step.stop_worker] show ?thesis by (simp add: shared_of_def)
qed

lemma trio_drained:
  "qsteps trio (shared_of 0 ([], True) False False True [sample_event] [sample_event],
     [Done True, PopDone, StopDone])"
proof -
  let ?s1 = "shared_of 1 ([], True) False False True [sample_event] [sample_event]"
  let ?s2 = "shared_of 0 ([], True) False False True [sample_event] [sample_event]"
  from then_own(2) [OF trio_closed local_step.pop [of _ _ "sample_event" "([], True)"]]
  have "qsteps trio (?s1, [Done True, Release False sample_event, StopDone])"
    by (simp add: shared_of_def list_workers_def)
  from then_own(2) [OF this local_step.release]
  have "qsteps trio (?s2, [Done True, ReleaseNotify False sample_event, StopDone])"
    by (simp add: shared_of_def)
  moreover have "queue_step list_workers 1 (?s2, [Done True, ReleaseNotify False sample_event, StopDone])
      (?s2, [Done True, Pop False, StopDone])"
    using queue_step.notify_none [of 1 "[Done True, ReleaseNotify False sample_event, StopDone]" "Pop False"]
    by simp
  ultimately have "qsteps trio (?s2, [Done True, Pop False, StopDone])"
    by (rule rtranclp.rtrancl_into_rtrancl)
  from then_own(2) [OF this local_step.pop_ended [of _ _ "([], True)"]]
  have "qsteps trio (?s2, [Done True, Pop True, StopDone])"
    by (simp add: shared_of_def list_workers_def)
  from then_own(2) [OF this local_step.drained [of _ _ "([], True)"]] show ?thesis
    by (simp add: shared_of_def list_workers_def)
qed

theorem drained_queue_lost_nothing_witness:
  "\<exists>s ps. qsteps trio (s, ps) \<and> PopDone \<in> set ps \<and> snd (sh_inner s) \<and>
     sh_popped s = sh_pushed s \<and> count_if (\<lambda>p. p = Done True) ps = 1"
proof -
  let ?s = "shared_of 0 ([], True) False False True [sample_event] [sample_event]"
  let ?ps = "[Done True, PopDone, StopDone]"
  have i: "queue_init list_workers trio" "sh_drain (fst trio)"
    by (simp_all add: queue_init_def trio_def shared_of_def list_workers_def)
  have "(queue_step_any list_workers 1)\<^sup>*\<^sup>* trio (?s, ?ps)"
    using trio_drained by (rule rtranclp_mono [THEN predicate2D, rotated])
      (auto intro: queue_step_any.proper)
  from drained_queue_lost_nothing [OF list_workers_ok i this] trio_drained show ?thesis
    by (intro exI [of _ ?s] exI [of _ ?ps]) (simp add: shared_of_def)
qed

subsection \<open>Reconfiguring while producers push\<close>

text \<open>
  A \<open>block_when_full\<close> route can lose an event although its queue is empty and the pipeline
  accepts events all the time: \<open>SinkCrossbar::configure\<close>, which \<open>add_route\<close> calls, closes the queues
  of a running crossbar without stopping producers. One that has just reserved its slot finds the
  queue closed, gives the slot back and reports failure; nobody tries the new lane. The
  documentation promises to wait until there is room or the pipeline stops accepting.
\<close>

theorem reconfiguration_drops_event:
  "\<exists>s. qsteps (shared_of 0 ([], False) True False False [] [], [Load sample_event, Pop False, CloseQueue])
       (s, [Done False, PopDone, StopDone]) \<and>
     sh_accepting s \<and> sh_pushed s = [] \<and> sh_size s = 0"
proof -
  let ?s0 = "shared_of 0 ([], False) True False False [] []"
  let ?s1 = "shared_of 1 ([], False) True False False [] []"
  let ?s2 = "shared_of 1 ([], True) True False False [] []"
  let ?s3 = "shared_of 1 ([], True) True False True [] []"
  let ?s4 = "shared_of 0 ([], True) True False True [] []"
  let ?c = "(?s0, [Load sample_event, Pop False, CloseQueue])"
  have "qsteps ?c ?c" by simp
  from then_own(1) [OF this local_step.load]
  have "qsteps ?c (?s0, [Reserve True sample_event, Pop False, CloseQueue])"
    by (simp add: shared_of_def)
  from then_own(1) [OF this local_step.reserve]
  have "qsteps ?c (?s0, [Cas True sample_event 0, Pop False, CloseQueue])" by (simp add: shared_of_def)
  from then_own(1) [OF this local_step.cas]
  have "qsteps ?c (?s1, [Push True sample_event, Pop False, CloseQueue])" by (simp add: shared_of_def)
  from then_own(3) [OF this local_step.close_queue]
  have a: "qsteps ?c (?s2, [Push True sample_event, Pop False, NotifyAll])"
    by (simp add: shared_of_def list_workers_def)
  have "queue_step list_workers 1 (?s2, [Push True sample_event, Pop False, NotifyAll])
      (?s2, [Push True sample_event, Pop False, StopWorker])"
    using queue_step.notify_all [of 2 "[Push True sample_event, Pop False, NotifyAll]"] by simp
  with a have "qsteps ?c (?s2, [Push True sample_event, Pop False, StopWorker])"
    by (rule rtranclp.rtrancl_into_rtrancl)
  from then_own(3) [OF this local_step.stop_worker]
  have "qsteps ?c (?s3, [Push True sample_event, Pop False, StopDone])" by (simp add: shared_of_def)
  from then_own(2) [OF this local_step.pop_ended [of _ _ "([], True)"]]
  have "qsteps ?c (?s3, [Push True sample_event, Pop True, StopDone])"
    by (simp add: shared_of_def list_workers_def)
  from then_own(2) [OF this local_step.drained [of _ _ "([], True)"]]
  have "qsteps ?c (?s3, [Push True sample_event, PopDone, StopDone])"
    by (simp add: shared_of_def list_workers_def)
  from then_own(1) [OF this local_step.push_closed [of _ _ _ "([], True)"]]
  have "qsteps ?c (?s3, [Undo True sample_event, PopDone, StopDone])"
    by (simp add: shared_of_def list_workers_def)
  from then_own(1) [OF this local_step.undo]
  have b: "qsteps ?c (?s4, [UndoNotify True sample_event, PopDone, StopDone])"
    by (simp add: shared_of_def)
  have "queue_step list_workers 1 (?s4, [UndoNotify True sample_event, PopDone, StopDone])
      (?s4, [Done False, PopDone, StopDone])"
    using queue_step.notify_none [of 0 "[UndoNotify True sample_event, PopDone, StopDone]" "Done False"]
    by simp
  with b have "qsteps ?c (?s4, [Done False, PopDone, StopDone])" by (rule rtranclp.rtrancl_into_rtrancl)
  then show ?thesis by (intro exI [of _ ?s4]) (simp add: shared_of_def)
qed

end
