(* ===== verification/Cache_Race.thy ===== *)
theory Cache_Race
  imports Crossbar
begin

section \<open>The endpoint cache under concurrency\<close>

text \<open>
  \<open>cached_route_mask_\<close> holds no lock from its start to its end: it refreshes a dirty cache (under
  the cache's lock), looks the endpoint up (again under the lock), computes an entry from a copy of
  the routes (under the pipeline's lock), and enters it (under the cache's lock). Here any number of
  threads go through these phases, one at a time, while others add a route. A schedule is the list of
  the threads that act; a thread that is through does nothing.
\<close>

datatype lookup_pc =
    LookStart string
  | LookFind string
  | LookCompute string
  | LookEmplace string cache_entry
  | LookDone string cache_entry
  | AddRoute route
  | AddDone

record race_state =
  rs_routes :: "route list"
  rs_cache :: route_cache
  rs_pcs :: "lookup_pc list"

fun thread_step ::
  "filter_store \<Rightarrow> lookup_pc \<Rightarrow> route list \<times> route_cache \<Rightarrow> lookup_pc \<times> route list \<times> route_cache" where
  "thread_step fs (LookStart ep) (routes, c) = (LookFind ep, routes, refresh_cache fs routes c)"
| "thread_step fs (LookFind ep) (routes, c) =
     (case rc_entries c ep of
        Some ce \<Rightarrow> (LookDone ep ce, routes, c)
      | None \<Rightarrow> (LookCompute ep, routes, c))"
| "thread_step fs (LookCompute ep) (routes, c) =
     (LookEmplace ep (compute_cache_entry fs routes ep), routes, c)"
| "thread_step fs (LookEmplace ep ce) (routes, c) = (LookDone ep ce, routes, emplace ep ce c)"
| "thread_step fs (AddRoute r) (routes, c) = (AddDone, routes @ [r], invalidate_cache c)"
| "thread_step fs (LookDone ep ce) (routes, c) = (LookDone ep ce, routes, c)"
| "thread_step fs AddDone (routes, c) = (AddDone, routes, c)"

definition race_step :: "filter_store \<Rightarrow> nat \<Rightarrow> race_state \<Rightarrow> race_state" where
  "race_step fs i s =
     (if i < length (rs_pcs s)
      then (case thread_step fs (rs_pcs s ! i) (rs_routes s, rs_cache s) of (pc, routes, c) \<Rightarrow>
              \<lparr>rs_routes = routes, rs_cache = c, rs_pcs = (rs_pcs s)[i := pc]\<rparr>)
      else s)"

definition race_run :: "filter_store \<Rightarrow> nat list \<Rightarrow> race_state \<Rightarrow> race_state" where
  "race_run fs sched s = fold (race_step fs) sched s"

lemma run_alone:
  "rs_pcs s = [LookStart ep] \<Longrightarrow>
   (let s' = race_run fs [0, 0, 0, 0] s
    in rs_pcs s' = [LookDone ep (fst (cached_route_mask fs (rs_routes s) ep (rs_cache s)))] \<and>
       rs_cache s' = snd (cached_route_mask fs (rs_routes s) ep (rs_cache s)) \<and>
       rs_routes s' = rs_routes s)"
  by (simp add: race_run_def race_step_def cached_route_mask_def Let_def split: option.split)

subsection \<open>While the routes stay\<close>

definition pc_right :: "filter_store \<Rightarrow> route list \<Rightarrow> route_cache \<Rightarrow> lookup_pc \<Rightarrow> bool" where
  "pc_right fs routes c pc \<longleftrightarrow>
     (case pc of
        LookStart ep \<Rightarrow> True
      | LookFind ep \<Rightarrow> \<not> rc_dirty c
      | LookCompute ep \<Rightarrow> \<not> rc_dirty c
      | LookEmplace ep ce \<Rightarrow> \<not> rc_dirty c \<and> ce = compute_cache_entry fs routes ep
      | LookDone ep ce \<Rightarrow> ce = compute_cache_entry fs routes ep
      | AddRoute r \<Rightarrow> False
      | AddDone \<Rightarrow> True)"

definition race_ok :: "filter_store \<Rightarrow> race_state \<Rightarrow> bool" where
  "race_ok fs s \<longleftrightarrow>
     cache_coherent fs (rs_routes s) (rs_cache s) \<and>
     list_all (pc_right fs (rs_routes s) (rs_cache s)) (rs_pcs s)"

lemma thread_step_right:
  assumes "thread_step fs pc (routes, c) = (pc', routes', c')" "pc_right fs routes c pc"
    "cache_coherent fs routes c"
  shows "routes' = routes \<and> cache_coherent fs routes c' \<and> pc_right fs routes c' pc' \<and>
    (rc_dirty c' \<longrightarrow> rc_dirty c)"
proof (cases pc)
  case (LookStart ep)
  with assms coherent_refresh [OF assms(3)] show ?thesis by (auto simp: pc_right_def)
next
  case (LookFind ep)
  with assms show ?thesis by (auto simp: pc_right_def cache_coherent_def split: option.splits)
next
  case (LookEmplace ep ce)
  with assms coherent_emplace [OF assms(3)] show ?thesis by (auto simp: pc_right_def)
qed (use assms in \<open>auto simp: pc_right_def\<close>)

lemma pc_right_clean: "pc_right fs routes c pc \<Longrightarrow> rc_dirty c' \<longrightarrow> rc_dirty c \<Longrightarrow> pc_right fs routes c' pc"
  by (auto simp: pc_right_def split: lookup_pc.splits)

lemma race_step_ok:
  assumes "race_ok fs s"
  shows "race_ok fs (race_step fs i s) \<and> rs_routes (race_step fs i s) = rs_routes s"
proof (cases "i < length (rs_pcs s)")
  case False
  then show ?thesis using assms by (simp add: race_step_def)
next
  case True
  obtain pc routes c where st: "thread_step fs (rs_pcs s ! i) (rs_routes s, rs_cache s) = (pc, routes, c)"
    by (metis prod_cases3)
  have pcs: "\<forall>p \<in> set (rs_pcs s). pc_right fs (rs_routes s) (rs_cache s) p"
    and coh: "cache_coherent fs (rs_routes s) (rs_cache s)"
    using assms by (simp_all add: race_ok_def list_all_iff)
  have "pc_right fs (rs_routes s) (rs_cache s) (rs_pcs s ! i)" using pcs True by simp
  note right = thread_step_right [OF st this coh]
  have "\<forall>p \<in> set (rs_pcs s). pc_right fs (rs_routes s) c p"
    using pcs right pc_right_clean by blast
  then have "\<forall>p \<in> set ((rs_pcs s)[i := pc]). pc_right fs (rs_routes s) c p"
    using right set_update_subset_insert [of "rs_pcs s" i pc] by blast
  with right st True show ?thesis by (simp add: race_step_def race_ok_def list_all_iff)
qed

interpretation lookups: invariant_system
    "\<lambda>s. rs_routes s = routes \<and> race_ok fs s" "\<lambda>s t. \<exists>i. t = race_step fs i s"
    "\<lambda>s. rs_routes s = routes \<and> race_ok fs s" for fs routes
  using race_step_ok by unfold_locales auto

lemma race_run_reaches: "(\<lambda>s t. \<exists>i. t = race_step fs i s)\<^sup>*\<^sup>* s (race_run fs sched s)"
proof (induction sched arbitrary: s)
  case Nil
  then show ?case by (simp add: race_run_def)
next
  case (Cons i sched)
  then show ?case by (auto simp: race_run_def intro: converse_rtranclp_into_rtranclp)
qed

text \<open>
  C28. As long as no route is added, any number of concurrent lookups agree with the routes: in
  every interleaving of their phases, whatever entry a lookup has returned is the one the routes
  give, and the cache stays coherent.
\<close>

theorem concurrent_lookups_right:
  assumes "cache_coherent fs routes c"
    "race_run fs sched \<lparr>rs_routes = routes, rs_cache = c, rs_pcs = map LookStart eps\<rparr> = s"
    "LookDone ep ce \<in> set (rs_pcs s)"
  shows "ce = compute_cache_entry fs routes ep \<and> cache_coherent fs routes (rs_cache s)"
proof -
  let ?s0 = "\<lparr>rs_routes = routes, rs_cache = c, rs_pcs = map LookStart eps\<rparr>"
  have "rs_routes ?s0 = routes \<and> race_ok fs ?s0"
    using assms(1) by (simp add: race_ok_def list_all_iff pc_right_def)
  from lookups.reach_inv [OF this race_run_reaches, of sched] assms(2)
  have "rs_routes s = routes" "race_ok fs s" by simp_all
  with assms(3) show ?thesis by (auto simp: race_ok_def list_all_iff pc_right_def)
qed

lemmas race_eval = race_run_def race_step_def refresh_cache_def invalidate_cache_def emplace_def
  initial_cache_def compute_cache_entry_def scan_route_def visit_route_def default_cache_entry_def
  plain_route_def route_builder_defs severity_defs mask_has_def

theorem concurrent_lookups_right_witness:
  "LookDone ''a'' (compute_cache_entry info_store [plain_route] ''a'') \<in>
     set (rs_pcs (race_run info_store [0, 1, 0, 1, 1, 1, 0, 0]
       \<lparr>rs_routes = [plain_route], rs_cache = initial_cache, rs_pcs = map LookStart [''a'', ''a'']\<rparr>))"
proof -
  let ?s = "race_run info_store [0, 1, 0, 1, 1, 1, 0, 0]
    \<lparr>rs_routes = [plain_route], rs_cache = initial_cache, rs_pcs = map LookStart [''a'', ''a'']\<rparr>"
  have "\<exists>ce. LookDone ''a'' ce \<in> set (rs_pcs ?s)"
    by (simp add: race_eval Let_def)
  then show ?thesis
    using concurrent_lookups_right [OF coherent_initial refl, of "''a''"] by blast
qed


end
