(* ===== verification/Backpressure.thy ===== *)
theory Backpressure
  imports Crossbar_Runs "HOL-Library.Sublist"
begin

section \<open>Backpressure\<close>

text \<open>
  A submission that meets a full lane of a \<open>block_when_full\<close> route waits in
  \<open>WorkersEventQueue::push_blocking\<close> until there is room. Here the workers of a running crossbar act
  in the order of a schedule while one caller waits, and the caller tests its predicate again after
  each of their steps (its wake-ups; the ones that can get lost are the subject of
  \<open>Queue_Threads\<close>). What a submission adds to which lane is recorded, waits included, and the
  waiting is shown to end.
\<close>

subsection \<open>Waiting for room\<close>

fun await ::
  "platform \<Rightarrow> filter_store \<Rightarrow> 'q workers \<Rightarrow> event \<Rightarrow> u64 \<Rightarrow> nat list \<Rightarrow> submit_result \<Rightarrow> 'q crossbar \<Rightarrow>
   effect list \<times> submit_result \<times> 'q crossbar" where
  "await P fs W e route_mask [] r x = ([], r, x)"
| "await P fs W e route_mask (i # sched) r x =
     (case r of
        Submitted d \<Rightarrow> ([], Submitted d, x)
      | BlockedAt k d \<Rightarrow>
          (case work_at P fs W i (xb_lanes x) of (es, lanes) \<Rightarrow>
             case crossbar_resume W e route_mask True k d (x\<lparr>xb_lanes := lanes\<rparr>) of (r1, x1) \<Rightarrow>
               case await P fs W e route_mask sched r1 x1 of (es', r2, x2) \<Rightarrow> (es @ es', r2, x2)))"

subsection \<open>What a submission adds to the lanes\<close>

text \<open>The lanes a submission has dealt with when it stands at \<open>r\<close>, begun at lane \<open>i\<close>.\<close>

definition passed :: "submit_result \<Rightarrow> nat \<Rightarrow> bool" where
  "passed r j \<longleftrightarrow> (case r of Submitted d \<Rightarrow> True | BlockedAt k d \<Rightarrow> j < k)"

definition due :: "u64 \<Rightarrow> nat \<Rightarrow> submit_result \<Rightarrow> nat \<Rightarrow> bool" where
  "due route_mask i r j \<longleftrightarrow> i \<le> j \<and> j < 64 \<and> mask_has route_mask j \<and> passed r j"

text \<open>
  \<open>t\<close> is what each lane took: the event or nothing, and a lane that blocks when it is full took
  the event whenever it was due.
\<close>

definition takes ::
  "route list \<Rightarrow> u64 \<Rightarrow> event \<Rightarrow> nat \<Rightarrow> submit_result \<Rightarrow> (nat \<Rightarrow> event list) \<Rightarrow> bool" where
  "takes routes route_mask e i r t \<longleftrightarrow>
     (\<forall>j < length routes. (t j = [] \<or> t j = [e] \<and> due route_mask i r j) \<and>
        (rt_strategy (routes ! j) = Some BlockWhenFull \<and> due route_mask i r j \<longrightarrow> t j = [e]))"

definition at_or_after :: "nat \<Rightarrow> submit_result \<Rightarrow> bool" where
  "at_or_after k r \<longleftrightarrow> (case r of Submitted d \<Rightarrow> True | BlockedAt k' d \<Rightarrow> k \<le> k')"

lemma takes_trans:
  assumes "takes routes route_mask e i (BlockedAt k d) t1" "takes routes route_mask e k r t2"
    "at_or_after k r" "i \<le> k"
  shows "takes routes route_mask e i r (\<lambda>j. t1 j @ t2 j)"
proof -
  have "(t1 j @ t2 j = [] \<or> t1 j @ t2 j = [e] \<and> due route_mask i r j) \<and>
      (rt_strategy (routes ! j) = Some BlockWhenFull \<and> due route_mask i r j \<longrightarrow> t1 j @ t2 j = [e])"
    if "j < length routes" for j
    using assms that
    by (cases "j < k") (fastforce simp: takes_def due_def passed_def at_or_after_def split: submit_result.splits)+
  then show ?thesis by (simp add: takes_def)
qed

text \<open>The loop never goes past a lane at which it would have to wait.\<close>

lemma submit_loop_no_wait:
  "submit_loop W e route_mask accepting i d lanes = (r, lanes') \<Longrightarrow>
   j < length lanes \<Longrightarrow> due route_mask i r (i + j) \<Longrightarrow> ln_queue (lanes ! j) = Some q \<Longrightarrow>
   fst (offer W e accepting (ln_route (lanes ! j)) q) \<noteq> Waits"
proof (induction lanes arbitrary: i d lanes' j)
  case Nil
  then show ?case by simp
next
  case (Cons l ls)
  have i: "i < 64" "r \<noteq> BlockedAt i d" using Cons.prems(3) by (auto simp: due_def passed_def)
  show ?case
  proof (cases j)
    case 0
    with Cons.prems i show ?thesis
      by (auto simp: Let_def due_def split: prod.splits)
  next
    case (Suc j')
    from Cons.prems(1) i obtain d0 ls' where
      "submit_loop W e route_mask accepting (Suc i) d0 ls = (r, ls')"
      by (auto simp: Let_def split: if_splits option.splits prod.splits push_outcome.splits)
    from Cons.IH [OF this, of j'] Cons.prems(2-4) Suc show ?thesis by (auto simp: due_def)
  qed
qed

lemma resume_blocked:
  assumes "workers_ok W items closed" "crossbar_ok items closed x"
    "crossbar_resume W e route_mask accepting i d x = (BlockedAt k d', x')"
  shows "i \<le> k" "k < length (xb_lanes x)" "k < 64" "mask_has route_mask k"
    "blocks items accepting (xb_lanes x ! k)" "blocks items accepting (xb_lanes x' ! k)"
proof -
  obtain ls where "submit_loop W e route_mask accepting i d (drop i (xb_lanes x)) = (BlockedAt k d', ls)"
    using assms(3) by (auto simp: crossbar_resume_def split: prod.splits)
  from submit_loop_blocked [OF this] obtain q where
    k: "i \<le> k" "k < length (xb_lanes x)" "k < 64" "mask_has route_mask k"
    and q: "ln_queue (xb_lanes x ! k) = Some q"
      "fst (offer W e accepting (ln_route (xb_lanes x ! k)) q) = Waits"
    by (auto simp: nth_drop)
  then show "i \<le> k" "k < length (xb_lanes x)" "k < 64" "mask_has route_mask k" by simp_all
  have ok: "lane_ok items (xb_lanes x ! k)" using assms(2) k(2) by (simp add: crossbar_ok_def)
  note lo = lane_offered_spec [OF assms(1) ok, where e = e and accepting = accepting]
  show blk: "blocks items accepting (xb_lanes x ! k)" using lo(5) [OF q(1)] q(2) by simp
  obtain qi oc where o: "queue_inv items q"
    "offer W e accepting (ln_route (xb_lanes x ! k)) q = (Waits, oc)"
    using ok q by (cases "offer W e accepting (ln_route (xb_lanes x ! k)) q") (auto simp: lane_ok_def)
  then have "lane_offered W e accepting (xb_lanes x ! k) = (xb_lanes x ! k)\<lparr>ln_queue := Some oc\<rparr>"
    using q(1) by (simp add: lane_offered_def)
  with offer_spec [OF assms(1) o] q(1) blk
  have "blocks items accepting (lane_offered W e accepting (xb_lanes x ! k))"
    by (simp add: blocks_def)
  with crossbar_resume_lanes(4) [OF assms(3) k(2)] k
  show "blocks items accepting (xb_lanes x' ! k)" by (simp add: reached_def)
qed

lemma live_admits:
  assumes "live items closed l" "rt_strategy (ln_route l) = Some BlockWhenFull" "\<not> blocks items True l"
  shows "admits items closed True l"
proof -
  obtain q where q: "ln_queue l = Some q" "queue_inv items q"
    using assms by (auto simp: live_def lane_ok_def)
  have "length (items (eq_queue q)) \<le> unat (eq_capacity q)" by (rule queue_inv_bounded [OF q(2)])
  with assms q(1) show ?thesis
    by (auto simp: admits_def blocks_def live_def lane_shut_def)
qed

lemma resume_takes:
  assumes "workers_ok W items closed" "crossbar_ok items closed x" "xb_running x"
    "crossbar_resume W e route_mask True i d x = (r, x')"
  shows "takes (map ln_route (xb_lanes x)) route_mask e i r (newly_queued items x x')" "at_or_after i r"
proof -
  obtain ls where ls: "submit_loop W e route_mask True i d (drop i (xb_lanes x)) = (r, ls)"
    using assms(4) by (auto simp: crossbar_resume_def split: prod.splits)
  have "newly_queued items x x' j = (if due route_mask i r j \<and> admits items closed True (xb_lanes x ! j)
      then [e] else []) \<and>
    (rt_strategy (ln_route (xb_lanes x ! j)) = Some BlockWhenFull \<and> due route_mask i r j \<longrightarrow>
       admits items closed True (xb_lanes x ! j))" if j: "j < length (xb_lanes x)" for j
  proof -
    have lv: "live items closed (xb_lanes x ! j)" and ok: "lane_ok items (xb_lanes x ! j)"
      using assms(2,3) j by (simp_all add: crossbar_ok_def)
    obtain q where q: "ln_queue (xb_lanes x ! j) = Some q" using ok by (auto simp: lane_ok_def)
    have nw: "\<not> blocks items True (xb_lanes x ! j)" if "due route_mask i r j"
    proof -
      have "i \<le> j" using that by (simp add: due_def)
      with submit_loop_no_wait [OF ls, of "j - i" q] that q j lane_offered_spec(5) [OF assms(1) ok q]
      show ?thesis by simp
    qed
    have "took items closed True route_mask i r x j \<longleftrightarrow>
        due route_mask i r j \<and> admits items closed True (xb_lanes x ! j)"
    proof (cases r)
      case (Submitted d')
      then show ?thesis by (auto simp: took_def due_def passed_def reached_def)
    next
      case (BlockedAt k d')
      then have "blocks items True (xb_lanes x ! k)"
        using resume_blocked(5) [OF assms(1,2)] assms(4) by simp
      then have "\<not> admits items closed True (xb_lanes x ! k)"
        by (auto simp: blocks_def admits_def split: option.splits)
      with BlockedAt show ?thesis by (auto simp: took_def due_def passed_def reached_def le_less)
    qed
    moreover have "rt_strategy (ln_route (xb_lanes x ! j)) = Some BlockWhenFull \<and> due route_mask i r j \<longrightarrow>
        admits items closed True (xb_lanes x ! j)"
      using live_admits [OF lv] nw by blast
    ultimately show ?thesis
      using crossbar_resume_spec(1) [OF assms(1,2,4) j] by (simp add: newly_queued_def)
  qed
  then show "takes (map ln_route (xb_lanes x)) route_mask e i r (newly_queued items x x')"
    by (simp add: takes_def)
  show "at_or_after i r"
    using resume_blocked(1) [OF assms(1,2)] assms(4) by (cases r) (auto simp: at_or_after_def)
qed

subsection \<open>The waiting ends\<close>

lemma live_worker_takes:
  assumes "workers_ok W items closed" "live items closed l" "lane_items items l = e # rest"
    "worker_step P fs W l = (es, l')"
  shows "es = process P fs (ln_route l) e" "lane_items items l' = rest"
    "blocks items accepting l \<Longrightarrow> \<not> blocks items accepting' l'"
proof -
  obtain q where q: "ln_queue l = Some q" "queue_inv items q" "ln_worker l = Popping"
    "items (eq_queue q) = e # rest" "\<not> closed (eq_queue q)" "\<not> ln_stop l"
    using assms(2,3) by (auto simp: live_def lane_simps)
  obtain r q' where p: "pop_blocking W (ln_stop l) q = (r, q')" by fastforce
  from pop_blocking_spec [OF assms(1) q(2) p] q(4-6)
  have r: "r = PopOk e" "items (eq_queue q') = rest" "eq_capacity q' = eq_capacity q"
    by (auto split: pop_result.splits)
  with assms(4) q(1,3) p have l': "es = process P fs (ln_route l) e" "l' = l\<lparr>ln_queue := Some q'\<rparr>"
    by (simp_all add: worker_step_def Let_def)
  then show "es = process P fs (ln_route l) e" "lane_items items l' = rest"
    using r by (simp_all add: lane_items_def)
  show "\<not> blocks items accepting' l'" if "blocks items accepting l"
    using that l'(2) q(1,4) r by (auto simp: blocks_def)
qed

text \<open>A caller stands at a full lane of a running crossbar.\<close>

definition stands ::
  "('q \<Rightarrow> event list) \<Rightarrow> ('q \<Rightarrow> bool) \<Rightarrow> u64 \<Rightarrow> submit_result \<Rightarrow> 'q crossbar \<Rightarrow> bool" where
  "stands items closed route_mask r x \<longleftrightarrow>
     crossbar_ok items closed x \<and> xb_running x \<and>
     (\<forall>k d. r = BlockedAt k d \<longrightarrow>
        k < length (xb_lanes x) \<and> k < 64 \<and> mask_has route_mask k \<and> blocks items True (xb_lanes x ! k))"

lemma resume_stands:
  assumes "workers_ok W items closed" "crossbar_ok items closed x" "xb_running x"
    "crossbar_resume W e route_mask True i d x = (r, x')"
  shows "stands items closed route_mask r x'"
    "conserves P fs items closed x (newly_queued items x x') (\<lambda>_. []) [] x'"
proof -
  note res = crossbar_resume_lanes [OF assms(4)]
  have "k < length (xb_lanes x') \<and> k < 64 \<and> mask_has route_mask k \<and> blocks items True (xb_lanes x' ! k)"
    if r: "r = BlockedAt k d'" for k d'
    using resume_blocked(2,3,4,6) [OF assms(1,2) assms(4) [unfolded r]] res(1) by simp
  with crossbar_resume_spec(3) [OF assms(1,2,4)] res(2) assms(3)
  show "stands items closed route_mask r x'" by (simp add: stands_def)
  from crossbar_resume_spec [OF assms(1,2,4)] res
  show "conserves P fs items closed x (newly_queued items x x') (\<lambda>_. []) [] x'"
    by (auto simp: conserves_def newly_queued_def)
qed

lemma work_conserves:
  assumes "workers_ok W items closed" "crossbar_ok items closed x"
    "work_at P fs W i (xb_lanes x) = (es, lanes)"
  shows "\<exists>h. conserves P fs items closed x (\<lambda>_. []) h es (x\<lparr>xb_lanes := lanes\<rparr>)"
proof -
  have st: "xb_step P fs W (XWork i) x = (es, x\<lparr>xb_lanes := lanes\<rparr>)" using assms(3) by simp
  have ok: "\<forall>l \<in> set (xb_lanes x). lane_ok items l" using assms(2) by (simp add: crossbar_ok_def)
  from work_at_evolves [OF assms(1) ok assms(3)] obtain h where
    h: "all_evolve items closed (xb_lanes x) h lanes" "produced P fs (xb_lanes x) h es" by blast
  from xb_step_conserves [OF assms(1,2) st] all_evolve_routes [OF h(1)] h
  have "conserves P fs items closed x (\<lambda>_. []) h es (x\<lparr>xb_lanes := lanes\<rparr>)"
    by (auto simp: conserves_def all_evolve_def evolves_def)
  then show ?thesis by blast
qed

text \<open>One wake-up: a step of some worker, then the caller goes on from where it stood.\<close>

lemma wake_up:
  assumes "workers_ok W items closed" "stands items closed route_mask (BlockedAt k d) x"
    "work_at P fs W i (xb_lanes x) = (es, lanes)"
    "crossbar_resume W e route_mask True k d (x\<lparr>xb_lanes := lanes\<rparr>) = (r, x')"
  shows "\<exists>h t. conserves P fs items closed x t h es x' \<and>
      takes (map ln_route (xb_lanes x)) route_mask e k r t"
    "stands items closed route_mask r x'" "at_or_after k r"
    "i = k \<Longrightarrow> at_or_after (Suc k) r"
proof -
  let ?x = "x\<lparr>xb_lanes := lanes\<rparr>"
  have x: "crossbar_ok items closed x" "xb_running x" and k: "k < length (xb_lanes x)"
    "blocks items True (xb_lanes x ! k)"
    using assms(2) by (auto simp: stands_def)
  from work_conserves [OF assms(1) x(1) assms(3)] obtain h where
    w: "conserves P fs items closed x (\<lambda>_. []) h es ?x" by blast
  then have ok: "crossbar_ok items closed ?x" "xb_running ?x"
    and routes: "map ln_route (xb_lanes ?x) = map ln_route (xb_lanes x)"
    using x(2) by (simp_all add: conserves_def)
  note rs = resume_stands [OF assms(1) ok assms(4)] resume_takes [OF assms(1) ok assms(4)]
  from rs show "stands items closed route_mask r x'" "at_or_after k r" by simp_all
  from conserves_trans [OF w rs(2)] rs(3) routes
  show "\<exists>h t. conserves P fs items closed x t h es x' \<and>
      takes (map ln_route (xb_lanes x)) route_mask e k r t"
    by (intro exI [of _ h] exI [of _ "newly_queued items ?x x'"]) simp
  assume "i = k"
  then obtain l' where l': "worker_step P fs W (xb_lanes x ! k) = (es, l')" "lanes = (xb_lanes x)[k := l']"
    using assms(3) k(1) by (auto simp: work_at_def split: prod.splits)
  have lv: "live items closed (xb_lanes x ! k)" using x k(1) by (simp add: crossbar_ok_def)
  have "lane_items items (xb_lanes x ! k) \<noteq> []"
    using lv k(2) by (auto simp: blocks_def live_def lane_simps queue_inv_def word_le_nat_alt
        split: option.splits)
  then obtain e' rest where "lane_items items (xb_lanes x ! k) = e' # rest" by (auto simp: neq_Nil_conv)
  from live_worker_takes(3) [OF assms(1) lv this l'(1) k(2)]
  have "\<not> blocks items True (xb_lanes ?x ! k)" using l'(2) k(1) by simp
  then show "at_or_after (Suc k) r"
    using resume_blocked(5) [OF assms(1) ok(1)] rs(4) assms(4)
    by (cases r) (auto simp: at_or_after_def Suc_le_eq le_less)
qed

lemma await_Submitted [simp]:
  "await P fs W e route_mask sched (Submitted d) x = ([], Submitted d, x)"
  by (cases sched) simp_all

lemma await_spec:
  assumes "workers_ok W items closed"
  shows "stands items closed route_mask (BlockedAt k d) x \<Longrightarrow>
    await P fs W e route_mask sched (BlockedAt k d) x = (es, r, x') \<Longrightarrow>
    (\<exists>h t. conserves P fs items closed x t h es x' \<and>
       takes (map ln_route (xb_lanes x)) route_mask e k r t) \<and>
    stands items closed route_mask r x' \<and> at_or_after k r \<and>
    (subseq [k..<min 64 (length (xb_lanes x))] sched \<longrightarrow> (\<exists>d'. r = Submitted d'))"
proof (induction sched arbitrary: k d x es)
  case Nil
  then have "conserves P fs items closed x (\<lambda>_. []) (\<lambda>_. []) es x'"
    by (auto simp: conserves_def stands_def)
  moreover have "takes (map ln_route (xb_lanes x)) route_mask e k r (\<lambda>_. [])"
    using Nil by (auto simp: takes_def due_def passed_def)
  ultimately show ?case using Nil by (auto simp: at_or_after_def stands_def)
next
  case (Cons i sched)
  obtain es1 lanes where w: "work_at P fs W i (xb_lanes x) = (es1, lanes)" by fastforce
  obtain r1 x1 where s: "crossbar_resume W e route_mask True k d (x\<lparr>xb_lanes := lanes\<rparr>) = (r1, x1)"
    by fastforce
  obtain es2 where a: "await P fs W e route_mask sched r1 x1 = (es2, r, x')" "es = es1 @ es2"
    using Cons.prems(2) w s by (auto split: prod.splits)
  note wk = wake_up [OF assms Cons.prems(1) w s]
  from wk(1) obtain h1 t1 where one: "conserves P fs items closed x t1 h1 es1 x1"
    "takes (map ln_route (xb_lanes x)) route_mask e k r1 t1" by blast
  have routes: "map ln_route (xb_lanes x1) = map ln_route (xb_lanes x)"
    using one(1) by (simp add: conserves_def)
  then have len: "length (xb_lanes x1) = length (xb_lanes x)" by (rule map_eq_imp_length_eq)
  show ?case
  proof (cases r1)
    case (Submitted d1)
    with a one wk(2,3) show ?thesis by auto
  next
    case (BlockedAt k1 d1)
    from Cons.IH [OF wk(2) [unfolded BlockedAt] a(1) [unfolded BlockedAt]] obtain h2 t2 where
      two: "conserves P fs items closed x1 t2 h2 es2 x'"
        "takes (map ln_route (xb_lanes x)) route_mask e k1 r t2"
        "stands items closed route_mask r x'" "at_or_after k1 r"
        "subseq [k1..<min 64 (length (xb_lanes x))] sched \<longrightarrow> (\<exists>d'. r = Submitted d')"
      unfolding routes len by blast
    have k: "k \<le> k1" "i = k \<Longrightarrow> Suc k \<le> k1" using wk(3,4) BlockedAt by (auto simp: at_or_after_def)
    let ?n = "min 64 (length (xb_lanes x))"
    have "k < ?n" using Cons.prems(1) by (simp add: stands_def)
    then have ks: "[k..<?n] = k # [Suc k..<?n]" by (rule upt_conv_Cons)
    have suffix: "subseq [k1..<?n] sched" if "subseq [k'..<?n] sched" "k' \<le> k1" for k'
    proof (cases "k1 \<le> ?n")
      case True
      with that(2) have "[k'..<?n] = [k'..<k1] @ [k1..<?n]"
        by (metis le_add_diff_inverse upt_add_eq_append)
      with that(1) show ?thesis by (metis suffix_def suffix_imp_subseq subseq_order.order_trans)
    next
      case False
      then have "[k1..<?n] = []" by (auto simp only: upt_eq_Nil_conv)
      then show ?thesis by (simp only: list_emb_Nil)
    qed
    have "subseq [k1..<?n] sched" if "subseq [k..<?n] (i # sched)"
    proof (cases "i = k")
      case True
      with that ks have "subseq [Suc k..<?n] sched" by simp
      from suffix [OF this k(2) [OF True]] show ?thesis .
    next
      case False
      with that ks have "subseq [k..<?n] sched" by simp
      from suffix [OF this k(1)] show ?thesis .
    qed
    with two(5) have "subseq [k..<?n] (i # sched) \<longrightarrow> (\<exists>d'. r = Submitted d')" by blast
    moreover have "takes (map ln_route (xb_lanes x)) route_mask e k r (\<lambda>j. t1 j @ t2 j)"
      using takes_trans [OF _ two(2,4) k(1)] one(2) BlockedAt by blast
    moreover have "at_or_after k r" using two(4) k(1) by (auto simp: at_or_after_def split: submit_result.splits)
    ultimately show ?thesis
      using conserves_trans [OF one(1) two(1)] two(3) a(2) by blast
  qed
qed

text \<open>A fair schedule has the lanes' numbers in order in some beginning of it.\<close>

lemma fair_subseq:
  "\<forall>i < n. \<forall>m. \<exists>m' \<ge> m. (sched :: nat \<Rightarrow> nat) m' = i \<Longrightarrow>
   \<exists>N. subseq [0..<n] (map sched [0..<N])"
proof (induction n)
  case 0
  then show ?case by simp
next
  case (Suc n)
  then obtain N where N: "subseq [0..<n] (map sched [0..<N])" by auto
  from Suc.prems obtain m where m: "N \<le> m" "sched m = n" by blast
  have "map sched [0..<m] = map sched [0..<N] @ map sched [N..<m]"
    using m(1) by (metis le_add_diff_inverse map_append upt_add_eq_append zero_le)
  then have "subseq [0..<n] (map sched [0..<m])" using N by (simp add: list_emb_prefix)
  then have "subseq ([0..<n] @ [n]) (map sched [0..<m] @ [sched m])"
    using m(2) by (simp add: list_emb_append_mono)
  then show ?case by (intro exI [of _ "Suc m"]) simp
qed

lemma subseq_upt_window: "a \<le> b \<Longrightarrow> c \<le> d \<Longrightarrow> subseq [b..<c] [a..<(d :: nat)]"
proof (cases "b \<le> c")
  case True
  assume "a \<le> b" "c \<le> d"
  with True have "[a..<d] = [a..<b] @ [b..<c] @ [c..<d]"
    by (metis le_add_diff_inverse le_trans upt_add_eq_append append.assoc)
  then show ?thesis by (simp add: list_emb_append2 list_emb_prefix)
qed simp


definition full_crossbar :: "(event list \<times> bool) crossbar" where
  "full_crossbar = snd (crossbar_submit list_workers sample_event 1 True
     (snd (crossbar_submit list_workers sample_event 1 True demo_crossbar)))"

lemma full_crossbar_ok: "crossbar_ok fst snd full_crossbar" "xb_running full_crossbar"
    "length (xb_lanes full_crossbar) = 1" "ln_route (xb_lanes full_crossbar ! 0) = plain_route"
    "queued fst full_crossbar 0 = [sample_event, sample_event]"
proof -
  obtain r1 x1 where 1: "crossbar_resume list_workers sample_event 1 True 0 False demo_crossbar = (r1, x1)"
    by fastforce
  obtain r2 where 2: "crossbar_resume list_workers sample_event 1 True 0 False x1 = (r2, full_crossbar)"
    using 1 by (simp add: full_crossbar_def crossbar_submit_def prod_eq_iff)
  note s1 = crossbar_resume_spec [OF list_workers_ok demo_crossbar_ok(1) 1]
    crossbar_resume_lanes(1,2) [OF 1]
  note s2 = crossbar_resume_spec [OF list_workers_ok s1(3) 2] crossbar_resume_lanes(1,2) [OF 2]
  show "crossbar_ok fst snd full_crossbar" "xb_running full_crossbar"
    "length (xb_lanes full_crossbar) = 1" "ln_route (xb_lanes full_crossbar ! 0) = plain_route"
    using s1 s2 demo_crossbar_ok by (auto simp: exclusive_def)
  show "queued fst full_crossbar 0 = [sample_event, sample_event]"
    by (simp add: full_crossbar_def crossbar_submit_def demo_defs lane_items_def Let_def)
qed


subsection \<open>Shutting down while callers wait\<close>

text \<open>Once the pipeline stops accepting, a caller that waits returns when it looks again.\<close>

lemma not_accepting_returns:
  assumes "workers_ok W items closed" "crossbar_ok items closed x"
    "crossbar_resume W e route_mask False k d x = (r, x')"
  shows "\<exists>d'. r = Submitted d'"
    "j < length (xb_lanes x) \<Longrightarrow> rt_strategy (ln_route (xb_lanes x ! j)) = Some BlockWhenFull \<Longrightarrow>
     queued items x' j = queued items x j"
proof -
  have "\<not> blocks items False l" for l by (simp add: blocks_def split: option.split)
  with resume_blocked(5) [OF assms(1,2)] assms(3) show "\<exists>d'. r = Submitted d'"
    by (cases r) (simp, metis)
  assume j: "j < length (xb_lanes x)" "rt_strategy (ln_route (xb_lanes x ! j)) = Some BlockWhenFull"
  then have "\<not> admits items closed False (xb_lanes x ! j)" by (simp add: admits_def split: option.split)
  with crossbar_resume_spec(1) [OF assms j(1)] show "queued items x' j = queued items x j"
    by (simp add: took_def)
qed

text \<open>A worker that was told to stop returns after a bounded number of its own steps.\<close>

definition returned :: "'q lane \<Rightarrow> bool" where
  "returned l \<longleftrightarrow> ln_worker l \<in> {NoThread, Finished}"

lemma returned_keeps: "returned l \<Longrightarrow> worker_step P fs W l = ([], l)"
  by (auto simp: returned_def worker_step_def)

lemma run_workers_returned:
  assumes "workers_ok W items closed"
  shows "\<forall>l \<in> set lanes. stopping items closed l \<Longrightarrow> run_workers P fs W sched lanes = (es, lanes') \<Longrightarrow>
    j < length lanes \<Longrightarrow> returned (lanes ! j) \<or> rank items (lanes ! j) \<le> count_list sched j \<Longrightarrow>
    returned (lanes' ! j)"
proof (induction sched arbitrary: lanes es)
  case Nil
  then show ?case by (auto simp: rank_def returned_def split: worker.splits)
next
  case (Cons i sched)
  obtain es1 lanes1 where w: "work_at P fs W i lanes = (es1, lanes1)" by fastforce
  obtain es2 where r: "run_workers P fs W sched lanes1 = (es2, lanes')"
    using Cons.prems(2) w by (auto split: prod.splits)
  have ok: "\<forall>l \<in> set lanes. lane_ok items l" using Cons.prems(1) by (simp add: stopping_def)
  from work_at_evolves [OF assms ok w] obtain d where
    d: "all_evolve items closed lanes d lanes1" by blast
  have len: "length lanes1 = length lanes" using d by (simp add: all_evolve_def)
  have stp: "\<forall>l \<in> set lanes1. stopping items closed l"
    by (rule stopping_set_evolves [OF d Cons.prems(1)])
  have "returned (lanes1 ! j) \<or> rank items (lanes1 ! j) \<le> count_list sched j"
  proof (cases "i = j")
    case False
    then have "lanes1 ! j = lanes ! j" using w by (auto simp: work_at_def split: prod.splits if_splits)
    with Cons.prems(4) False show ?thesis by simp
  next
    case True
    then obtain l' where l': "worker_step P fs W (lanes ! j) = (es1, l')" "lanes1 ! j = l'"
      using w Cons.prems(3) by (auto simp: work_at_def split: prod.splits)
    show ?thesis
    proof (cases "returned (lanes ! j)")
      case True
      with returned_keeps [OF True] l' show ?thesis by simp
    next
      case False
      then have act: "ln_worker (lanes ! j) \<in> {Popping, Draining}"
        by (cases "ln_worker (lanes ! j)") (auto simp: returned_def)
      have "lane_ok items (lanes ! j)" "stopping items closed (lanes ! j)"
        using Cons.prems(1,3) ok by simp_all
      with worker_step_spec [OF assms _ l'(1)] act have "rank items l' < rank items (lanes ! j)" by blast
      with Cons.prems(4) False True l'(2) show ?thesis by simp
    qed
  qed
  from Cons.IH [OF stp r _ this] Cons.prems(3) len show ?case by simp
qed

text \<open>
  C6. Stopping terminates within a bound that does not depend on the schedule: once the lanes of a
  running crossbar are told to stop, by \<open>close\<close> or by \<open>request_stop\<close>, a worker has returned after
  at most two more of its own steps than there are events in its queue, whatever the other workers
  do in between; if it was to drain, its queue is then empty.
\<close>

theorem worker_returns_in_time:
  assumes "workers_ok W items closed" "crossbar_ok items closed x" "xb_running x"
    "run_workers P fs W sched (map (signal_stop W drain) (xb_lanes x)) = (es, lanes')"
    "j < length (xb_lanes x)" "length (queued items x j) + 2 \<le> count_list sched j"
  shows "ln_worker (lanes' ! j) = Finished \<and> (drain \<longrightarrow> lane_items items (lanes' ! j) = [])"
proof -
  let ?sig = "map (signal_stop W drain) (xb_lanes x)"
  have lv: "live items closed l" "lane_ok items l" "ln_worker l = Popping" if "l \<in> set (xb_lanes x)" for l
    using assms(2,3) that by (auto simp: crossbar_ok_def live_def)
  note sig = stopping_signal [OF assms(1) lv(2), of _ drain]
  have stp: "\<forall>l \<in> set ?sig. stopping items closed l" using sig(1) lv(3) by simp
  have ok: "\<forall>l \<in> set ?sig. lane_ok items l" using stp by (simp add: stopping_def)
  have j: "xb_lanes x ! j \<in> set (xb_lanes x)" using assms(5) by simp
  have "rank items (?sig ! j) = length (queued items x j) + 2"
    using sig(2,4) [OF j] lv(3) [OF j] assms(5) by (simp add: rank_def)
  with run_workers_returned [OF assms(1) stp assms(4), of j] assms(5,6)
  have ret: "returned (lanes' ! j)" by simp
  from run_workers_evolves [OF assms(1) ok assms(4)] obtain d where
    d: "all_evolve items closed ?sig d lanes'" by blast
  then have ev: "evolves items closed (?sig ! j) (d j) (lanes' ! j)"
    using assms(5) by (auto simp: all_evolve_def)
  have "ln_worker (lanes' ! j) \<noteq> NoThread"
    using ev sig(4) [OF j] lv(3) [OF j] assms(5) by (simp add: evolves_def)
  with ret have "ln_worker (lanes' ! j) = Finished" by (auto simp: returned_def)
  moreover have "stopping items closed (lanes' ! j)"
    using ev stp assms(5) by (auto simp: evolves_def)
  moreover have "ln_drain (lanes' ! j) = drain"
    using ev sig(5) [OF j] lv(3) [OF j] assms(5) by (simp add: evolves_def)
  ultimately show ?thesis by (simp add: stopping_def)
qed

theorem worker_returns_in_time_witness:
  "\<exists>es lanes'. run_workers plain_platform info_store list_workers [0, 0, 0, 0]
       (map (signal_stop list_workers True) (xb_lanes full_crossbar)) = (es, lanes') \<and>
     ln_worker (lanes' ! 0) = Finished \<and> lane_items fst (lanes' ! 0) = []"
proof -
  obtain es lanes' where r: "run_workers plain_platform info_store list_workers [0, 0, 0, 0]
      (map (signal_stop list_workers True) (xb_lanes full_crossbar)) = (es, lanes')" by fastforce
  from worker_returns_in_time [OF list_workers_ok full_crossbar_ok(1,2) r, of 0] full_crossbar_ok(3,5) r
  show ?thesis by simp
qed

end
