(* ===== verification/Producers.thy ===== *)
theory Producers
  imports Lifecycle Backpressure
begin

section \<open>Many producers at a running pipeline\<close>

text \<open>
  Any number of threads log through a running asynchronous pipeline, each one call after the other:
  a call returns or waits at a full lane, a waiting call tries again, a worker makes a step, somebody
  flushes, in any order. The calls of different threads interleave between these actions. The theorem
  relates what every thread called to what the sinks have received once the calls have returned and
  the pipeline was closed.
\<close>

record pending_call =
  pc_event :: event
  pc_severity :: severity
  pc_lane :: nat
  pc_delivered :: bool
  pc_mask :: u64

record 'q producers =
  pd_pipeline :: "'q pipeline"
  pd_waiting :: "nat \<Rightarrow> pending_call option"

datatype pd_action =
    PdCall nat logger severity source_location int string
  | PdCallFields nat logger severity "field list" source_location int string
  | PdRetry nat
  | PdWork nat
  | PdFlush

text \<open>Where a call stands after a try; the flush of its severity follows when it returns.\<close>

primrec stand_of :: "event \<Rightarrow> severity \<Rightarrow> submit_state \<Rightarrow> pending_call option" where
  "stand_of e sev Returned = None"
| "stand_of e sev (WaitingAt k d m) =
     Some \<lparr>pc_event = e, pc_severity = sev, pc_lane = k, pc_delivered = d, pc_mask = m\<rparr>"

definition retry_call ::
  "'q workers \<Rightarrow> pending_call \<Rightarrow> 'q pipeline \<Rightarrow> submit_state \<times> effect list \<times> 'q pipeline" where
  "retry_call W c p =
     (case resume_submit W (pc_event c) (pc_lane c) (pc_delivered c) (pc_mask c) p of (r, p1) \<Rightarrow>
        (r, if r = Returned \<and> sev_flush_after (pc_severity c) then flush p1 else [], p1))"

text \<open>A thread that waits makes no other call.\<close>

fun pd_step ::
  "platform \<Rightarrow> filter_store \<Rightarrow> 'q workers \<Rightarrow> pd_action \<Rightarrow> 'q producers \<Rightarrow>
   (effect list \<times> 'q producers) option" where
  "pd_step P fs W (PdCall t lgr sev loc now message) s =
     (if pd_waiting s t \<noteq> None then None
      else case log_at P fs W lgr sev loc now t message (pd_pipeline s) of (r, es, p) \<Rightarrow>
        Some (es, \<lparr>pd_pipeline = p, pd_waiting = (pd_waiting s)
          (t := stand_of (make_event sev (lgr_endpoint lgr) now t loc message) sev r)\<rparr>))"
| "pd_step P fs W (PdCallFields t lgr sev fds loc now message) s =
     (if pd_waiting s t \<noteq> None then None
      else case log_fields_at P fs W lgr sev fds loc now t message (pd_pipeline s) of (r, es, p) \<Rightarrow>
        Some (es, \<lparr>pd_pipeline = p, pd_waiting = (pd_waiting s)
          (t := stand_of (set_fields fds (make_event sev (lgr_endpoint lgr) now t loc message)) sev r)\<rparr>))"
| "pd_step P fs W (PdRetry t) s =
     (case pd_waiting s t of
        None \<Rightarrow> None
      | Some c \<Rightarrow>
          (case retry_call W c (pd_pipeline s) of (r, es, p) \<Rightarrow>
             Some (es, \<lparr>pd_pipeline = p,
               pd_waiting = (pd_waiting s)(t := stand_of (pc_event c) (pc_severity c) r)\<rparr>)))"
| "pd_step P fs W (PdWork i) s =
     (case work P fs W i (pd_pipeline s) of (es, p) \<Rightarrow> Some (es, s\<lparr>pd_pipeline := p\<rparr>))"
| "pd_step P fs W PdFlush s = Some (flush (pd_pipeline s), s)"

fun pd_run ::
  "platform \<Rightarrow> filter_store \<Rightarrow> 'q workers \<Rightarrow> pd_action list \<Rightarrow> 'q producers \<Rightarrow>
   (effect list \<times> 'q producers) option" where
  "pd_run P fs W [] s = Some ([], s)"
| "pd_run P fs W (a # as) s =
     (case pd_step P fs W a s of
        None \<Rightarrow> None
      | Some (es, s1) \<Rightarrow>
          (case pd_run P fs W as s1 of None \<Rightarrow> None | Some (es', s2) \<Rightarrow> Some (es @ es', s2)))"

text \<open>The calls of a history, with their threads.\<close>

fun call_of :: "pd_action \<Rightarrow> (nat \<times> event) list" where
  "call_of (PdCall t lgr sev loc now message) = [(t, make_event sev (lgr_endpoint lgr) now t loc message)]"
| "call_of (PdCallFields t lgr sev fds loc now message) =
     [(t, set_fields fds (make_event sev (lgr_endpoint lgr) now t loc message))]"
| "call_of _ = []"

definition calls :: "pd_action list \<Rightarrow> (nat \<times> event) list" where
  "calls as = concat (map call_of as)"

definition by_thread :: "nat \<Rightarrow> (nat \<times> event) list \<Rightarrow> event list" where
  "by_thread t tes = map snd (filter (\<lambda>u. fst u = t) tes)"

lemma by_thread_simps [simp]:
  "by_thread t [] = []"
  "by_thread t (u # us) = (if fst u = t then [snd u] else []) @ by_thread t us"
  "by_thread t (us @ vs) = by_thread t us @ by_thread t vs"
  by (simp_all add: by_thread_def)

text \<open>Severities whose calls are queued: not forced onto the caller's thread, below \<open>fatal\<close>.\<close>

definition queueable :: "severity \<Rightarrow> bool" where
  "queueable sev \<longleftrightarrow> 100 \<le> sev_priority sev \<and> sev_priority sev < 600 \<and> \<not> sev_force_sync sev"

fun queued_action :: "pd_action \<Rightarrow> bool" where
  "queued_action (PdCall t lgr sev loc now message) = queueable sev"
| "queued_action (PdCallFields t lgr sev fds loc now message) = queueable sev"
| "queued_action _ = True"

subsection \<open>One try of one call\<close>

primrec stage :: "submit_state \<Rightarrow> submit_result" where
  "stage Returned = Submitted True"
| "stage (WaitingAt k d m) = BlockedAt k d"

text \<open>
  What a try from lane \<open>i\<close> on that ends in \<open>r\<close> gives a lane that blocks when full and wants the
  event; no lane gets an event that the global filters stop.
\<close>

definition wants :: "filter_store \<Rightarrow> 'q pipeline \<Rightarrow> nat \<Rightarrow> event \<Rightarrow> bool" where
  "wants fs p j e \<longleftrightarrow>
     filters_pass fs (pl_global_filters p) e \<and> filters_pass fs (rt_filters (pl_routes p ! j)) e"

definition steady :: "'q pipeline \<Rightarrow> nat \<Rightarrow> bool" where
  "steady p j \<longleftrightarrow> j < length (pl_routes p) \<and> j < 64 \<and>
     rt_strategy (pl_routes p ! j) = Some BlockWhenFull"

definition gives ::
  "filter_store \<Rightarrow> 'q pipeline \<Rightarrow> event \<Rightarrow> nat \<Rightarrow> submit_state \<Rightarrow> (nat \<Rightarrow> event list) \<Rightarrow> bool" where
  "gives fs p e i r t \<longleftrightarrow>
     (\<forall>j. steady p j \<longrightarrow>
        (t j = [] \<or> t j = [e] \<and> filters_pass fs (pl_global_filters p) e) \<and>
        (wants fs p j e \<longrightarrow> t j = (if i \<le> j \<and> passed (stage r) j then [e] else [])))"

definition masks ::
  "filter_store \<Rightarrow> 'q pipeline \<Rightarrow> event \<Rightarrow> u64 \<Rightarrow> bool" where
  "masks fs p e m \<longleftrightarrow>
     (\<forall>j < length (pl_routes p). j < 64 \<and>
        filters_pass fs (rt_filters (pl_routes p ! j)) e \<longrightarrow> mask_has m j) \<and>
     (\<forall>j. mask_has m j \<longrightarrow> j < length (pl_routes p) \<and> j < 64)"

text \<open>A place to wait at: a lane there is, selected, of a route that blocks.\<close>

definition waits_at :: "'q pipeline \<Rightarrow> u64 \<Rightarrow> nat \<Rightarrow> bool" where
  "waits_at p m k \<longleftrightarrow> steady p k \<and> mask_has m k"

definition resumable ::
  "filter_store \<Rightarrow> 'q pipeline \<Rightarrow> event \<Rightarrow> nat \<Rightarrow> submit_state \<Rightarrow> bool" where
  "resumable fs p e i r \<longleftrightarrow> (\<forall>k d m. r = WaitingAt k d m \<longrightarrow>
     i \<le> k \<and> filters_pass fs (pl_global_filters p) e \<and> masks fs p e m \<and> waits_at p m k)"

text \<open>The pipeline while the threads log: only the cache and the lanes move.\<close>

definition running_async :: "filter_store \<Rightarrow> ('q \<Rightarrow> event list) \<Rightarrow> ('q \<Rightarrow> bool) \<Rightarrow> 'q pipeline \<Rightarrow> bool" where
  "running_async fs items closed p \<longleftrightarrow>
     pipeline_ok fs items closed p \<and> pl_running p \<and> cfg_async_by_default (pl_cfg p)"

definition moves ::
  "platform \<Rightarrow> filter_store \<Rightarrow> ('q \<Rightarrow> event list) \<Rightarrow> ('q \<Rightarrow> bool) \<Rightarrow> 'q pipeline \<Rightarrow>
   (nat \<Rightarrow> event list) \<Rightarrow> (nat \<Rightarrow> event list) \<Rightarrow> effect list \<Rightarrow> 'q pipeline \<Rightarrow> bool" where
  "moves P fs items closed p t h es p' \<longleftrightarrow>
     (\<exists>x x' c. pl_crossbar p = Some x \<and> p' = p\<lparr>pl_cache := c, pl_crossbar := Some x'\<rparr> \<and>
        conserves P fs items closed x t h es x') \<and>
     running_async fs items closed p'"

lemma running_asyncE:
  assumes "running_async fs items closed p"
  obtains x where "pl_crossbar p = Some x" "crossbar_ok items closed x" "xb_running x"
    "crossbar_open closed x" "map ln_route (xb_lanes x) = pl_routes p" "pl_accepting p"
    "cache_coherent fs (pl_routes p) (pl_cache p)" "pipeline_ok fs items closed p"
  using assms by (auto simp: running_async_def pipeline_simps)

lemma moves_cache:
  assumes "running_async fs items closed p" "cache_coherent fs (pl_routes p) c"
  shows "moves P fs items closed p (\<lambda>_. []) (\<lambda>_. []) [] (p\<lparr>pl_cache := c\<rparr>)"
proof -
  obtain x where x: "pl_crossbar p = Some x" "crossbar_ok items closed x"
    using assms(1) by (rule running_asyncE)
  have "conserves P fs items closed x (\<lambda>_. []) (\<lambda>_. []) [] x" using x(2) by (simp add: conserves_def)
  moreover have "p\<lparr>pl_cache := c\<rparr> = p\<lparr>pl_cache := c, pl_crossbar := Some x\<rparr>" using x(1) by simp
  moreover have "running_async fs items closed (p\<lparr>pl_cache := c\<rparr>)"
    using assms by (auto simp: running_async_def pipeline_simps)
  ultimately show ?thesis using x(1) unfolding moves_def by blast
qed

lemma moves_keeps:
  assumes "moves P fs items closed p t h es p'"
  shows "pl_routes p' = pl_routes p" "pl_global_filters p' = pl_global_filters p" "pl_cfg p' = pl_cfg p"
    "steady p' j = steady p j" "wants fs p' j e = wants fs p j e" "masks fs p' e m = masks fs p e m"
    "running_async fs items closed p'" "waits_at p' m j = waits_at p m j"
  using assms by (auto simp: moves_def steady_def wants_def masks_def waits_at_def)

lemma moves_keeps_results:
  assumes "moves P fs items closed p t h es p'"
  shows "gives fs p' e i r u = gives fs p e i r u" "resumable fs p' e i r = resumable fs p e i r"
  unfolding gives_def resumable_def moves_keeps [OF assms] by (rule refl)+

lemma moves_trans:
  assumes "moves P fs items closed p t1 h1 es1 p1" "moves P fs items closed p1 t2 h2 es2 p2"
  shows "moves P fs items closed p (\<lambda>j. t1 j @ t2 j) (\<lambda>j. h1 j @ h2 j) (es1 @ es2) p2"
proof -
  from assms(1) obtain x x1 c1 where 1: "pl_crossbar p = Some x"
    "p1 = p\<lparr>pl_cache := c1, pl_crossbar := Some x1\<rparr>" "conserves P fs items closed x t1 h1 es1 x1"
    by (auto simp: moves_def)
  from assms(2) 1(2) obtain x2 c2 where 2:
    "p2 = p\<lparr>pl_cache := c2, pl_crossbar := Some x2\<rparr>" "conserves P fs items closed x1 t2 h2 es2 x2"
    by (auto simp: moves_def)
  from conserves_trans [OF 1(3) 2(2)] 1(1) 2(1) assms(2) show ?thesis
    unfolding moves_def by blast
qed

lemma moves_quiet:
  assumes "moves P fs items closed p t h es p'" "\<And>s. sink_bytes s fl = []"
  shows "moves P fs items closed p t h (es @ fl) p'"
proof -
  have "conserves P fs items closed x t h (es @ fl) x'" if "conserves P fs items closed x t h es x'" for x x'
    using that assms(2) by (simp add: conserves_def produced_def)
  with assms(1) show ?thesis unfolding moves_def by blast
qed

lemma pipeline_flush_bytes: "sink_bytes s (flush p) = []"
  by (simp add: flush_def flush_bytes split: option.split)

lemma resume_gives:
  assumes "workers_ok W items closed" "running_async fs items closed p" "pl_crossbar p = Some x"
    "crossbar_resume W e m True i d x = (r0, x')" "filters_pass fs (pl_global_filters p) e"
    "masks fs p e m" "r = (case r0 of Submitted _ \<Rightarrow> Returned | BlockedAt k d' \<Rightarrow> WaitingAt k d' m)"
  shows "\<exists>t. moves P fs items closed p t (\<lambda>_. []) [] (p\<lparr>pl_crossbar := Some x'\<rparr>) \<and>
    gives fs p e i r t \<and> resumable fs p e i r"
proof -
  have x: "crossbar_ok items closed x" "xb_running x" "map ln_route (xb_lanes x) = pl_routes p"
    "pipeline_ok fs items closed p"
    using assms(2,3) by (auto simp: running_async_def pipeline_simps)
  let ?t = "newly_queued items x x'"
  note rs = resume_stands(2) [OF assms(1) x(1,2) assms(4)] resume_takes [OF assms(1) x(1,2) assms(4)]
  have ok: "pipeline_ok fs items closed (p\<lparr>pl_crossbar := Some x'\<rparr>)"
    by (rule submitted_ok [OF assms(1) x(4) assms(3,4)])
  then have "running_async fs items closed (p\<lparr>pl_crossbar := Some x'\<rparr>)"
    using assms(2) by (simp add: running_async_def)
  moreover have "p\<lparr>pl_crossbar := Some x'\<rparr> = p\<lparr>pl_cache := pl_cache p, pl_crossbar := Some x'\<rparr>" by simp
  ultimately have mv: "moves P fs items closed p ?t (\<lambda>_. []) [] (p\<lparr>pl_crossbar := Some x'\<rparr>)"
    using rs(1) assms(3) unfolding moves_def by blast
  have stage: "passed (stage r) j = passed r0 j" for j
    using assms(7) by (auto simp: passed_def split: submit_result.splits)
  have "(?t j = [] \<or> ?t j = [e]) \<and> (wants fs p j e \<longrightarrow> ?t j = (if i \<le> j \<and> passed (stage r) j then [e] else []))"
    if "steady p j" for j
  proof -
    have "mask_has m j" if "wants fs p j e" using assms(6) that \<open>steady p j\<close>
      by (auto simp: masks_def wants_def steady_def)
    with rs(2) that show ?thesis unfolding x(3) stage
      by (auto simp: takes_def steady_def due_def)
  qed
  then have "gives fs p e i r ?t" using assms(5) by (simp add: gives_def)
  moreover have "waits_at p m k" if "r0 = BlockedAt k d'" for k d'
  proof -
    note b = resume_blocked(2-5) [OF assms(1) x(1) assms(4) [unfolded that]]
    have n: "length (xb_lanes x) = length (pl_routes p)" using x(3) by (metis length_map)
    with b x(3) have "ln_route (xb_lanes x ! k) = pl_routes p ! k" by (metis nth_map)
    with b n show ?thesis
      by (auto simp: waits_at_def steady_def blocks_def split: option.splits)
  qed
  then have "resumable fs p e i r"
    using rs(3) assms(5-7) by (auto simp: resumable_def at_or_after_def split: submit_result.splits)
  ultimately show ?thesis using mv by blast
qed

lemma submit_gives:
  assumes "workers_ok W items closed" "running_async fs items closed p"
    "async_mode (pl_cfg p) e force_sync" "\<not> nobody_selected fs p (ev_endpoint e)"
    "submit P fs W e force_sync p = (r, es, p')"
  shows "\<exists>t. moves P fs items closed p t (\<lambda>_. []) es p' \<and> gives fs p e 0 r t \<and> resumable fs p e 0 r \<and> es = []"
proof -
  obtain x where x: "pl_crossbar p = Some x" "pl_accepting p" "cache_coherent fs (pl_routes p) (pl_cache p)"
    using assms(2) by (rule running_asyncE)
  obtain ce c where c: "cached_route_mask fs (pl_routes p) (ev_endpoint e) (pl_cache p) = (ce, c)"
    by fastforce
  from cached_route_mask_coherent [OF x(3), of "ev_endpoint e"] c
  have ce: "ce = compute_cache_entry fs (pl_routes p) (ev_endpoint e)"
    and coh: "cache_coherent fs (pl_routes p) c" by simp_all
  let ?p1 = "p\<lparr>pl_cache := c\<rparr>"
  note mv1 = moves_cache [OF assms(2) coh, of P]
  show ?thesis
  proof (cases "filters_pass fs (pl_global_filters p) e")
    case False
    with assms(4,5) c ce have "r = Returned" "es = []" "p' = ?p1"
      by (auto simp: submit_def nobody_selected_def)
    with mv1 False show ?thesis
      by (intro exI [of _ "\<lambda>_. []"]) (auto simp: gives_def wants_def resumable_def)
  next
    case True
    obtain r0 x' where s: "crossbar_resume W e (ce_route_mask ce) True 0 False x = (r0, x')" by fastforce
    have m: "masks fs ?p1 e (ce_route_mask ce)"
      using mask_prefilter.summary_complete [of fs "pl_routes p" _ e] ce cache_entry_mask_range
      by (auto simp: masks_def route_wants_def entry_selects_def)
    have r: "es = []" "p' = ?p1\<lparr>pl_crossbar := Some x'\<rparr>"
      "r = (case r0 of Submitted _ \<Rightarrow> Returned | BlockedAt k d' \<Rightarrow> WaitingAt k d' (ce_route_mask ce))"
      using assms(3-5) True c ce x(1,2) s
      by (auto simp: submit_def nobody_selected_def crossbar_submit_def split: submit_result.splits)
    have "running_async fs items closed ?p1" "pl_crossbar ?p1 = Some x"
      "filters_pass fs (pl_global_filters ?p1) e"
      using moves_keeps(7) [OF mv1] x(1) True by simp_all
    from resume_gives [OF assms(1) this(1,2) s this(3) m r(3), of P] obtain t where
      t: "moves P fs items closed ?p1 t (\<lambda>_. []) [] (?p1\<lparr>pl_crossbar := Some x'\<rparr>)"
        "gives fs ?p1 e 0 r t" "resumable fs ?p1 e 0 r" by blast
    from moves_trans [OF mv1 t(1)] t(2,3) r(1,2) show ?thesis
      unfolding moves_keeps_results [OF mv1] by (intro exI [of _ t]) simp
  qed
qed

text \<open>A logging call, whatever event it makes.\<close>

lemma logging_call_gives:
  assumes "workers_ok W items closed" "running_async fs items closed p" "queueable sev"
    "ev_endpoint e = lgr_endpoint lgr" "ev_severity_priority e = sev_priority sev"
    "(case enabled fs lgr sev p of (ok, p1) \<Rightarrow>
       if \<not> ok then (Returned, [], p1) else submit_and_flush P fs W sev e p1) = (r, es, p')"
  shows "\<exists>t. moves P fs items closed p t (\<lambda>_. []) es p' \<and> gives fs p e 0 r t \<and> resumable fs p e 0 r"
proof -
  have coh: "cache_coherent fs (pl_routes p) (pl_cache p)"
    using assms(2) by (auto elim: running_asyncE)
  have prio: "100 \<le> sev_priority sev" "sev_priority sev < 600" "\<not> sev_force_sync sev"
    using assms(3) by (simp_all add: queueable_def)
  then have top: "sev_priority sev \<noteq> 65535" by auto
  from enabled_spec [OF coh, of lgr sev] obtain c where
    c: "cache_coherent fs (pl_routes p) c" and
    en: "enabled fs lgr sev p =
      ((if nobody_selected fs p (lgr_endpoint lgr) then sev_priority sev = 65535
        else ce_min_priority (compute_cache_entry fs (pl_routes p) (lgr_endpoint lgr)) \<le> sev_priority sev),
       p\<lparr>pl_cache := c\<rparr>)" by blast
  note mv1 = moves_cache [OF assms(2) c, of P]
  show ?thesis
  proof (cases "nobody_selected fs p (lgr_endpoint lgr) \<or>
      \<not> ce_min_priority (compute_cache_entry fs (pl_routes p) (lgr_endpoint lgr)) \<le> sev_priority sev")
    case True
    with assms(6) en top have r: "r = Returned" "es = []" "p' = p\<lparr>pl_cache := c\<rparr>"
      by (auto split: if_splits)
    have "\<not> wants fs p j e" if "steady p j" for j
      using not_enabled_selects_none [OF assms(4,5) prio(1) True] that
      by (auto simp: wants_def steady_def)
    with mv1 r show ?thesis
      by (intro exI [of _ "\<lambda>_. []"]) (auto simp: gives_def resumable_def)
  next
    case False
    let ?p1 = "p\<lparr>pl_cache := c\<rparr>"
    obtain es0 where s: "submit P fs W e (sev_force_sync sev) ?p1 = (r, es0, p')"
      "es = es0 @ (if r = Returned \<and> sev_flush_after sev then flush p' else [])"
      using assms(6) en False by (auto simp: submit_and_flush_def split: prod.splits)
    have "async_mode (pl_cfg ?p1) e (sev_force_sync sev)"
      using assms(2,5) prio by (simp add: async_mode_def running_async_def not_le)
    moreover have "\<not> nobody_selected fs ?p1 (ev_endpoint e)" using False assms(4) by simp
    ultimately obtain t where t: "moves P fs items closed ?p1 t (\<lambda>_. []) es0 p'"
      "gives fs ?p1 e 0 r t" "resumable fs ?p1 e 0 r"
      using submit_gives [OF assms(1) moves_keeps(7) [OF mv1] _ _ s(1)] by blast
    have "sink_bytes s (if r = Returned \<and> sev_flush_after sev then flush p' else []) = []" for s
      by (simp add: pipeline_flush_bytes)
    from moves_quiet [OF moves_trans [OF mv1 t(1)] this] s(2)
    have "moves P fs items closed p t (\<lambda>_. []) es p'" by simp
    with t(2,3) show ?thesis
      unfolding moves_keeps_results [OF mv1] by (intro exI [of _ t]) simp
  qed
qed

subsection \<open>Histories\<close>

fun actor :: "pd_action \<Rightarrow> nat" where
  "actor (PdCall t lgr sev loc now message) = t"
| "actor (PdCallFields t lgr sev fds loc now message) = t"
| "actor (PdRetry t) = t"
| "actor _ = 0"

text \<open>What a waiting call still has to give lane \<open>j\<close>, if that lane wants its event.\<close>

definition owed :: "filter_store \<Rightarrow> 'q producers \<Rightarrow> nat \<Rightarrow> nat \<Rightarrow> event list" where
  "owed fs s j t =
     (case pd_waiting s t of None \<Rightarrow> []
      | Some c \<Rightarrow> if pc_lane c \<le> j \<and> wants fs (pd_pipeline s) j (pc_event c) then [pc_event c] else [])"

definition callers_ok ::
  "filter_store \<Rightarrow> ('q \<Rightarrow> event list) \<Rightarrow> ('q \<Rightarrow> bool) \<Rightarrow> 'q producers \<Rightarrow> bool" where
  "callers_ok fs items closed s \<longleftrightarrow>
     running_async fs items closed (pd_pipeline s) \<and>
     (\<forall>t c. pd_waiting s t = Some c \<longrightarrow>
        filters_pass fs (pl_global_filters (pd_pipeline s)) (pc_event c) \<and>
        masks fs (pd_pipeline s) (pc_event c) (pc_mask c) \<and>
        waits_at (pd_pipeline s) (pc_mask c) (pc_lane c))"

text \<open>
  The account of lane \<open>j\<close> over a piece of history: what the lane took, with the threads it came
  from, and per thread, what it took and is still owed is what it was owed and what was called.
\<close>

definition accounts ::
  "filter_store \<Rightarrow> nat \<Rightarrow> 'q producers \<Rightarrow> (nat \<times> event) list \<Rightarrow> (nat \<times> event) list \<Rightarrow> 'q producers \<Rightarrow> bool" where
  "accounts fs j s T C s' \<longleftrightarrow>
     (\<forall>u \<in> set T. filters_pass fs (pl_global_filters (pd_pipeline s)) (snd u)) \<and>
     (\<forall>t. filter (wants fs (pd_pipeline s) j) (by_thread t T) @ owed fs s' j t =
        owed fs s j t @ filter (wants fs (pd_pipeline s) j) (by_thread t C))"

lemma accounts_trans:
  assumes "accounts fs j s T1 C1 s1" "accounts fs j s1 T2 C2 s2"
    "\<And>e. wants fs (pd_pipeline s1) j e = wants fs (pd_pipeline s) j e"
    "pl_global_filters (pd_pipeline s1) = pl_global_filters (pd_pipeline s)"
  shows "accounts fs j s (T1 @ T2) (C1 @ C2) s2"
proof -
  have same: "wants fs (pd_pipeline s1) j = wants fs (pd_pipeline s) j" using assms(3) by blast
  have "filter (wants fs (pd_pipeline s) j) (by_thread t (T1 @ T2)) @ owed fs s2 j t =
      owed fs s j t @ filter (wants fs (pd_pipeline s) j) (by_thread t (C1 @ C2))" for t
  proof -
    let ?w = "filter (wants fs (pd_pipeline s) j)"
    have 1: "?w (by_thread t T1) @ owed fs s1 j t = owed fs s j t @ ?w (by_thread t C1)"
      "?w (by_thread t T2) @ owed fs s2 j t = owed fs s1 j t @ ?w (by_thread t C2)"
      using assms(1,2) same by (simp_all add: accounts_def)
    have "?w (by_thread t T1) @ (?w (by_thread t T2) @ owed fs s2 j t) =
        (owed fs s j t @ ?w (by_thread t C1)) @ ?w (by_thread t C2)"
      unfolding 1(2) by (simp only: 1(1) flip: append_assoc)
    then show ?thesis by simp
  qed
  with assms(1,2,4) show ?thesis by (auto simp: accounts_def)
qed

lemma call_accounts:
  assumes "moves P fs items closed p t h es p'" "gives fs p e i r t" "resumable fs p e i r"
    "callers_ok fs items closed s" "pd_pipeline s = p" "steady p j"
    "s' = \<lparr>pd_pipeline = p', pd_waiting = (pd_waiting s)(u := stand_of e sev r)\<rparr>"
    "C = (case pd_waiting s u of None \<Rightarrow> [(u, e)] | Some c \<Rightarrow> [])"
    "\<And>c. pd_waiting s u = Some c \<Longrightarrow> pc_event c = e \<and> pc_lane c = i" "pd_waiting s u = None \<Longrightarrow> i = 0"
  shows "accounts fs j s (map (Pair u) (t j)) C s'"
proof -
  note k = moves_keeps [OF assms(1)]
  have tj: "t j = [] \<or> t j = [e] \<and> filters_pass fs (pl_global_filters p) e"
    "wants fs p j e \<Longrightarrow> t j = (if i \<le> j \<and> passed (stage r) j then [e] else [])"
    using assms(2,6) by (auto simp: gives_def)
  have other: "owed fs s' j v = owed fs s j v" "by_thread v (map (Pair u) (t j)) = []" "by_thread v C = []"
    if "v \<noteq> u" for v
    using that assms(5,7,8) k(5) tj(1) by (auto simp: owed_def split: option.splits)
  have own: "owed fs s' j u = (if \<not> passed (stage r) j \<and> wants fs p j e then [e] else [])"
    using assms(7) k(5) by (cases r) (auto simp: owed_def passed_def)
  have late: "i \<le> j" if "\<not> passed (stage r) j"
    using assms(3) that by (cases r) (auto simp: resumable_def passed_def)
  have "filter (wants fs p j) (by_thread u (map (Pair u) (t j))) @ owed fs s' j u =
      owed fs s j u @ filter (wants fs p j) (by_thread u C)"
  proof (cases "wants fs p j e")
    case False
    with tj(1) own assms(5,8,9) show ?thesis by (auto simp: owed_def split: option.splits)
  next
    case True
    with tj(2) own late assms(5,8-10) show ?thesis by (auto simp: owed_def split: option.splits)
  qed
  moreover have "\<forall>v \<in> set (map (Pair u) (t j)). filters_pass fs (pl_global_filters p) (snd v)"
    using tj(1) by auto
  moreover have "filter (wants fs p j) (by_thread v (map (Pair u) (t j))) @ owed fs s' j v =
      owed fs s j v @ filter (wants fs p j) (by_thread v C)" if "v \<noteq> u" for v
    using other [OF that] by simp
  ultimately show ?thesis unfolding accounts_def assms(5) by metis
qed

lemma call_callers_ok:
  assumes "moves P fs items closed p t h es p'" "resumable fs p e i r"
    "callers_ok fs items closed s" "pd_pipeline s = p"
    "s' = \<lparr>pd_pipeline = p', pd_waiting = (pd_waiting s)(u := stand_of e sev r)\<rparr>"
  shows "callers_ok fs items closed s'"
  using assms moves_keeps [OF assms(1)]
  by (cases r) (auto simp: callers_ok_def resumable_def split: if_splits)

lemma idle_accounts:
  assumes "moves P fs items closed (pd_pipeline s) t h es p'" "s' = s\<lparr>pd_pipeline := p'\<rparr>"
  shows "accounts fs j s [] [] s'"
  using assms(2) moves_keeps(5) [OF assms(1)] by (auto simp: accounts_def owed_def split: option.split)

lemma idle_callers_ok:
  assumes "moves P fs items closed (pd_pipeline s) t h es p'" "s' = s\<lparr>pd_pipeline := p'\<rparr>"
    "callers_ok fs items closed s"
  shows "callers_ok fs items closed s'"
  using assms(2,3) moves_keeps [OF assms(1)] by (auto simp: callers_ok_def)

lemma work_moves:
  assumes "workers_ok W items closed" "running_async fs items closed p" "work P fs W i p = (es, p')"
  shows "\<exists>h. moves P fs items closed p (\<lambda>_. []) h es p'"
proof -
  obtain x where x: "pl_crossbar p = Some x" "crossbar_ok items closed x" "pipeline_ok fs items closed p"
    using assms(2) by (rule running_asyncE)
  obtain lanes where w: "work_at P fs W i (xb_lanes x) = (es, lanes)"
    "p' = p\<lparr>pl_crossbar := Some (x\<lparr>xb_lanes := lanes\<rparr>)\<rparr>"
    using assms(3) x(1) by (auto simp: work_def split: prod.splits)
  from work_conserves [OF assms(1) x(2) w(1)] obtain h where
    "conserves P fs items closed x (\<lambda>_. []) h es (x\<lparr>xb_lanes := lanes\<rparr>)" by blast
  moreover have "p' = p\<lparr>pl_cache := pl_cache p, pl_crossbar := Some (x\<lparr>xb_lanes := lanes\<rparr>)\<rparr>"
    using w(2) by simp
  moreover have "pipeline_ok fs items closed p'" using work_ok [OF assms(1) x(3), of P i] assms(3) by simp
  then have "running_async fs items closed p'" using assms(2) w(2) by (simp add: running_async_def)
  ultimately show ?thesis using x(1) unfolding moves_def by blast
qed

lemma retry_gives:
  assumes "workers_ok W items closed" "callers_ok fs items closed s" "pd_waiting s u = Some c"
    "retry_call W c (pd_pipeline s) = (r, es, p')"
  shows "\<exists>t. moves P fs items closed (pd_pipeline s) t (\<lambda>_. []) es p' \<and>
    gives fs (pd_pipeline s) (pc_event c) (pc_lane c) r t \<and>
    resumable fs (pd_pipeline s) (pc_event c) (pc_lane c) r"
proof -
  let ?p = "pd_pipeline s"
  have ra: "running_async fs items closed ?p" and ok: "filters_pass fs (pl_global_filters ?p) (pc_event c)"
    "masks fs ?p (pc_event c) (pc_mask c)"
    using assms(2,3) by (auto simp: callers_ok_def)
  obtain x where x: "pl_crossbar ?p = Some x" "pl_accepting ?p" using ra by (rule running_asyncE)
  obtain r0 x' where s: "crossbar_resume W (pc_event c) (pc_mask c) True (pc_lane c) (pc_delivered c) x = (r0, x')"
    by fastforce
  let ?fl = "if r = Returned \<and> sev_flush_after (pc_severity c) then flush p' else []"
  have r: "r = (case r0 of Submitted _ \<Rightarrow> Returned | BlockedAt k d' \<Rightarrow> WaitingAt k d' (pc_mask c))"
    "p' = ?p\<lparr>pl_crossbar := Some x'\<rparr>" "es = [] @ ?fl"
    using assms(4) x s by (auto simp: retry_call_def resume_submit_def)
  from resume_gives [OF assms(1) ra x(1) s ok r(1), of P] obtain t where
    t: "moves P fs items closed ?p t (\<lambda>_. []) [] p'" "gives fs ?p (pc_event c) (pc_lane c) r t"
      "resumable fs ?p (pc_event c) (pc_lane c) r" unfolding r(2) by blast
  have "sink_bytes sk ?fl = []" for sk by (simp add: pipeline_flush_bytes)
  from moves_quiet [OF t(1) this] t(2,3) show ?thesis unfolding r(3) by blast
qed

lemma pd_step_spec:
  assumes "workers_ok W items closed" "callers_ok fs items closed s" "queued_action a"
    "pd_step P fs W a s = Some (es, s')"
  shows "\<exists>t h. moves P fs items closed (pd_pipeline s) t h es (pd_pipeline s') \<and>
    callers_ok fs items closed s' \<and>
    (\<forall>j. steady (pd_pipeline s) j \<longrightarrow> accounts fs j s (map (Pair (actor a)) (t j)) (call_of a) s')"
proof -
  have ra: "running_async fs items closed (pd_pipeline s)" using assms(2) by (simp add: callers_ok_def)
  have call: "?thesis" if "moves P fs items closed (pd_pipeline s) t (\<lambda>_. []) es p'"
    "gives fs (pd_pipeline s) e i r t" "resumable fs (pd_pipeline s) e i r"
    "s' = \<lparr>pd_pipeline = p', pd_waiting = (pd_waiting s)(actor a := stand_of e sev r)\<rparr>"
    "call_of a = (case pd_waiting s (actor a) of None \<Rightarrow> [(actor a, e)] | Some c \<Rightarrow> [])"
    "\<And>c. pd_waiting s (actor a) = Some c \<Longrightarrow> pc_event c = e \<and> pc_lane c = i"
    "pd_waiting s (actor a) = None \<Longrightarrow> i = 0" for t e i r p' sev
  proof -
    have "moves P fs items closed (pd_pipeline s) t (\<lambda>_. []) es (pd_pipeline s')" using that(1,4) by simp
    moreover have "callers_ok fs items closed s'"
      by (rule call_callers_ok [OF that(1,3) assms(2) refl that(4)])
    moreover have "accounts fs j s (map (Pair (actor a)) (t j)) (call_of a) s'"
      if j: "steady (pd_pipeline s) j" for j
      by (rule call_accounts [OF \<open>moves P fs items closed (pd_pipeline s) t (\<lambda>_. []) es p'\<close>
            \<open>gives fs (pd_pipeline s) e i r t\<close> \<open>resumable fs (pd_pipeline s) e i r\<close> assms(2) refl j])
        fact+
    ultimately show ?thesis by blast
  qed
  have idle: "?thesis" if "moves P fs items closed (pd_pipeline s) (\<lambda>_. []) h es p'"
    "s' = s\<lparr>pd_pipeline := p'\<rparr>" "call_of a = []" for h p'
  proof -
    have "moves P fs items closed (pd_pipeline s) (\<lambda>_. []) h es (pd_pipeline s')" using that(1,2) by simp
    with idle_accounts [OF that(1,2)] idle_callers_ok [OF that(1,2) assms(2)] that(3) show ?thesis
      by (intro exI [of _ "\<lambda>_. []"] exI [of _ h]) simp
  qed
  show ?thesis
  proof (cases a)
    case (PdCall t lgr sev loc now message)
    let ?e = "make_event sev (lgr_endpoint lgr) now t loc message"
    obtain r p' where c: "pd_waiting s t = None"
      "log_at P fs W lgr sev loc now t message (pd_pipeline s) = (r, es, p')"
      "s' = \<lparr>pd_pipeline = p', pd_waiting = (pd_waiting s)(t := stand_of ?e sev r)\<rparr>"
      using assms(4) PdCall by (auto split: if_splits prod.splits)
    from c(2) have "(case enabled fs lgr sev (pd_pipeline s) of (ok, p1) \<Rightarrow>
       if \<not> ok then (Returned, [], p1) else submit_and_flush P fs W sev ?e p1) = (r, es, p')"
      unfolding log_at_def Let_def .
    from logging_call_gives [OF assms(1) ra _ _ _ this] assms(3) PdCall obtain tt where
      "moves P fs items closed (pd_pipeline s) tt (\<lambda>_. []) es p'" "gives fs (pd_pipeline s) ?e 0 r tt"
      "resumable fs (pd_pipeline s) ?e 0 r" by auto
    from call [OF this, of sev] c PdCall show ?thesis by simp
  next
    case (PdCallFields t lgr sev fds loc now message)
    let ?e = "set_fields fds (make_event sev (lgr_endpoint lgr) now t loc message)"
    obtain r p' where c: "pd_waiting s t = None"
      "log_fields_at P fs W lgr sev fds loc now t message (pd_pipeline s) = (r, es, p')"
      "s' = \<lparr>pd_pipeline = p', pd_waiting = (pd_waiting s)(t := stand_of ?e sev r)\<rparr>"
      using assms(4) PdCallFields by (auto split: if_splits prod.splits)
    from c(2) have "(case enabled fs lgr sev (pd_pipeline s) of (ok, p1) \<Rightarrow>
       if \<not> ok then (Returned, [], p1) else submit_and_flush P fs W sev ?e p1) = (r, es, p')"
      unfolding log_fields_at_def Let_def .
    from logging_call_gives [OF assms(1) ra _ _ _ this] assms(3) PdCallFields obtain tt where
      "moves P fs items closed (pd_pipeline s) tt (\<lambda>_. []) es p'" "gives fs (pd_pipeline s) ?e 0 r tt"
      "resumable fs (pd_pipeline s) ?e 0 r" by (auto simp: set_fields_def)
    from call [OF this, of sev] c PdCallFields show ?thesis by simp
  next
    case (PdRetry t)
    obtain c r p' where c: "pd_waiting s t = Some c" "retry_call W c (pd_pipeline s) = (r, es, p')"
      "s' = \<lparr>pd_pipeline = p', pd_waiting = (pd_waiting s)(t := stand_of (pc_event c) (pc_severity c) r)\<rparr>"
      using assms(4) PdRetry by (auto split: option.splits prod.splits)
    from retry_gives [OF assms(1,2) c(1,2), of P] obtain tt where
      "moves P fs items closed (pd_pipeline s) tt (\<lambda>_. []) es p'"
      "gives fs (pd_pipeline s) (pc_event c) (pc_lane c) r tt"
      "resumable fs (pd_pipeline s) (pc_event c) (pc_lane c) r" by blast
    from this show ?thesis
      by (rule call [where sev = "pc_severity c"]) (use c(1,3) PdRetry in \<open>simp_all\<close>)
  next
    case (PdWork i)
    then obtain p' where w: "work P fs W i (pd_pipeline s) = (es, p')" "s' = s\<lparr>pd_pipeline := p'\<rparr>"
      using assms(4) by (auto split: prod.splits)
    from work_moves [OF assms(1) ra w(1)] obtain h where
      "moves P fs items closed (pd_pipeline s) (\<lambda>_. []) h es p'" by blast
    from this w(2) show ?thesis by (rule idle) (use PdWork in simp)
  next
    case PdFlush
    then have "es = [] @ flush (pd_pipeline s)" "s' = s\<lparr>pd_pipeline := pd_pipeline s\<rparr>"
      using assms(4) by auto
    moreover have "moves P fs items closed (pd_pipeline s) (\<lambda>_. []) (\<lambda>_. []) [] (pd_pipeline s)"
      using moves_cache [OF ra, of "pl_cache (pd_pipeline s)" P] ra by (auto elim: running_asyncE)
    from moves_quiet [OF this pipeline_flush_bytes, of "pd_pipeline s"]
    have "moves P fs items closed (pd_pipeline s) (\<lambda>_. []) (\<lambda>_. []) ([] @ flush (pd_pipeline s)) (pd_pipeline s)" .
    ultimately have "moves P fs items closed (pd_pipeline s) (\<lambda>_. []) (\<lambda>_. []) es (pd_pipeline s)"
      "s' = s\<lparr>pd_pipeline := pd_pipeline s\<rparr>" by simp_all
    from this show ?thesis by (rule idle) (use PdFlush in simp)
  qed
qed

lemma pd_run_spec:
  assumes "workers_ok W items closed"
  shows "callers_ok fs items closed s \<Longrightarrow> list_all queued_action acts \<Longrightarrow>
    pd_run P fs W acts s = Some (es, s') \<Longrightarrow>
    \<exists>h T. moves P fs items closed (pd_pipeline s) (\<lambda>j. map snd (T j)) h es (pd_pipeline s') \<and>
      callers_ok fs items closed s' \<and>
      (\<forall>j. steady (pd_pipeline s) j \<longrightarrow> accounts fs j s (T j) (calls acts) s')"
proof (induction acts arbitrary: s es)
  case Nil
  then have "moves P fs items closed (pd_pipeline s) (\<lambda>_. []) (\<lambda>_. []) [] (pd_pipeline s)"
    using moves_cache [of fs items closed "pd_pipeline s" "pl_cache (pd_pipeline s)" P]
    by (auto simp: callers_ok_def elim: running_asyncE)
  with Nil show ?case
    by (intro exI [of _ "\<lambda>_. []"] exI [of _ "\<lambda>_. []"]) (simp add: accounts_def calls_def)
next
  case (Cons a acts)
  obtain es1 s1 es2 where r: "pd_step P fs W a s = Some (es1, s1)" "pd_run P fs W acts s1 = Some (es2, s')"
    "es = es1 @ es2"
    using Cons.prems(3) by (auto split: option.splits prod.splits)
  from pd_step_spec [OF assms Cons.prems(1) _ r(1)] Cons.prems(2) obtain t1 h1 where
    1: "moves P fs items closed (pd_pipeline s) t1 h1 es1 (pd_pipeline s1)" "callers_ok fs items closed s1"
      "\<forall>j. steady (pd_pipeline s) j \<longrightarrow> accounts fs j s (map (Pair (actor a)) (t1 j)) (call_of a) s1"
    by auto
  from Cons.IH [OF 1(2) _ r(2)] Cons.prems(2) obtain h2 T2 where
    2: "moves P fs items closed (pd_pipeline s1) (\<lambda>j. map snd (T2 j)) h2 es2 (pd_pipeline s')"
      "callers_ok fs items closed s'"
      "\<forall>j. steady (pd_pipeline s1) j \<longrightarrow> accounts fs j s1 (T2 j) (calls acts) s'"
    by auto
  note k = moves_keeps [OF 1(1)]
  let ?T = "\<lambda>j. map (Pair (actor a)) (t1 j) @ T2 j"
  have "map snd (?T j) = t1 j @ map snd (T2 j)" for j by (simp add: comp_def)
  with moves_trans [OF 1(1) 2(1)] r(3)
  have "moves P fs items closed (pd_pipeline s) (\<lambda>j. map snd (?T j)) (\<lambda>j. h1 j @ h2 j) es (pd_pipeline s')"
    by simp
  moreover have "accounts fs j s (?T j) (calls (a # acts)) s'" if "steady (pd_pipeline s) j" for j
    using accounts_trans [OF 1(3) [rule_format, OF that] 2(3) [rule_format]] that k
    by (simp add: calls_def)
  ultimately show ?case using 2(2)
    by (intro exI [of _ "\<lambda>j. h1 j @ h2 j"] exI [of _ ?T]) simp
qed

lemma owed_idle: "pd_waiting s t = None \<Longrightarrow> owed fs s j t = []"
  by (simp add: owed_def)

text \<open>
  What the lanes took from the calls of a history in which all calls have returned, thread by
  thread, and where it is now.
\<close>

lemma returned_calls:
  assumes "workers_ok W items closed" "running_async fs items closed p" "pl_crossbar p = Some x"
    "pd_run P fs W acts \<lparr>pd_pipeline = p, pd_waiting = (\<lambda>_. None)\<rparr> = Some (es, s)"
    "list_all queued_action acts" "\<forall>t. pd_waiting s t = None" "steady p j"
  shows "\<exists>h taken x'. moves P fs items closed p (\<lambda>j. map snd (taken j)) h es (pd_pipeline s) \<and>
    pl_crossbar (pd_pipeline s) = Some x' \<and> conserves P fs items closed x (\<lambda>j. map snd (taken j)) h es x' \<and>
    (\<forall>u \<in> set (taken j). filters_pass fs (pl_global_filters p) (snd u)) \<and>
    (\<forall>t. filter (wants fs p j) (by_thread t (taken j)) = filter (wants fs p j) (by_thread t (calls acts)))"
proof -
  let ?s = "\<lparr>pd_pipeline = p, pd_waiting = (\<lambda>_. None)\<rparr>"
  have "callers_ok fs items closed ?s" using assms(2) by (simp add: callers_ok_def)
  from pd_run_spec [OF assms(1) this assms(5,4)] obtain h T where
    T: "moves P fs items closed p (\<lambda>j. map snd (T j)) h es (pd_pipeline s)"
      "accounts fs j ?s (T j) (calls acts) s"
    using assms(7) by auto
  from T(1) assms(3) obtain x' where "pl_crossbar (pd_pipeline s) = Some x'"
    "conserves P fs items closed x (\<lambda>j. map snd (T j)) h es x'" by (auto simp: moves_def)
  moreover have "\<forall>u \<in> set (T j). filters_pass fs (pl_global_filters p) (snd u)"
    "\<forall>t. filter (wants fs p j) (by_thread t (T j)) = filter (wants fs p j) (by_thread t (calls acts))"
    using T(2) assms(6) by (simp_all add: accounts_def owed_idle)
  ultimately show ?thesis using T(1) by blast
qed

subsection \<open>Waiting calls return\<close>

lemma live_worker_room:
  assumes "workers_ok W items closed" "live items closed l" "worker_step P fs W l = (es, l')"
  shows "\<not> blocks items accepting l'"
proof -
  obtain q where q: "ln_queue l = Some q" "queue_inv items q" "ln_worker l = Popping"
    using assms(2) by (auto simp: live_def lane_ok_def)
  obtain r q' where p: "pop_blocking W (ln_stop l) q = (r, q')" by fastforce
  note s = pop_blocking_spec [OF assms(1) q(2) p]
  have cap: "0 < unat (eq_capacity q)" "length (items (eq_queue q)) \<le> unat (eq_capacity q)"
    using q(2) queue_inv_bounded by (auto simp: queue_inv_def word_le_nat_alt)
  have "\<not> closed (eq_queue q)" "\<not> ln_stop l" using assms(2) q(1) by (auto simp: live_def lane_shut_def)
  with s have "length (items (eq_queue q')) < unat (eq_capacity q')"
    using cap by (auto split: pop_result.splits)
  moreover have "ln_queue l' = Some q'"
    using assms(3) q(1,3) p by (auto simp: worker_step_def Let_def split: pop_result.splits)
  ultimately show ?thesis by (simp add: blocks_def)
qed

lemma retry_progress:
  assumes "workers_ok W items closed" "callers_ok fs items closed s" "pd_waiting s t = Some c"
  shows "\<exists>es s'. pd_run P fs W [PdWork (pc_lane c), PdRetry t] s = Some (es, s') \<and>
    callers_ok fs items closed s' \<and>
    (\<forall>c'. pd_waiting s' t = Some c' \<longrightarrow> pc_lane c < pc_lane c' \<and> pc_lane c' < 64) \<and>
    (\<forall>u. u \<noteq> t \<longrightarrow> pd_waiting s' u = pd_waiting s u)"
proof -
  let ?p = "pd_pipeline s" and ?k = "pc_lane c"
  obtain es1 p1 where w: "work P fs W ?k ?p = (es1, p1)" by fastforce
  let ?s1 = "s\<lparr>pd_pipeline := p1\<rparr>"
  have st1: "pd_step P fs W (PdWork ?k) s = Some (es1, ?s1)" using w by simp
  from pd_step_spec [OF assms(1,2) _ st1] have ok1: "callers_ok fs items closed ?s1" by auto
  obtain r es2 p2 where rt: "retry_call W c p1 = (r, es2, p2)" by (metis prod_cases3)
  let ?s2 = "\<lparr>pd_pipeline = p2, pd_waiting = (pd_waiting s)(t := stand_of (pc_event c) (pc_severity c) r)\<rparr>"
  have st2: "pd_step P fs W (PdRetry t) ?s1 = Some (es2, ?s2)" using rt assms(3) by simp
  from pd_step_spec [OF assms(1) ok1 _ st2] have ok2: "callers_ok fs items closed ?s2" by auto
  have "?k < k' \<and> k' < 64" if r: "r = WaitingAt k' d m" for k' d m
  proof -
    have "running_async fs items closed ?p" "running_async fs items closed p1"
      using assms(2) ok1 by (simp_all add: callers_ok_def)
    then obtain x x1 where x: "pl_crossbar ?p = Some x" "crossbar_ok items closed x" "xb_running x"
      and x1: "pl_crossbar p1 = Some x1" "crossbar_ok items closed x1" "pl_accepting p1"
      by (metis running_asyncE)
    obtain lanes where l: "work_at P fs W ?k (xb_lanes x) = (es1, lanes)" "x1 = x\<lparr>xb_lanes := lanes\<rparr>"
      using w x(1) x1(1) by (auto simp: work_def split: prod.splits)
    obtain x2 where "crossbar_resume W (pc_event c) (pc_mask c) True ?k (pc_delivered c) x1 = (BlockedAt k' d, x2)"
      using rt r x1 by (auto simp: retry_call_def resume_submit_def split: prod.splits submit_result.splits)
    note b = resume_blocked [OF assms(1) x1(2) this]
    have "k' \<noteq> ?k"
    proof
      assume k: "k' = ?k"
      have len: "length lanes = length (xb_lanes x)"
        using l(1) by (auto simp: work_at_def split: if_splits prod.splits)
      then have i: "?k < length (xb_lanes x)" using b(2) l(2) k by simp
      then obtain l' where l': "worker_step P fs W (xb_lanes x ! ?k) = (es1, l')" "lanes ! ?k = l'"
        using l(1) by (auto simp: work_at_def split: prod.splits)
      have "live items closed (xb_lanes x ! ?k)" using x(2,3) i by (simp add: crossbar_ok_def)
      from live_worker_room [OF assms(1) this l'(1)] b(5) l(2) l'(2) k show False by simp
    qed
    with b(1,3) show ?thesis by simp
  qed
  then have "\<forall>c'. pd_waiting ?s2 t = Some c' \<longrightarrow> ?k < pc_lane c' \<and> pc_lane c' < 64"
    by (cases r) auto
  with st1 st2 ok2 show ?thesis by (intro exI [of _ "es1 @ es2"] exI [of _ ?s2]) simp
qed

lemma pd_run_append:
  "pd_run P fs W (as @ bs) s = (case pd_run P fs W as s of None \<Rightarrow> None
     | Some (es, s1) \<Rightarrow> (case pd_run P fs W bs s1 of None \<Rightarrow> None | Some (es', s2) \<Rightarrow> Some (es @ es', s2)))"
  by (induction "as" arbitrary: s) (auto split: option.splits prod.splits)

lemma waiting_returns:
  assumes "workers_ok W items closed"
  shows "callers_ok fs items closed s \<Longrightarrow> (\<forall>c. pd_waiting s t = Some c \<longrightarrow> 63 - pc_lane c \<le> n) \<Longrightarrow>
    \<exists>lanes es s'. length lanes \<le> Suc n \<and>
      pd_run P fs W (concat (map (\<lambda>i. [PdWork i, PdRetry t]) lanes)) s = Some (es, s') \<and>
      callers_ok fs items closed s' \<and> pd_waiting s' t = None \<and>
      (\<forall>u. u \<noteq> t \<longrightarrow> pd_waiting s' u = pd_waiting s u)"
proof (induction n arbitrary: s)
  case 0
  show ?case
  proof (cases "pd_waiting s t")
    case None
    with 0 show ?thesis by (intro exI [of _ "[]"]) simp
  next
    case (Some c)
    with 0(2) have "63 \<le> pc_lane c" by simp
    with retry_progress [OF assms 0(1) Some, of P] obtain es s' where
      "pd_run P fs W [PdWork (pc_lane c), PdRetry t] s = Some (es, s')" "callers_ok fs items closed s'"
      "\<forall>c'. pd_waiting s' t = Some c' \<longrightarrow> pc_lane c < pc_lane c' \<and> pc_lane c' < 64"
      "\<forall>u. u \<noteq> t \<longrightarrow> pd_waiting s' u = pd_waiting s u" by blast
    moreover from this(3) \<open>63 \<le> pc_lane c\<close> have "pd_waiting s' t = None"
      by (cases "pd_waiting s' t") auto
    ultimately show ?thesis by (intro exI [of _ "[pc_lane c]"] exI [of _ es] exI [of _ s']) simp
  qed
next
  case (Suc n)
  show ?case
  proof (cases "pd_waiting s t")
    case None
    with Suc.prems show ?thesis by (intro exI [of _ "[]"]) simp
  next
    case (Some c)
    from retry_progress [OF assms Suc.prems(1) Some, of P] obtain es1 s1 where
      1: "pd_run P fs W [PdWork (pc_lane c), PdRetry t] s = Some (es1, s1)" "callers_ok fs items closed s1"
      "\<forall>c'. pd_waiting s1 t = Some c' \<longrightarrow> pc_lane c < pc_lane c' \<and> pc_lane c' < 64"
      "\<forall>u. u \<noteq> t \<longrightarrow> pd_waiting s1 u = pd_waiting s u" by blast
    have "\<forall>c'. pd_waiting s1 t = Some c' \<longrightarrow> 63 - pc_lane c' \<le> n"
      using 1(3) Suc.prems(2) Some by fastforce
    from Suc.IH [OF 1(2) this] obtain lanes es2 s2 where
      2: "length lanes \<le> Suc n" "pd_run P fs W (concat (map (\<lambda>i. [PdWork i, PdRetry t]) lanes)) s1 = Some (es2, s2)"
      "callers_ok fs items closed s2" "pd_waiting s2 t = None"
      "\<forall>u. u \<noteq> t \<longrightarrow> pd_waiting s2 u = pd_waiting s1 u" by blast
    have "pd_run P fs W ([PdWork (pc_lane c), PdRetry t] @
        concat (map (\<lambda>i. [PdWork i, PdRetry t]) lanes)) s = Some (es1 @ es2, s2)"
      unfolding pd_run_append using 1(1) 2(2) by simp
    with 1(4) 2(1,3-5) show ?thesis
      by (intro exI [of _ "pc_lane c # lanes"] exI [of _ "es1 @ es2"] exI [of _ s2]) simp
  qed
qed

text \<open>The calls of a history, as actions.\<close>

fun is_call :: "pd_action \<Rightarrow> bool" where
  "is_call (PdCall t lgr sev loc now message) = True"
| "is_call (PdCallFields t lgr sev fds loc now message) = True"
| "is_call _ = False"

lemma calls_filter: "calls (filter is_call acts) = calls acts"
proof (induction acts)
  case (Cons a acts)
  then show ?case by (cases a) (simp_all add: calls_def)
qed (simp add: calls_def)

lemma queued_filter: "list_all queued_action (filter is_call acts) \<Longrightarrow> list_all queued_action acts"
proof (induction acts)
  case (Cons a acts)
  then show ?case by (cases a) simp_all
qed simp

lemma step_waiting:
  "pd_step P fs W a s = Some (es, s') \<Longrightarrow> t \<noteq> actor a \<Longrightarrow> pd_waiting s' t = pd_waiting s t"
  by (cases a) (auto split: if_splits option.splits prod.splits)

text \<open>Only a thread that has called can wait.\<close>

lemma step_waits:
  assumes "pd_step P fs W a s = Some (es, s')" "pd_waiting s' t \<noteq> None"
  shows "pd_waiting s t \<noteq> None \<or> t \<in> fst ` set (call_of a)"
proof (cases "t = actor a")
  case False
  with assms step_waiting show ?thesis by metis
next
  case True
  with assms show ?thesis by (cases a) (auto split: option.splits prod.splits)
qed

lemma run_waits:
  "pd_run P fs W acts s = Some (es, s') \<Longrightarrow> pd_waiting s' t \<noteq> None \<Longrightarrow>
   pd_waiting s t \<noteq> None \<or> t \<in> fst ` set (calls acts)"
proof (induction acts arbitrary: s es)
  case Nil
  then show ?case by simp
next
  case (Cons a acts)
  obtain es1 s1 es2 where r: "pd_step P fs W a s = Some (es1, s1)" "pd_run P fs W acts s1 = Some (es2, s')"
    using Cons.prems(1) by (auto split: option.splits prod.splits)
  from Cons.IH [OF r(2) Cons.prems(2)] step_waits [OF r(1)] show ?case by (force simp: calls_def)
qed


text \<open>
  C8. What a waiting call keeps across the unlocked wait stays meaningful: in every state that
  threads can reach by logging through a running asynchronous pipeline, the lane a call waits at is
  one of the pipeline's first 64 routes, blocks when full and is selected by the call's mask; the mask
  names only routes there are, and among them every route whose filters pass the event. The pipeline
  itself stays well-formed.
\<close>

theorem waiting_call_wellformed:
  assumes "workers_ok W items closed" "pipeline_ok fs items closed p" "pl_running p"
    "cfg_async_by_default (pl_cfg p)" "list_all queued_action acts"
    "pd_run P fs W acts \<lparr>pd_pipeline = p, pd_waiting = (\<lambda>_. None)\<rparr> = Some (es, s)"
    "pd_waiting s t = Some c"
  shows "pc_lane c < length (pl_routes p) \<and> pc_lane c < 64 \<and>
    rt_strategy (pl_routes p ! pc_lane c) = Some BlockWhenFull \<and> mask_has (pc_mask c) (pc_lane c) \<and>
    (\<forall>j. mask_has (pc_mask c) j \<longrightarrow> j < length (pl_routes p) \<and> j < 64) \<and>
    (\<forall>j < length (pl_routes p). j < 64 \<and> filters_pass fs (rt_filters (pl_routes p ! j)) (pc_event c) \<longrightarrow>
       mask_has (pc_mask c) j) \<and>
    pipeline_ok fs items closed (pd_pipeline s)"
proof -
  have "callers_ok fs items closed \<lparr>pd_pipeline = p, pd_waiting = (\<lambda>_. None)\<rparr>"
    using assms(2-4) by (simp add: callers_ok_def running_async_def)
  from pd_run_spec [OF assms(1) this assms(5,6)] obtain h and T :: "nat \<Rightarrow> (nat \<times> event) list" where
    mv: "moves P fs items closed p (\<lambda>j. map snd (T j)) h es (pd_pipeline s)" and
    ok: "callers_ok fs items closed s" by auto
  from ok assms(7) have "masks fs p (pc_event c) (pc_mask c)" "waits_at p (pc_mask c) (pc_lane c)"
    "pipeline_ok fs items closed (pd_pipeline s)"
    unfolding callers_ok_def moves_keeps [OF mv] running_async_def by blast+
  then show ?thesis unfolding masks_def waits_at_def steady_def by blast
qed

text \<open>So a thread that has a list of calls to make can make them all.\<close>

lemma call_once:
  assumes "workers_ok W items closed" "callers_ok fs items closed s" "is_call a" "queued_action a"
    "pd_waiting s (actor a) = None"
  shows "\<exists>acts es s'. pd_run P fs W acts s = Some (es, s') \<and> filter is_call acts = [a] \<and>
    callers_ok fs items closed s' \<and> pd_waiting s' (actor a) = None"
proof -
  have "\<exists>es1 s1. pd_step P fs W a s = Some (es1, s1)"
    using assms(3,5) by (cases a) (auto split: prod.splits)
  then obtain es1 s1 where 1: "pd_step P fs W a s = Some (es1, s1)" by blast
  from pd_step_spec [OF assms(1,2,4) 1] have "callers_ok fs items closed s1" by blast
  from waiting_returns [OF assms(1) this, of "actor a" 63 P] obtain lanes es2 s2 where
    2: "pd_run P fs W (concat (map (\<lambda>i. [PdWork i, PdRetry (actor a)]) lanes)) s1 = Some (es2, s2)"
    "callers_ok fs items closed s2" "pd_waiting s2 (actor a) = None"
    by auto
  have "filter is_call (concat (map (\<lambda>i. [PdWork i, PdRetry (actor a)]) lanes)) = []"
    by (induction lanes) auto
  with 1 2 assms(3) show ?thesis
    by (intro exI [of _ "a # concat (map (\<lambda>i. [PdWork i, PdRetry (actor a)]) lanes)"]
        exI [of _ "es1 @ es2"] exI [of _ s2]) simp
qed

lemma calls_can_return:
  assumes "workers_ok W items closed"
  shows "callers_ok fs items closed s \<Longrightarrow> list_all queued_action main \<Longrightarrow>
    \<forall>a \<in> set main. is_call a \<and> actor a = tid \<Longrightarrow> pd_waiting s tid = None \<Longrightarrow>
    \<exists>acts es s'. pd_run P fs W acts s = Some (es, s') \<and> filter is_call acts = main \<and> pd_waiting s' tid = None"
proof (induction main arbitrary: s)
  case Nil
  then show ?case by (intro exI [of _ "[]"]) simp
next
  case (Cons a main)
  then have a: "is_call a" "queued_action a" "actor a = tid" by simp_all
  from call_once [OF assms Cons.prems(1) a(1,2), of P] a(3) Cons.prems(4) obtain acts1 es1 s1 where
    1: "pd_run P fs W acts1 s = Some (es1, s1)" "filter is_call acts1 = [a]"
    "callers_ok fs items closed s1" "pd_waiting s1 tid = None" by auto
  from Cons.IH [OF 1(3) _ _ 1(4)] Cons.prems(2,3) obtain acts2 es2 s2 where
    2: "pd_run P fs W acts2 s1 = Some (es2, s2)" "filter is_call acts2 = main" "pd_waiting s2 tid = None"
    by auto
  have "pd_run P fs W (acts1 @ acts2) s = Some (es1 @ es2, s2)"
    unfolding pd_run_append using 1(1) 2(1) by simp
  with 1(2) 2(2,3) show ?case
    by (intro exI [of _ "acts1 @ acts2"] exI [of _ "es1 @ es2"] exI [of _ s2]) simp
qed

subsection \<open>Closing when the calls have returned\<close>

lemma by_thread_filter: "by_thread t (filter (\<lambda>u. p (snd u)) us) = filter p (by_thread t us)"
  by (induction us) auto

lemma filter_snd: "filter p (map snd us) = map snd (filter (\<lambda>u. p (snd u)) us)"
  by (induction us) auto

text \<open>One lane after the close: its sink holds what was queued and what the threads called.\<close>

lemma calls_delivered:
  assumes "workers_ok W items closed" "running_async fs items closed p" "pl_crossbar p = Some x"
    "pd_run P fs W acts \<lparr>pd_pipeline = p, pd_waiting = (\<lambda>_. None)\<rparr> = Some (es, s)"
    "list_all queued_action acts" "\<forall>t. pd_waiting s t = None" "steady p j"
    "rt_sink (pl_routes p ! j) = Some sk"
    "\<forall>i < length (pl_routes p). rt_sink (pl_routes p ! i) = Some sk \<longrightarrow> i = j"
  shows "\<exists>es2 p' tagged. close P fs W sched (pd_pipeline s) = Some (es2, p') \<and> reset_pipeline items p p' \<and>
    sink_bytes sk (es @ es2) = concat (map (render_with P (rt_renderer (pl_routes p ! j)))
      (filter (filters_pass fs (rt_filters (pl_routes p ! j))) (queued items x j) @ map snd tagged)) \<and>
    (\<forall>t. by_thread t tagged = filter (wants fs p j) (by_thread t (calls acts)))"
proof -
  let ?r = "pl_routes p ! j"
  let ?pass = "filters_pass fs (rt_filters ?r)"
  let ?q = "pd_pipeline s"
  from returned_calls [OF assms(1-7)] obtain h taken x' where
    m: "moves P fs items closed p (\<lambda>j. map snd (taken j)) h es ?q"
      "pl_crossbar ?q = Some x'" "conserves P fs items closed x (\<lambda>j. map snd (taken j)) h es x'"
    and glob: "\<forall>u \<in> set (taken j). filters_pass fs (pl_global_filters p) (snd u)"
    and acc: "\<forall>t. filter (wants fs p j) (by_thread t (taken j)) = filter (wants fs p j) (by_thread t (calls acts))"
    by blast
  have q: "pipeline_ok fs items closed ?q" "pl_running ?q" "pl_routes ?q = pl_routes p" "pl_cfg ?q = pl_cfg p"
    using moves_keeps [OF m(1)] by (simp_all add: running_async_def)
  have routes: "map ln_route (xb_lanes x) = pl_routes p" "map ln_route (xb_lanes x') = pl_routes p"
    using assms(2,3) m(3) by (auto simp: running_async_def pipeline_simps conserves_def)
  then have len: "length (xb_lanes x) = length (pl_routes p)" "length (xb_lanes x') = length (pl_routes p)"
    by (metis length_map)+
  have j: "j < length (pl_routes p)" using assms(7) by (simp add: steady_def)
  have route: "ln_route (xb_lanes x ! i) = pl_routes p ! i" "ln_route (xb_lanes x' ! i) = pl_routes p ! i"
    if "i < length (pl_routes p)" for i
    using routes len that by (metis nth_map)+
  have ex: "exclusive (xb_lanes x) sk j" "exclusive (xb_lanes x') sk j"
    using assms(9) j route len by (auto simp: exclusive_def)
  from stop_pipeline_bytes [OF assms(1) q(1) m(2), of P sched True] obtain d es2 fl p' where
    c: "close P fs W sched ?q = Some (es2 @ fl, p')" "reset_pipeline items ?q p'"
      "produced P fs (xb_lanes x') d es2" "list_all quiet fl" "d j = queued items x' j"
    using q(2,3) j by (auto simp: stop_pipeline_def)
  have "sink_bytes sk fl = []" using c(4) by (rule quiet_bytes)
  moreover have "sink_bytes sk es = sink_bytes sk (concat (map (process P fs ?r) (h j)))"
    using m(3) ex(1) route(1) [OF j] by (simp add: conserves_def produced_def handled_def)
  moreover have "sink_bytes sk es2 = sink_bytes sk (concat (map (process P fs ?r) (queued items x' j)))"
    using c(3,5) ex(2) route(2) [OF j] by (simp add: produced_def handled_def)
  moreover have "queued items x j @ map snd (taken j) = h j @ queued items x' j"
    using m(3) j len(1) by (simp add: conserves_def)
  then have "concat (map (process P fs ?r) (h j)) @ concat (map (process P fs ?r) (queued items x' j)) =
      concat (map (process P fs ?r) (queued items x j @ map snd (taken j)))"
    by (simp flip: concat_append map_append)
  then have "sink_bytes sk (concat (map (process P fs ?r) (queued items x j @ map snd (taken j)))) =
      sink_bytes sk (concat (map (process P fs ?r) (h j))) @
      sink_bytes sk (concat (map (process P fs ?r) (queued items x' j)))"
    by (metis sink_bytes_simps(3))
  ultimately have "sink_bytes sk (es @ es2 @ fl) =
      sink_bytes sk (concat (map (process P fs ?r) (queued items x j @ map snd (taken j))))"
    by simp
  then have bytes: "sink_bytes sk (es @ es2 @ fl) = concat (map (render_with P (rt_renderer ?r))
      (filter ?pass (queued items x j) @ map snd (filter (\<lambda>u. ?pass (snd u)) (taken j))))"
    unfolding processed_bytes [OF assms(8)] by (simp add: filter_snd)
  have "filter ?pass (by_thread t (taken j)) = filter (wants fs p j) (by_thread t (taken j))" for t
    using glob by (intro filter_cong) (auto simp: wants_def by_thread_def)
  with acc have "by_thread t (filter (\<lambda>u. ?pass (snd u)) (taken j)) = filter (wants fs p j) (by_thread t (calls acts))"
    for t by (simp add: by_thread_filter)
  moreover have "reset_pipeline items p p'" using c(2) q(3,4) by (simp add: reset_pipeline_def)
  ultimately show ?thesis using c(1) bytes by blast
qed

lemma run_waiting:
  "pd_run P fs W acts s = Some (es, s') \<Longrightarrow> t \<notin> set (map actor acts) \<Longrightarrow> pd_waiting s' t = pd_waiting s t"
  by (induction acts arbitrary: s es) (auto split: option.splits prod.splits dest: step_waiting)

text \<open>Two threads at a queue with room for two events: the third call waits until a worker took one.\<close>

definition nowhere :: source_location where
  "nowhere = \<lparr>loc_file = [], loc_line = 0, loc_func = []\<rparr>"

definition two_callers :: "pd_action list" where
  "two_callers =
     [PdCall 0 \<lparr>lgr_endpoint = ''net''\<rparr> warn_severity nowhere 0 ''a'',
      PdCall 1 \<lparr>lgr_endpoint = ''ui''\<rparr> info_severity nowhere 0 ''b'',
      PdCall 0 \<lparr>lgr_endpoint = ''net''\<rparr> warn_severity nowhere 0 ''c'',
      PdWork 0, PdRetry 0]"

lemma two_callers_return:
  "\<exists>es s. pd_run plain_platform info_store list_workers two_callers
       \<lparr>pd_pipeline = async_pipeline, pd_waiting = (\<lambda>_. None)\<rparr> = Some (es, s) \<and>
     (\<forall>t. pd_waiting s t = None)"
proof -
  let ?s = "\<lparr>pd_pipeline = async_pipeline, pd_waiting = (\<lambda>_. None)\<rparr>"
  have "case pd_run plain_platform info_store list_workers two_callers ?s of None \<Rightarrow> False
      | Some (es, s) \<Rightarrow> pd_waiting s 0 = None \<and> pd_waiting s 1 = None"
    by code_simp
  then obtain es s where s: "pd_run plain_platform info_store list_workers two_callers ?s = Some (es, s)"
    "pd_waiting s 0 = None" "pd_waiting s 1 = None"
    by (auto split: option.splits)
  have "pd_waiting s t = None" for t
    using run_waiting [OF s(1), of t] s(2,3) by (cases "t = 0 \<or> t = 1") (auto simp: two_callers_def)
  with s(1) show ?thesis by blast
qed

lemma third_call_waits:
  obtains es s c where "pd_run plain_platform info_store list_workers (take 3 two_callers)
      \<lparr>pd_pipeline = async_pipeline, pd_waiting = (\<lambda>_. None)\<rparr> = Some (es, s)" "pd_waiting s 0 = Some c"
    "list_all queued_action (take 3 two_callers)" "cfg_async_by_default (pl_cfg async_pipeline)"
proof -
  let ?s = "\<lparr>pd_pipeline = async_pipeline, pd_waiting = (\<lambda>_. None)\<rparr>"
  have "case pd_run plain_platform info_store list_workers (take 3 two_callers) ?s of None \<Rightarrow> False
      | Some (es, s) \<Rightarrow> pd_waiting s 0 \<noteq> None"
    by code_simp
  moreover have "list_all queued_action (take 3 two_callers)" "cfg_async_by_default (pl_cfg async_pipeline)"
    by (simp_all add: two_callers_def queueable_def severity_defs async_pipeline_def initial_pipeline_def
        default_config_def numeral_3_eq_3)
  ultimately show ?thesis using that by (auto split: option.splits)
qed


theorem waiting_call_wellformed_witness:
  "\<exists>es s c. pd_run plain_platform info_store list_workers (take 3 two_callers)
      \<lparr>pd_pipeline = async_pipeline, pd_waiting = (\<lambda>_. None)\<rparr> = Some (es, s) \<and> pd_waiting s 0 = Some c \<and>
    pc_lane c = 0 \<and> mask_has (pc_mask c) 0"
proof -
  obtain es s c where s: "pd_run plain_platform info_store list_workers (take 3 two_callers)
      \<lparr>pd_pipeline = async_pipeline, pd_waiting = (\<lambda>_. None)\<rparr> = Some (es, s)" "pd_waiting s 0 = Some c"
    "list_all queued_action (take 3 two_callers)" "cfg_async_by_default (pl_cfg async_pipeline)"
    by (rule third_call_waits)
  note wf = waiting_call_wellformed [OF list_workers_ok async_pipeline_ok(1,4) s(4,3,1,2)]
  from wf async_pipeline_ok(3)
  have "pc_lane c = 0" by simp
  with wf have "pc_lane c = 0" "mask_has (pc_mask c) 0" by metis+
  with s(1,2) show ?thesis by metis
qed

end
