(* ===== verification/Examples.thy ===== *)
theory Examples
  imports Producers Sinks
begin

section \<open>The example programs\<close>

text \<open>
  The programs of \<open>src/examples/\<close> over the model, and what they print. The synchronous ones are one
  list of statements each, with steps of the workers between any two statements; in the asynchronous
  ones the calls of the main thread, its waits and the workers' steps make up a history of
  \<open>Producers\<close>, and the theorems hold for each such history. The console sink is sink 0.
\<close>

subsection \<open>Statements\<close>

type_synonym 'q statement = "'q pipeline \<Rightarrow> (effect list \<times> 'q pipeline) option"

fun work_steps ::
  "platform \<Rightarrow> filter_store \<Rightarrow> 'q workers \<Rightarrow> nat list \<Rightarrow> 'q pipeline \<Rightarrow> effect list \<times> 'q pipeline" where
  "work_steps P fs W [] p = ([], p)"
| "work_steps P fs W (i # is) p =
     (case work P fs W i p of (es, p1) \<Rightarrow>
        case work_steps P fs W is p1 of (es', p2) \<Rightarrow> (es @ es', p2))"

text \<open>The n-th statement runs after the n-th piece of the workers' schedule.\<close>

fun perform ::
  "platform \<Rightarrow> filter_store \<Rightarrow> 'q workers \<Rightarrow> (nat \<Rightarrow> nat list) \<Rightarrow> nat \<Rightarrow> 'q statement list \<Rightarrow> 'q statement" where
  "perform P fs W sched n [] p = Some ([], p)"
| "perform P fs W sched n (f # fs') p =
     (case work_steps P fs W (sched n) p of (es, p1) \<Rightarrow>
        case f p1 of
          None \<Rightarrow> None
        | Some (es', p2) \<Rightarrow>
            (case perform P fs W sched (Suc n) fs' p2 of
               None \<Rightarrow> None
             | Some (es'', p3) \<Rightarrow> Some (es @ es' @ es'', p3)))"

definition call_returns :: "submit_state \<times> effect list \<times> 'q pipeline \<Rightarrow> (effect list \<times> 'q pipeline) option" where
  "call_returns r = (case r of (st, es, p) \<Rightarrow> if st = Returned then Some (es, p) else None)"

subsection \<open>The programs\<close>

definition console_pattern :: string where
  "console_pattern = ''[{severity}] {endpoint}: {message}'' @ [newline]"

definition basic_route :: route where
  "basic_route =
     block_when_full (route_render_with (Some (PatternRenderer console_pattern)) (send_to (Some 0) default_route))"

definition basic_main ::
  "platform \<Rightarrow> filter_store \<Rightarrow> 'q workers \<Rightarrow> (nat \<Rightarrow> nat list) \<Rightarrow> source_location \<Rightarrow> (nat \<Rightarrow> int) \<Rightarrow> nat \<Rightarrow>
   'q statement" where
  "basic_main P fs W sched here now tid =
     (let lg = \<lparr>lgr_endpoint = ''example.basic''\<rparr>
      in perform P fs W sched 0
        [configure P fs W [] synchronous,
         add_route P fs W [] basic_route,
         \<lambda>p. Some ([], start W p),
         \<lambda>p. call_returns (log_builtin P fs W here lg Info (now 0) tid ''hello from SyLog'' p),
         \<lambda>p. call_returns (log_builtin P fs W here lg Warn (now 1) tid
               ''this warning is routed to the console'' p),
         close P fs W []])"

definition audit :: severity where
  "audit = severity_base\<lparr>sev_name := ''AUDIT'', sev_priority := 450\<rparr>"

definition audit_route :: route where
  "audit_route =
     block_when_full (filtered_by (Some 0)
       (route_render_with (Some (PatternRenderer console_pattern)) (send_to (Some 0) default_route)))"

definition audit_filters :: filter_store where
  "audit_filters = (\<lambda>_. at_least info_severity)"

definition custom_severity_main ::
  "platform \<Rightarrow> 'q workers \<Rightarrow> (nat \<Rightarrow> nat list) \<Rightarrow> source_location \<Rightarrow> int \<Rightarrow> nat \<Rightarrow> 'q statement" where
  "custom_severity_main P W sched here now tid =
     (let fs = audit_filters; lg = \<lparr>lgr_endpoint = ''example.audit''\<rparr>
      in perform P fs W sched 0
        [configure P fs W [] synchronous,
         add_route P fs W [] audit_route,
         \<lambda>p. Some ([], start W p),
         \<lambda>p. call_returns (log P fs W here lg audit now tid
               (''user '' @ dec 42 @ '' changed account settings'') p),
         close P fs W []])"

subsection \<open>A pipeline at rest\<close>

text \<open>Nothing is queued: what holds before, between and after the statements of a synchronous program.\<close>

definition at_rest ::
  "filter_store \<Rightarrow> ('q \<Rightarrow> event list) \<Rightarrow> ('q \<Rightarrow> bool) \<Rightarrow> config \<Rightarrow> route list \<Rightarrow> bool \<Rightarrow> 'q pipeline \<Rightarrow> bool" where
  "at_rest fs items closed cfg routes up p \<longleftrightarrow>
     pipeline_ok fs items closed p \<and> pl_cfg p = cfg \<and> pl_routes p = routes \<and> pl_running p = up \<and>
     pl_accepting p \<and> pl_global_filters p = [] \<and>
     (\<forall>x. pl_crossbar p = Some x \<longrightarrow> (\<forall>j < length routes. queued items x j = []))"

definition sole :: "route list \<Rightarrow> sink_id \<Rightarrow> nat \<Rightarrow> bool" where
  "sole routes s j \<longleftrightarrow> j < length routes \<and> (\<forall>i < length routes. rt_sink (routes ! i) = Some s \<longrightarrow> i = j)"

lemma sole_exclusive:
  assumes "map ln_route lanes = routes" "sole routes s j"
  shows "exclusive lanes s j"
proof -
  have "length lanes = length routes" using assms(1) by auto
  moreover from this have "ln_route (lanes ! i) = routes ! i" if "i < length routes" for i
    using assms(1) that by (metis nth_map)
  ultimately show ?thesis using assms(2) by (auto simp: exclusive_def sole_def)
qed

lemma rest_initial: "at_rest fs items closed default_config [] False initial_pipeline"
proof -
  have "pl_global_filters initial_pipeline = []" "pl_cfg initial_pipeline = default_config"
    "pl_routes initial_pipeline = []" "\<not> pl_running initial_pipeline" "pl_accepting initial_pipeline"
    by (simp_all add: initial_pipeline_def)
  then show ?thesis by (simp add: at_rest_def)
qed

lemma rest_work:
  assumes "workers_ok W items closed" "at_rest fs items closed cfg routes up p"
    "up \<longrightarrow> sole routes s j" "work P fs W i p = (es, p')"
  shows "at_rest fs items closed cfg routes up p'" "sink_bytes s es = []"
proof -
  have ok: "pipeline_ok fs items closed p" using assms(2) by (simp add: at_rest_def)
  then obtain x where x: "pl_crossbar p = Some x" "crossbar_ok items closed x"
    "map ln_route (xb_lanes x) = pl_routes p" "xb_running x = pl_running p" by (rule pipeline_okE)
  have r: "map ln_route (xb_lanes x) = routes" "xb_running x = up"
    "\<And>j. j < length routes \<Longrightarrow> queued items x j = []"
    using x assms(2) by (simp_all add: at_rest_def)
  then have len: "length (xb_lanes x) = length routes" by auto
  obtain lanes where w: "work_at P fs W i (xb_lanes x) = (es, lanes)"
    "p' = p\<lparr>pl_crossbar := Some (x\<lparr>xb_lanes := lanes\<rparr>)\<rparr>"
    using assms(4) x(1) by (auto simp: work_def split: prod.splits)
  from work_conserves [OF assms(1) x(2) w(1)] obtain h where
    h: "conserves P fs items closed x (\<lambda>_. []) h es (x\<lparr>xb_lanes := lanes\<rparr>)" by blast
  have 0: "h j = [] \<and> queued items (x\<lparr>xb_lanes := lanes\<rparr>) j = []" if "j < length routes" for j
    using h len r(3) that by (auto simp: conserves_def)
  show "at_rest fs items closed cfg routes up p'"
    using work_ok [OF assms(1) ok, of P i] assms(2,4) w(2) 0 by (simp add: at_rest_def)
  show "sink_bytes s es = []"
  proof (cases up)
    case True
    with assms(3) have s: "sole routes s j" by simp
    with 0 have "h j = []" by (simp add: sole_def)
    with h sole_exclusive [OF r(1) s] show ?thesis by (simp add: conserves_def produced_def)
  next
    case False
    then have "\<forall>l \<in> set (xb_lanes x). ln_worker l = NoThread" using x(2) r(2) by (simp add: crossbar_ok_def)
    from work_at_idle [OF this, of P fs W i] w(1) show ?thesis by simp
  qed
qed

lemma rest_work_steps:
  assumes "workers_ok W items closed" "up \<longrightarrow> sole routes s j"
  shows "at_rest fs items closed cfg routes up p \<Longrightarrow> work_steps P fs W is p = (es, p') \<Longrightarrow>
    at_rest fs items closed cfg routes up p' \<and> sink_bytes s es = []"
proof (induction "is" arbitrary: p es)
  case Nil
  then show ?case by simp
next
  case (Cons i "is")
  obtain es1 p1 where w: "work P fs W i p = (es1, p1)" by fastforce
  note q = rest_work [OF assms(1) Cons.prems(1) assms(2) w]
  from Cons.prems(2) w Cons.IH [OF q(1)] q(2) show ?case by (auto split: prod.splits)
qed

subsection \<open>Statements and what they print\<close>

text \<open>From a pipeline with \<open>I\<close>, the statement returns, prints the text to the sink and leaves \<open>J\<close>.\<close>

definition prints ::
  "sink_id \<Rightarrow> ('q pipeline \<Rightarrow> bool) \<Rightarrow> 'q statement \<Rightarrow> string \<Rightarrow> ('q pipeline \<Rightarrow> bool) \<Rightarrow> bool" where
  "prints s I f text J \<longleftrightarrow>
     (\<forall>p. I p \<longrightarrow> (\<exists>es p'. f p = Some (es, p') \<and> J p' \<and> sink_bytes s es = text))"

lemma perform_Nil_prints: "prints s I (perform P fs W sched n []) [] I"
  by (simp add: prints_def)

lemma perform_Cons_prints:
  assumes "workers_ok W items closed" "up \<longrightarrow> sole routes s j"
    "prints s (at_rest fs items closed cfg routes up) f t J"
    "prints s J (perform P fs W sched (Suc n) fs') ts K"
  shows "prints s (at_rest fs items closed cfg routes up) (perform P fs W sched n (f # fs')) (t @ ts) K"
  unfolding prints_def
proof (intro allI impI)
  fix p
  assume p: "at_rest fs items closed cfg routes up p"
  obtain es1 p1 where w: "work_steps P fs W (sched n) p = (es1, p1)" by fastforce
  note 1 = rest_work_steps [OF assms(1,2) p w]
  from assms(3) 1 obtain es2 p2 where 2: "f p1 = Some (es2, p2)" "J p2" "sink_bytes s es2 = t"
    by (auto simp: prints_def)
  from assms(4) 2(2) obtain es3 p3 where
    "perform P fs W sched (Suc n) fs' p2 = Some (es3, p3)" "K p3" "sink_bytes s es3 = ts"
    by (auto simp: prints_def)
  with w 1 2 show "\<exists>es p'. perform P fs W sched n (f # fs') p = Some (es, p') \<and> K p' \<and>
      sink_bytes s es = t @ ts" by simp
qed

lemma configure_prints:
  assumes "workers_ok W items closed"
  shows "prints s (at_rest fs items closed cfg0 routes False) (configure P fs W sched cfg) []
    (at_rest fs items closed cfg routes False)"
  unfolding prints_def
proof (intro allI impI)
  fix p :: "'a pipeline"
  assume p: "at_rest fs items closed cfg0 routes False p"
  then have ok: "pipeline_ok fs items closed p" and d: "\<not> pl_running p" "pl_routes p = routes"
    by (simp_all add: at_rest_def)
  obtain x where x: "pl_crossbar p = Some x" "crossbar_ok items closed x" "xb_running x = pl_running p"
    using ok by (rule pipeline_okE)
  have idle: "\<forall>l \<in> set (xb_lanes x). ln_worker l = NoThread"
    using x(2,3) d(1) by (simp add: crossbar_ok_def)
  from renew_crossbar_spec [OF assms, of "p\<lparr>pl_cfg := cfg\<rparr>" x P fs sched] x(1) d idle obtain y where
    y: "renew_crossbar P fs W sched (p\<lparr>pl_cfg := cfg\<rparr>) = Some ([], p\<lparr>pl_cfg := cfg, pl_crossbar := Some y\<rparr>)"
      "crossbar_in_sync items closed (p\<lparr>pl_cfg := cfg\<rparr>) y" "\<forall>j < length routes. queued items y j = []"
    by auto
  let ?p' = "p\<lparr>pl_cfg := cfg, pl_crossbar := Some y, pl_accepting := True\<rparr>"
  have "configure P fs W sched cfg p = Some ([], ?p')"
    using y(1) d(1) by (simp add: configure_def)
  moreover have "at_rest fs items closed cfg routes False ?p'"
    using p y(2,3) by (auto simp: at_rest_def pipeline_simps)
  ultimately show "\<exists>es p'. configure P fs W sched cfg p = Some (es, p') \<and>
      at_rest fs items closed cfg routes False p' \<and> sink_bytes s es = []" by simp
qed

lemma add_route_prints:
  assumes "workers_ok W items closed"
  shows "prints s (at_rest fs items closed cfg routes False) (add_route P fs W sched r) []
    (at_rest fs items closed cfg (routes @ [r]) False)"
  unfolding prints_def
proof (intro allI impI)
  fix p :: "'a pipeline"
  assume p: "at_rest fs items closed cfg routes False p"
  then have ok: "pipeline_ok fs items closed p" and d: "\<not> pl_running p" "pl_routes p = routes"
    by (simp_all add: at_rest_def)
  obtain x where x: "pl_crossbar p = Some x" "crossbar_ok items closed x" "xb_running x = pl_running p"
    using ok by (rule pipeline_okE)
  let ?p1 = "p\<lparr>pl_routes := routes @ [r], pl_cache := invalidate_cache (pl_cache p)\<rparr>"
  have "rc_dirty (pl_cache ?p1)" by (simp add: invalidate_cache_def)
  from reconfigure_spec [OF assms, of ?p1 x "pl_routes ?p1" P fs sched] this x d obtain y where
    y: "reconfigure_crossbar P fs W sched (routes @ [r]) ?p1 = Some ([], ?p1\<lparr>pl_crossbar := Some y\<rparr>)"
      "pipeline_ok fs items closed (?p1\<lparr>pl_crossbar := Some y\<rparr>)"
      "\<forall>j < length (routes @ [r]). queued items y j = []"
    by auto
  have "add_route P fs W sched r p = Some ([], ?p1\<lparr>pl_crossbar := Some y\<rparr>)"
    using y(1) d(2) by (simp add: add_route_def Let_def)
  moreover have "at_rest fs items closed cfg (routes @ [r]) False (?p1\<lparr>pl_crossbar := Some y\<rparr>)"
    using p y(2,3) by (auto simp: at_rest_def)
  ultimately show "\<exists>es p'. add_route P fs W sched r p = Some (es, p') \<and>
      at_rest fs items closed cfg (routes @ [r]) False p' \<and> sink_bytes s es = []" by simp
qed

lemma start_prints:
  "prints s (at_rest fs items closed cfg routes False) (\<lambda>p. Some ([], start W p)) []
    (at_rest fs items closed cfg routes True)"
  unfolding prints_def
proof (intro allI impI)
  fix p :: "'a pipeline"
  assume p: "at_rest fs items closed cfg routes False p"
  then have ok: "pipeline_ok fs items closed p" and d: "\<not> pl_running p" "pl_routes p = routes"
    by (simp_all add: at_rest_def)
  obtain x where x: "pl_crossbar p = Some x" "crossbar_ok items closed x" "crossbar_open closed x"
    "map ln_route (xb_lanes x) = pl_routes p"
    using ok by (rule pipeline_okE)
  have len: "length (xb_lanes x) = length routes" using x(4) d(2) by (metis length_map)
  have "pl_crossbar (start W p) = Some (crossbar_start W x)" "pl_cfg (start W p) = pl_cfg p"
    "pl_global_filters (start W p) = pl_global_filters p"
    using x(1) d(1) by (simp_all add: start_def Let_def)
  with p x(1) len crossbar_start_spec(6) [OF x(2,3)] start_ok [OF ok, of W]
  have "at_rest fs items closed cfg routes True (start W p)" by (simp add: at_rest_def)
  then show "\<exists>es p'. Some ([], start W p) = Some (es, p') \<and>
      at_rest fs items closed cfg routes True p' \<and> sink_bytes s es = []" by simp
qed

definition reset_as :: "config \<Rightarrow> route list \<Rightarrow> 'q pipeline \<Rightarrow> bool" where
  "reset_as cfg routes p \<longleftrightarrow>
     \<not> pl_running p \<and> \<not> pl_accepting p \<and> pl_cfg p = cfg \<and> pl_routes p = routes"

lemma close_prints:
  assumes "workers_ok W items closed" "sole routes s j"
  shows "prints s (at_rest fs items closed cfg routes True) (close P fs W sched) [] (reset_as cfg routes)"
  unfolding prints_def
proof (intro allI impI)
  fix p :: "'a pipeline"
  assume p: "at_rest fs items closed cfg routes True p"
  then have ok: "pipeline_ok fs items closed p" and d: "pl_running p" "pl_routes p = routes" "pl_cfg p = cfg"
    by (simp_all add: at_rest_def)
  obtain x where x: "pl_crossbar p = Some x" "map ln_route (xb_lanes x) = pl_routes p"
    using ok by (rule pipeline_okE)
  from stop_pipeline_bytes [OF assms(1) ok x(1), of P sched True] obtain h es fl p' where
    c: "close P fs W sched p = Some (es @ fl, p')" "reset_pipeline items p p'"
      "produced P fs (xb_lanes x) h es" "list_all quiet fl" "h j = queued items x j"
    using d(1,2) assms(2) by (auto simp: stop_pipeline_def sole_def)
  have "h j = []" using c(5) p x(1) assms(2) by (simp add: at_rest_def sole_def)
  moreover have "exclusive (xb_lanes x) s j" using sole_exclusive [OF _ assms(2)] x(2) d(2) by simp
  ultimately have "sink_bytes s es = []" using c(3) by (simp add: produced_def)
  moreover have "sink_bytes s fl = []" using c(4) by (rule quiet_bytes)
  ultimately show "\<exists>es p'. close P fs W sched p = Some (es, p') \<and> reset_as cfg routes p' \<and> sink_bytes s es = []"
    using c(1,2) d by (auto simp: reset_pipeline_def reset_as_def)
qed

lemma log_prints:
  assumes "workers_ok W items closed" "100 \<le> sev_priority sev" "sev_priority sev \<noteq> 65535"
    "\<not> cfg_async_by_default cfg" "rt_sink r = Some s"
    "filters_pass fs (rt_filters r) (make_event sev (lgr_endpoint lgr) now tid here message)"
  shows "prints s (at_rest fs items closed cfg [r] True)
    (\<lambda>p. call_returns (log P fs W here lgr sev now tid message p))
    (render_with P (rt_renderer r) (make_event sev (lgr_endpoint lgr) now tid here message))
    (at_rest fs items closed cfg [r] True)"
  unfolding prints_def
proof (intro allI impI)
  fix p :: "'a pipeline"
  assume p: "at_rest fs items closed cfg [r] True p"
  then have ok: "pipeline_ok fs items closed p" and d: "pl_routes p = [r]" "pl_global_filters p = []"
    "\<not> cfg_async_by_default (pl_cfg p)"
    using assms(4) by (simp_all add: at_rest_def)
  have coh: "cache_coherent fs (pl_routes p) (pl_cache p)" using ok by (simp add: pipeline_ok_def)
  from log_at_deliveries [OF coh assms(2,3), of P W lgr here now tid message] d assms(6) obtain c fl where
    l: "log_at P fs W lgr sev here now tid message p = (Returned,
        route_output P r (make_event sev (lgr_endpoint lgr) now tid here message) @ fl, p\<lparr>pl_cache := c\<rparr>)"
      "fl \<in> {[], flush p}" "cache_coherent fs (pl_routes p) c"
    by auto
  have "sink_bytes s fl = []" using l(2) pipeline_flush_bytes by auto
  moreover have "at_rest fs items closed cfg [r] True (p\<lparr>pl_cache := c\<rparr>)"
    using p l(3) by (auto simp: at_rest_def pipeline_simps)
  ultimately show "\<exists>es p'. call_returns (log P fs W here lgr sev now tid message p) = Some (es, p') \<and>
      at_rest fs items closed cfg [r] True p' \<and> sink_bytes s es =
        render_with P (rt_renderer r) (make_event sev (lgr_endpoint lgr) now tid here message)"
    using l(1) assms(5) by (simp add: log_def call_returns_def route_output_def)
qed

subsection \<open>The synchronous programs\<close>

lemma console_pattern_renders:
  assumes "CHR ''{'' \<notin> set (ev_severity_name e)" "CHR ''{'' \<notin> set (ev_endpoint e)"
    "CHR ''{'' \<notin> set (ev_message e)"
  shows "render_with P (Some (PatternRenderer console_pattern)) e =
    ''['' @ ev_severity_name e @ ''] '' @ ev_endpoint e @ '': '' @ ev_message e @ [newline]"
proof -
  let ?segs = "[Lit ''['', Tok TSeverity, Lit ''] '', Tok TEndpoint, Lit '': '', Tok TMessage, Lit [newline]]"
  have "brace_free (token_value P e) ?segs" using assms by (simp add: brace_free_def)
  from pattern_expands [OF this] show ?thesis
    by (simp add: render_with_def console_pattern_def terminate_line_def)
qed

lemma sole_one: "sole [r] s 0"
  by (simp add: sole_def)

text \<open>All programs begin with the same three statements.\<close>

lemma setup_prints:
  assumes "workers_ok W items closed"
    "prints s (at_rest fs items closed cfg [r] True) (perform P fs W sched 3 fs') ts K"
  shows "prints s (at_rest fs items closed default_config [] False)
    (perform P fs W sched 0
      (configure P fs W [] cfg # add_route P fs W [] r # (\<lambda>p. Some ([], start W p)) # fs')) ts K"
proof -
  let ?rest = "at_rest fs items closed :: _ \<Rightarrow> _ \<Rightarrow> _ \<Rightarrow> 'a pipeline \<Rightarrow> bool"
  note seq = perform_Cons_prints [OF assms(1), where up = False and j = 0 and t = "[]"]
  have add: "prints s (?rest cfg [] False) (add_route P fs W [] r) [] (?rest cfg [r] False)"
    using add_route_prints [OF assms(1), of s fs cfg "[]" P "[]" r] by simp
  have "prints s (?rest default_config [] False)
    (perform P fs W sched 0
      (configure P fs W [] cfg # add_route P fs W [] r # (\<lambda>p. Some ([], start W p)) # fs'))
    ([] @ [] @ [] @ ts) K"
    by (rule seq, simp, rule configure_prints [OF assms(1)], rule seq, simp, rule add,
        rule seq, simp, rule start_prints) (use assms(2) in \<open>simp add: numeral_3_eq_3\<close>)
  then show ?thesis by simp
qed

lemma console_shows:
  assumes "prints 0 I f text J" "I p"
  shows "\<exists>es p'. f p = Some (es, p') \<and> J p' \<and>
    console_text False (apply_effects (\<lambda>n. console_write False (spill n)) (console_flush False) 0 0 es ss) =
      console_text False ss @ text"
  using assms console.effects_all [of False ss "console_text False ss" spill 0 0]
  unfolding prints_def by fastforce

text \<open>A built-in severity at the console, without filters.\<close>

lemma builtin_prints:
  assumes "workers_ok W items closed" "CHR ''{'' \<notin> set m" "CHR ''{'' \<notin> set ep"
    "\<not> cfg_async_by_default cfg"
  shows "prints 0 (at_rest fs items closed cfg [basic_route] True)
    (\<lambda>p. call_returns (log_builtin P fs W here \<lparr>lgr_endpoint = ep\<rparr> b n tid m p))
    (''['' @ sev_name (builtin_severity b) @ ''] '' @ ep @ '': '' @ m @ [newline])
    (at_rest fs items closed cfg [basic_route] True)"
proof -
  have r: "rt_sink basic_route = Some 0" "rt_filters basic_route = []"
    "rt_renderer basic_route = Some (PatternRenderer console_pattern)"
    by (simp_all add: basic_route_def route_builder_defs)
  have "CHR ''{'' \<notin> set (sev_name (builtin_severity b))" by (cases b) (simp_all add: severity_defs)
  moreover have "100 \<le> sev_priority (builtin_severity b)" "sev_priority (builtin_severity b) \<noteq> 65535"
    by (cases b; simp)+
  ultimately show ?thesis
    using log_prints [OF assms(1) _ _ assms(4) r(1), where P = P and sev = "builtin_severity b" and
        lgr = "\<lparr>lgr_endpoint = ep\<rparr>" and now = n and tid = tid and here = here and
        message = m and fs = fs] assms(2,3) r(2,3)
    by (simp add: console_pattern_renders log_builtin_def)
qed

text \<open>
  The program \<open>basic.cpp\<close> prints what it says: on every platform, at any times of the calls and
  however the worker is scheduled between its statements, it runs through to the end of \<open>close\<close>, and
  the console then shows its two lines, in order, and nothing else.
\<close>

theorem basic_main_output:
  assumes "workers_ok W items closed"
  shows "\<exists>es p'. basic_main P fs W sched here now tid initial_pipeline = Some (es, p') \<and>
    \<not> pl_running p' \<and>
    console_text False (apply_effects (\<lambda>n. console_write False (spill n)) (console_flush False) 0 0 es ss) =
      console_text False ss @ ''[INFO] example.basic: hello from SyLog'' @ [newline] @
        ''[WARN] example.basic: this warning is routed to the console'' @ [newline]"
proof -
  have sync: "\<not> cfg_async_by_default synchronous" by (simp add: synchronous_def config_builder_defs)
  note seq = perform_Cons_prints [OF assms, where up = True and j = 0]
  note line = builtin_prints [OF assms _ _ sync]
  have "prints 0 (at_rest fs items closed default_config [] False) (basic_main P fs W sched here now tid)
    ((''['' @ sev_name (builtin_severity Info) @ ''] '' @ ''example.basic'' @ '': '' @
        ''hello from SyLog'' @ [newline]) @
     (''['' @ sev_name (builtin_severity Warn) @ ''] '' @ ''example.basic'' @ '': '' @
        ''this warning is routed to the console'' @ [newline]) @ [] @ [])
    (reset_as synchronous [basic_route])"
    unfolding basic_main_def Let_def
    by (rule setup_prints [OF assms], rule seq, simp add: sole_one, rule line, simp, simp,
        rule seq, simp add: sole_one, rule line, simp, simp,
        rule seq, simp add: sole_one, rule close_prints [OF assms sole_one], rule perform_Nil_prints)
  from console_shows [OF this rest_initial, where ss = ss and spill = spill] show ?thesis
    by (auto simp: severity_defs reset_as_def)
qed

theorem basic_main_output_witness:
  "\<exists>es p'. basic_main plain_platform info_store list_workers (\<lambda>n. [0, 0]) nowhere (\<lambda>n. 0) 0 initial_pipeline =
      Some (es, p') \<and> \<not> pl_running p'"
  using basic_main_output [OF list_workers_ok] by blast

text \<open>
  The program \<open>custom_severity.cpp\<close>: a severity defined by the application, of priority 450,
  passes the route's filter (\<open>info\<close> and above) and is printed under its own name.
\<close>

theorem custom_severity_main_output:
  assumes "workers_ok W items closed"
  shows "\<exists>es p'. custom_severity_main P W sched here now tid initial_pipeline = Some (es, p') \<and>
    \<not> pl_running p' \<and>
    console_text False (apply_effects (\<lambda>n. console_write False (spill n)) (console_flush False) 0 0 es ss) =
      console_text False ss @ ''[AUDIT] example.audit: user 42 changed account settings'' @ [newline]"
proof -
  let ?m = "''user '' @ dec 42 @ '' changed account settings''"
  let ?lg = "\<lparr>lgr_endpoint = ''example.audit''\<rparr>"
  let ?e = "make_event audit (lgr_endpoint ?lg) now tid here ?m"
  have m: "dec 42 = ''42''" by code_simp
  have sync: "\<not> cfg_async_by_default synchronous" by (simp add: synchronous_def config_builder_defs)
  have r: "rt_sink audit_route = Some 0" "filters_pass audit_filters (rt_filters audit_route) ?e"
    "rt_renderer audit_route = Some (PatternRenderer console_pattern)"
    by (simp_all add: audit_route_def route_builder_defs audit_filters_def at_least_def route_simps audit_def)
  have sev: "100 \<le> sev_priority audit" "sev_priority audit \<noteq> 65535" by (simp_all add: audit_def)
  have line: "render_with P (rt_renderer audit_route) ?e =
      ''[AUDIT] example.audit: user 42 changed account settings'' @ [newline]"
    unfolding r(3) by (subst console_pattern_renders) (simp_all add: audit_def m)
  note seq = perform_Cons_prints [OF assms, where up = True and j = 0]
  have "prints 0 (at_rest audit_filters items closed default_config [] False)
      (custom_severity_main P W sched here now tid)
      (render_with P (rt_renderer audit_route) ?e @ [] @ []) (reset_as synchronous [audit_route])"
    unfolding custom_severity_main_def Let_def
    by (rule setup_prints [OF assms], rule seq, simp add: sole_one,
        rule log_prints [OF assms sev sync r(1,2)],
        rule seq, simp add: sole_one, rule close_prints [OF assms sole_one], rule perform_Nil_prints)
  from console_shows [OF this rest_initial, where ss = ss and spill = spill] show ?thesis
    unfolding line by (auto simp: reset_as_def)
qed

theorem custom_severity_main_output_witness:
  "\<exists>es p'. custom_severity_main plain_platform list_workers (\<lambda>n. [0]) nowhere 0 0 initial_pipeline =
      Some (es, p') \<and> \<not> pl_running p'"
  using custom_severity_main_output [OF list_workers_ok] by blast

subsection \<open>Asynchronous programs\<close>

definition async_pattern :: string where
  "async_pattern = ''{time} [{severity}] {message}'' @ [newline]"

definition async_route :: route where
  "async_route =
     block_when_full (route_render_with (Some (PatternRenderer async_pattern)) (send_to (Some 0) default_route))"

definition async_workers_setup ::
  "platform \<Rightarrow> filter_store \<Rightarrow> 'q workers \<Rightarrow> (nat \<Rightarrow> nat list) \<Rightarrow> 'q statement" where
  "async_workers_setup P fs W sched =
     perform P fs W sched 0
       [configure P fs W [] (asynchronous 1024), add_route P fs W [] async_route, \<lambda>p. Some ([], start W p)]"

definition async_workers_calls :: "source_location \<Rightarrow> (nat \<Rightarrow> int) \<Rightarrow> nat \<Rightarrow> pd_action list" where
  "async_workers_calls here now tid =
     map (\<lambda>i. PdCall tid \<lparr>lgr_endpoint = ''example.async''\<rparr> info_severity here (now i)
       (''workers-backed event '' @ dec i)) [0..<10]"

lemma single_thread:
  assumes "\<And>t. t \<noteq> tid \<Longrightarrow> by_thread t us = []"
  shows "map snd us = by_thread tid us"
proof -
  have "fst u = tid" if "u \<in> set us" for u
    using assms [of "fst u"] that by (auto simp: by_thread_def filter_empty_conv)
  then show ?thesis by (simp add: by_thread_def)
qed

text \<open>One thread logs through one route that blocks; the pipeline is closed when it is through.\<close>

lemma main_thread_delivered:
  assumes "workers_ok W items closed" "at_rest fs items closed cfg routes True p" "cfg_async_by_default cfg"
    "pd_run P fs W acts \<lparr>pd_pipeline = p, pd_waiting = (\<lambda>_. None)\<rparr> = Some (es, s)"
    "filter is_call acts = main" "list_all queued_action main" "\<forall>u \<in> set (calls main). fst u = tid"
    "pd_waiting s tid = None" "j < 64" "rt_strategy (routes ! j) = Some BlockWhenFull"
    "rt_sink (routes ! j) = Some sk" "sole routes sk j"
  shows "\<exists>es2 p'. close P fs W sched (pd_pipeline s) = Some (es2, p') \<and> \<not> pl_running p' \<and>
    sink_bytes sk (es @ es2) = concat (map (render_with P (rt_renderer (routes ! j)))
      (filter (filters_pass fs (rt_filters (routes ! j))) (map snd (calls main))))"
proof -
  have p: "running_async fs items closed p" "pl_routes p = routes" "pl_global_filters p = []"
    using assms(2,3) by (simp_all add: at_rest_def running_async_def)
  obtain x where x: "pl_crossbar p = Some x" using p(1) by (rule running_asyncE)
  have q: "queued items x j = []" using assms(2,12) x by (simp add: at_rest_def sole_def)
  have acts: "calls acts = calls main" "list_all queued_action acts"
    using calls_filter [of acts] queued_filter [of acts] assms(5,6) by simp_all
  have idle: "\<forall>t. pd_waiting s t = None"
  proof
    fix t
    show "pd_waiting s t = None"
    proof (rule ccontr)
      assume w: "pd_waiting s t \<noteq> None"
      from run_waits [OF assms(4) w] acts(1) assms(7) have "t = tid" by auto
      with w assms(8) show False by simp
    qed
  qed
  have st: "steady p j" using p(2) assms(9,10,12) by (simp add: steady_def sole_def)
  have sole: "\<forall>i < length (pl_routes p). rt_sink (pl_routes p ! i) = Some sk \<longrightarrow> i = j"
    "rt_sink (pl_routes p ! j) = Some sk"
    using assms(11,12) p(2) by (simp_all add: sole_def)
  from calls_delivered [OF assms(1) p(1) x assms(4) acts(2) idle st sole(2,1), of sched]
  obtain es2 p' tagged where
    c: "close P fs W sched (pd_pipeline s) = Some (es2, p')" "reset_pipeline items p p'"
      "sink_bytes sk (es @ es2) = concat (map (render_with P (rt_renderer (routes ! j))) (map snd tagged))"
      "\<forall>t. by_thread t tagged = filter (wants fs p j) (by_thread t (calls main))"
    unfolding p(2) q acts(1) by auto
  have other: "by_thread t (calls main) = []" if "t \<noteq> tid" for t
    using assms(7) that by (auto simp: by_thread_def filter_empty_conv)
  then have "map snd tagged = by_thread tid tagged" using c(4) by (intro single_thread) simp
  also have "\<dots> = filter (wants fs p j) (map snd (calls main))"
    using c(4) single_thread [of tid "calls main"] other by simp
  also have "wants fs p j = filters_pass fs (rt_filters (routes ! j))"
    using p(2,3) by (simp add: wants_def fun_eq_iff)
  finally show ?thesis using c(1-3) by (auto simp: reset_pipeline_def)
qed

lemma fmt_pad_brace: "CHR ''{'' \<notin> set (fmt_pad w i)"
  using dec_digits [of "CHR ''{''"] by (auto simp: fmt_pad_def Let_def is_digit_def)

lemma format_time_brace: "CHR ''{'' \<notin> set (format_time f t)"
proof -
  have "set (take n s) \<subseteq> set s" for n and s :: string by (rule set_take_subset)
  then show ?thesis using fmt_pad_brace
    by (fastforce simp: format_time_def snprintf_buf_def Let_def simp del: take_append)
qed

lemma dec_brace: "CHR ''{'' \<notin> set (dec n)"
  using dec_digits [of "CHR ''{''" n] by (auto simp: is_digit_def)

lemma async_pattern_renders:
  assumes "CHR ''{'' \<notin> set (ev_severity_name e)" "CHR ''{'' \<notin> set (ev_message e)"
  shows "render_with P (Some (PatternRenderer async_pattern)) e =
    format_time (pf_local_tm P) (ev_timestamp e) @ '' ['' @ ev_severity_name e @ ''] '' @ ev_message e @ [newline]"
proof -
  let ?segs = "[Tok TTime, Lit '' ['', Tok TSeverity, Lit ''] '', Tok TMessage, Lit [newline]]"
  have "brace_free (token_value P e) ?segs" using assms format_time_brace by (simp add: brace_free_def)
  from pattern_expands [OF this] show ?thesis
    by (simp add: render_with_def async_pattern_def terminate_line_def)
qed

lemma async_setup_rest:
  assumes "workers_ok W items closed"
  shows "prints 0 (at_rest fs items closed default_config [] False) (async_workers_setup P fs W sched) []
    (at_rest fs items closed (asynchronous 1024) [async_route] True)"
  unfolding async_workers_setup_def by (rule setup_prints [OF assms]) (rule perform_Nil_prints)

text \<open>
  The program \<open>async_workers.cpp\<close>: whatever the workers' schedule before, during and after the
  logging, once the ten calls of the main thread have returned, \<open>close\<close> returns too, and the
  console shows exactly the ten lines, in the order of the calls, each with its time.
\<close>

theorem async_workers_main_output:
  assumes "workers_ok W items closed"
  shows "\<exists>es0 p. async_workers_setup P fs W sched initial_pipeline = Some (es0, p) \<and>
    (\<forall>acts es s. pd_run P fs W acts \<lparr>pd_pipeline = p, pd_waiting = (\<lambda>_. None)\<rparr> = Some (es, s) \<longrightarrow>
       filter is_call acts = async_workers_calls here now tid \<longrightarrow> pd_waiting s tid = None \<longrightarrow>
       (\<exists>es2 p'. close P fs W sched' (pd_pipeline s) = Some (es2, p') \<and> \<not> pl_running p' \<and>
          console_text False (apply_effects (\<lambda>n. console_write False (spill n)) (console_flush False) 0 0
            (es0 @ es @ es2) ss) =
          console_text False ss @ concat (map (\<lambda>i. format_time (pf_local_tm P) (now i) @
            '' [INFO] workers-backed event '' @ dec i @ [newline]) [0..<10])))"
proof -
  have r: "rt_sink async_route = Some 0" "rt_filters async_route = []"
    "rt_renderer async_route = Some (PatternRenderer async_pattern)"
    "rt_strategy async_route = Some BlockWhenFull"
    by (simp_all add: async_route_def route_builder_defs)
  have cfg: "cfg_async_by_default (asynchronous 1024)"
    by (simp add: asynchronous_def config_builder_defs)
  obtain es0 p where p: "async_workers_setup P fs W sched initial_pipeline = Some (es0, p)"
    "at_rest fs items closed (asynchronous 1024) [async_route] True p" "sink_bytes 0 es0 = []"
    using async_setup_rest [OF assms] rest_initial unfolding prints_def by blast
  let ?calls = "async_workers_calls here now tid"
  have main: "list_all queued_action ?calls" "\<forall>u \<in> set (calls ?calls). fst u = tid"
    by (auto simp: async_workers_calls_def calls_def list_all_iff queueable_def severity_defs)
  have line: "render_with P (Some (PatternRenderer async_pattern))
      (make_event info_severity ''example.async'' (now i) tid here (''workers-backed event '' @ dec i)) =
    format_time (pf_local_tm P) (now i) @ '' [INFO] workers-backed event '' @ dec i @ [newline]" for i
    by (subst async_pattern_renders) (simp_all add: severity_defs dec_brace)
  have lines: "concat (map (render_with P (Some (PatternRenderer async_pattern))) (map snd (calls ?calls))) =
    concat (map (\<lambda>i. format_time (pf_local_tm P) (now i) @
            '' [INFO] workers-backed event '' @ dec i @ [newline]) [0..<10])"
  proof -
    have "map snd (calls ?calls) = map (\<lambda>i. make_event info_severity ''example.async'' (now i) tid here
        (''workers-backed event '' @ dec i)) [0..<10]"
      unfolding async_workers_calls_def calls_def by (simp add: comp_def)
    then show ?thesis by (simp only: map_map comp_def line)
  qed
  have "\<exists>es2 p'. close P fs W sched' (pd_pipeline s) = Some (es2, p') \<and> \<not> pl_running p' \<and>
      console_text False (apply_effects (\<lambda>n. console_write False (spill n)) (console_flush False) 0 0
        (es0 @ es @ es2) ss) =
      console_text False ss @ concat (map (\<lambda>i. format_time (pf_local_tm P) (now i) @
        '' [INFO] workers-backed event '' @ dec i @ [newline]) [0..<10])"
    if "pd_run P fs W acts \<lparr>pd_pipeline = p, pd_waiting = (\<lambda>_. None)\<rparr> = Some (es, s)"
      "filter is_call acts = ?calls" "pd_waiting s tid = None" for acts es s
  proof -
    from main_thread_delivered [OF assms p(2) cfg that(1,2) main that(3), of 0 0 sched'] r sole_one
    obtain es2 p' where c: "close P fs W sched' (pd_pipeline s) = Some (es2, p')" "\<not> pl_running p'"
      "sink_bytes 0 (es @ es2) = concat (map (render_with P (Some (PatternRenderer async_pattern)))
        (map snd (calls ?calls)))"
      by auto
    have "sink_bytes 0 (es0 @ es @ es2) = sink_bytes 0 (es @ es2)" using p(3) by simp
    with c console.effects_all [of False ss "console_text False ss" spill 0 0 "es0 @ es @ es2"]
    show ?thesis unfolding lines by metis
  qed
  with p(1) show ?thesis by blast
qed

theorem async_workers_main_output_witness:
  "\<exists>es0 p acts es s es2 p'.
    async_workers_setup plain_platform info_store list_workers (\<lambda>n. []) initial_pipeline = Some (es0, p) \<and>
    pd_run plain_platform info_store list_workers acts \<lparr>pd_pipeline = p, pd_waiting = (\<lambda>_. None)\<rparr> = Some (es, s) \<and>
    filter is_call acts = async_workers_calls nowhere (\<lambda>n. 0) 0 \<and>
    close plain_platform info_store list_workers [0] (pd_pipeline s) = Some (es2, p') \<and> \<not> pl_running p'"
proof -
  let ?main = "async_workers_calls nowhere (\<lambda>n. 0) 0"
  let ?ss = "\<lparr>std_out = \<lparr>sm_out = [], sm_buf = []\<rparr>, std_err = \<lparr>sm_out = [], sm_buf = []\<rparr>\<rparr>"
  obtain es0 p where p: "async_workers_setup plain_platform info_store list_workers (\<lambda>n. []) initial_pipeline
      = Some (es0, p)" "at_rest info_store fst snd (asynchronous 1024) [async_route] True p"
    using async_setup_rest [OF list_workers_ok] rest_initial unfolding prints_def by blast
  have "callers_ok info_store fst snd \<lparr>pd_pipeline = p, pd_waiting = (\<lambda>_. None)\<rparr>"
    using p(2) by (simp add: callers_ok_def running_async_def at_rest_def asynchronous_def config_builder_defs)
  moreover have "list_all queued_action ?main" "\<forall>a \<in> set ?main. is_call a \<and> actor a = 0"
    by (auto simp: async_workers_calls_def list_all_iff queueable_def severity_defs)
  ultimately obtain acts es s where h: "pd_run plain_platform info_store list_workers acts
      \<lparr>pd_pipeline = p, pd_waiting = (\<lambda>_. None)\<rparr> = Some (es, s)" "filter is_call acts = ?main"
    "pd_waiting s 0 = None"
    using calls_can_return [OF list_workers_ok, of info_store _ ?main 0 plain_platform] by fastforce
  from async_workers_main_output [OF list_workers_ok, of plain_platform info_store "\<lambda>n. []" nowhere
      "\<lambda>n. 0" 0 "[0]" "\<lambda>n. 0" ?ss] p(1) h show ?thesis by fastforce
qed

end
