(* ===== verification/Capacity.thy ===== *)
theory Capacity
  imports Lifecycle
begin

section \<open>Queue capacities\<close>

text \<open>
  The memory that queued events can take. No operation of the event queue changes its capacity, and
  every queue of a crossbar is made with the crossbar's, so the queues of a pipeline hold at most as
  many events as its configuration says. A configuration given to a running pipeline reaches the
  queues with the next change of the routes, stop or close.
\<close>

subsection \<open>One lane\<close>

definition sized :: "size_t \<Rightarrow> 'q lane \<Rightarrow> bool" where
  "sized c l \<longleftrightarrow> (\<forall>q. ln_queue l = Some q \<longrightarrow> eq_capacity q = c)"

named_theorems capacity_simps

lemma slot_capacity [capacity_simps]:
  "eq_capacity (snd (reserve_slot q)) = eq_capacity q" "eq_capacity (release_slot q) = eq_capacity q"
  by (simp_all add: reserve_slot_def release_slot_def Let_def)

lemma push_capacity [capacity_simps]:
  "eq_capacity (snd (try_push W e q)) = eq_capacity q"
  "eq_capacity (snd (push_blocking W e accepting q)) = eq_capacity q"
  using slot_capacity(1) [of q]
  by (auto simp: try_push_def push_blocking_def Let_def slot_capacity(2) split: prod.split)

lemma pop_capacity [capacity_simps]:
  "eq_capacity (snd (try_pop W q)) = eq_capacity q"
  "eq_capacity (snd (pop_blocking W stop q)) = eq_capacity q"
  by (auto simp: try_pop_def pop_blocking_def Let_def slot_capacity(2)
      split: prod.split option.split pop_result.split)

lemma close_capacity [capacity_simps]: "eq_capacity (close_queue W q) = eq_capacity q"
  by (simp add: close_queue_def)

lemma offer_capacity [capacity_simps]:
  "eq_capacity (snd (offer W e accepting r q)) = eq_capacity q"
proof -
  have "eq_capacity (snd (strategy_submit W strat e accepting q)) = eq_capacity q" for strat
    using push_capacity(1) [of W e q] push_capacity(2) [of W e accepting q]
    by (cases strat) (auto split: prod.split)
  then show ?thesis using push_capacity(1) [of W e q]
    by (auto simp: offer_def split: option.split prod.split)
qed

lemma worker_step_sized:
  assumes "sized c l"
  shows "sized c (snd (worker_step P fs W l))"
proof -
  have "eq_capacity q' = eq_capacity q" if "pop_blocking W stop q = (r, q')" for r q q' stop
    using pop_capacity(2) [of W stop q] that by simp
  moreover have "eq_capacity q' = eq_capacity q" if "try_pop W q = (r, q')" for r q q'
    using pop_capacity(1) [of W q] that by simp
  ultimately show ?thesis using assms
    by (auto simp: worker_step_def sized_def Let_def split: worker.split option.split prod.split
        pop_result.split)
qed

lemma signal_stop_sized: "sized c l \<Longrightarrow> sized c (signal_stop W drain l)"
  by (auto simp: sized_def signal_stop_def close_capacity)

lemma made_sized:
  assumes "1 \<le> c"
  shows "sized c (new_lane W c r)" "sized c (fresh_queue W c l)"
    "sized c l \<Longrightarrow> sized c (launch l)" "sized c l \<Longrightarrow> sized c (start_lane W c l)"
  using assms by (auto simp: sized_def new_lane_def fresh_queue_def launch_def start_lane_def Let_def
      event_queue_new_def max_absorb1 split: option.split)

subsection \<open>The crossbar\<close>

definition crossbar_sized :: "'q crossbar \<Rightarrow> bool" where
  "crossbar_sized x \<longleftrightarrow> 1 \<le> xb_capacity x \<and> (\<forall>l \<in> set (xb_lanes x). sized (xb_capacity x) l)"

lemma work_at_sized:
  assumes "\<forall>l \<in> set lanes. sized c l" "work_at P fs W i lanes = (es, lanes')"
  shows "\<forall>l \<in> set lanes'. sized c l"
proof (cases "i < length lanes")
  case True
  then have "sized c (snd (worker_step P fs W (lanes ! i)))"
    using assms(1) by (simp add: worker_step_sized)
  with True assms show ?thesis
    by (auto simp: work_at_def split: prod.splits dest!: set_update_subset_insert [THEN subsetD])
qed (use assms in \<open>simp add: work_at_def\<close>)

lemma submit_loop_sized:
  "\<forall>l \<in> set lanes. sized c l \<Longrightarrow> submit_loop W e route_mask accepting i d lanes = (r, lanes') \<Longrightarrow>
   \<forall>l \<in> set lanes'. sized c l"
proof (induction lanes arbitrary: i d r lanes')
  case Nil
  then show ?case by simp
next
  case (Cons l ls)
  have "eq_capacity q' = eq_capacity q" if "offer W e accepting (ln_route l) q = (oc, q')" for oc q q'
    using offer_capacity [of W e accepting "ln_route l" q] that by simp
  then have l: "sized c (l\<lparr>ln_queue := Some q'\<rparr>)"
    if "ln_queue l = Some q" "offer W e accepting (ln_route l) q = (oc, q')" for oc q q'
    using that Cons.prems(1) by (auto simp: sized_def)
  have ih: "sized c l'" if "submit_loop W e route_mask accepting (Suc i) d' ls = (r', ls')" "l' \<in> set ls'"
    for d' r' ls' l'
    using Cons.IH [OF _ that(1)] Cons.prems(1) that(2) by simp
  from Cons.prems show ?case
    by (auto simp: Let_def l dest: ih split: if_splits option.splits prod.splits push_outcome.splits)
qed

lemma crossbar_resume_sized:
  assumes "crossbar_sized x" "crossbar_resume W e route_mask accepting i d x = (r, x')"
  shows "crossbar_sized x'" "xb_capacity x' = xb_capacity x"
proof -
  obtain ls where ls: "submit_loop W e route_mask accepting i d (drop i (xb_lanes x)) = (r, ls)"
    "x' = x\<lparr>xb_lanes := take i (xb_lanes x) @ ls\<rparr>"
    using assms(2) by (auto simp: crossbar_resume_def split: prod.splits)
  have "\<forall>l \<in> set (drop i (xb_lanes x)). sized (xb_capacity x) l"
    "\<forall>l \<in> set (take i (xb_lanes x)). sized (xb_capacity x) l"
    using assms(1) by (auto simp: crossbar_sized_def dest: in_set_dropD in_set_takeD)
  with submit_loop_sized [OF this(1) ls(1)] ls(2) assms(1)
  show "crossbar_sized x'" "xb_capacity x' = xb_capacity x" by (auto simp: crossbar_sized_def)
qed

lemma crossbar_configure_sized:
  assumes "crossbar_configure P fs W sched routes capacity x = Some (es, x')"
  shows "crossbar_sized x'" "xb_capacity x' = max capacity 1"
proof -
  have "sized (max capacity 1) (new_lane W (max capacity 1) r)" for r
    by (rule made_sized(1)) simp
  then show "crossbar_sized x'" "xb_capacity x' = max capacity 1"
    using assms by (auto simp: crossbar_configure_def Let_def crossbar_sized_def made_sized(3)
        split: option.splits if_splits)
qed

lemma crossbar_start_sized:
  assumes "crossbar_sized x"
  shows "crossbar_sized (crossbar_start W x)" "xb_capacity (crossbar_start W x) = xb_capacity x"
  using assms made_sized(4) [of "xb_capacity x"] by (auto simp: crossbar_start_def crossbar_sized_def)

subsection \<open>The pipeline\<close>

definition pipeline_sized :: "'q pipeline \<Rightarrow> bool" where
  "pipeline_sized p \<longleftrightarrow>
     (\<forall>x. pl_crossbar p = Some x \<longrightarrow> crossbar_sized x \<and>
        (\<not> pl_running p \<longrightarrow> xb_capacity x = max (cfg_queue_capacity (pl_cfg p)) 1))"

lemma renew_crossbar_sized:
  "renew_crossbar P fs W sched p = Some (es, p') \<Longrightarrow>
   pipeline_sized p' \<and> pl_running p' = pl_running p \<and> pl_cfg p' = pl_cfg p"
  using crossbar_configure_sized
  by (fastforce simp: renew_crossbar_def Let_def pipeline_sized_def split: bind_splits)

lemma reconfigure_crossbar_sized:
  "reconfigure_crossbar P fs W sched routes p = Some (es, p') \<Longrightarrow> pl_crossbar p \<noteq> None \<Longrightarrow> pipeline_sized p'"
  using crossbar_configure_sized
  by (fastforce simp: reconfigure_crossbar_def pipeline_sized_def split: bind_splits)

text \<open>Every call of the API keeps the queues at the size of their crossbar.\<close>

lemma stop_sized:
  "close P fs W sched p = Some (es, p') \<Longrightarrow> pipeline_sized p'"
  "request_stop P fs W sched p = Some (es, p') \<Longrightarrow> pipeline_sized p'"
  using renew_crossbar_sized
  by (fastforce simp: close_def request_stop_def Let_def split: bind_splits)+

lemma submit_crossbar:
  assumes "pl_crossbar p = Some x" "crossbar_sized x" "submit P fs W e force_sync p = (r, es, p')"
  shows "\<exists>x'. pl_crossbar p' = Some x' \<and> crossbar_sized x' \<and> xb_capacity x' = xb_capacity x \<and>
    pl_running p' = pl_running p \<and> pl_cfg p' = pl_cfg p"
proof -
  have "crossbar_sized x' \<and> xb_capacity x' = xb_capacity x"
    if "crossbar_submit W e m a x = (r0, x')" for m a r0 x'
    using crossbar_resume_sized [OF assms(2), of W e m a 0 False r0 x'] that
    by (simp add: crossbar_submit_def)
  then show ?thesis using assms(1-3)
    by (auto simp: submit_def Let_def split: if_splits prod.splits)
qed

lemma submit_sized:
  assumes "pipeline_sized p" "pl_crossbar p = Some x" "submit P fs W e force_sync p = (r, es, p')"
  shows "pipeline_sized p'"
proof -
  have "crossbar_sized x" using assms(1,2) by (simp add: pipeline_sized_def)
  from submit_crossbar [OF assms(2) this assms(3)] assms(1,2) show ?thesis
    by (auto simp: pipeline_sized_def)
qed

lemma pl_step_sized:
  assumes "pipeline_sized p" "pl_crossbar p \<noteq> None" "pl_step P fs W sched oper p = Some (es, p')"
  shows "pipeline_sized p'"
proof (cases oper)
  case (OpConfigure cfg)
  with assms show ?thesis using renew_crossbar_sized
    by (fastforce simp: configure_def Let_def pipeline_sized_def split: if_splits bind_splits)
next
  case (OpAddRoute r)
  with assms show ?thesis
    by (auto simp: add_route_def Let_def intro: reconfigure_crossbar_sized)
next
  case OpClearRoutes
  with assms show ?thesis
    by (auto simp: clear_routes_def Let_def intro: reconfigure_crossbar_sized)
next
  case OpStart
  with assms show ?thesis
    by (cases "pl_running p") (auto simp: start_def Let_def pipeline_sized_def crossbar_start_sized)
next
  case (OpSubmit e f)
  with assms submit_sized [OF assms(1), of _ P fs W e f "fst (submit P fs W e f p)" es p'] show ?thesis
    by (auto simp: prod_eq_iff)
next
  case (OpResume e i d m)
  with assms show ?thesis
    by (auto simp: resume_submit_def pipeline_sized_def crossbar_resume_sized split: prod.splits)
next
  case (OpWork i)
  with assms show ?thesis using work_at_sized
    by (fastforce simp: work_def pipeline_sized_def crossbar_sized_def split: prod.splits)
qed (use assms in \<open>auto simp: pipeline_sized_def add_global_filter_def clear_global_filters_def
    dest: stop_sized(1) stop_sized(2) simp: stop_sized\<close>)

lemma initial_pipeline_sized: "pipeline_sized initial_pipeline"
  by (simp add: pipeline_sized_def initial_pipeline_def crossbar_new_def crossbar_sized_def)

interpretation sized_api: invariant_system "\<lambda>p. p = initial_pipeline" "pl_trans P fs W"
    "\<lambda>p. workers_ok W items closed \<longrightarrow> pipeline_ok fs items closed p \<and> pipeline_sized p"
    for P fs W items closed
proof unfold_locales
  fix p q
  assume inv: "workers_ok W items closed \<longrightarrow> pipeline_ok fs items closed p \<and> pipeline_sized p"
    and st: "pl_trans P fs W p q"
  from st obtain sched oper es where q: "pl_step P fs W sched oper p = Some (es, q)"
    by (auto simp: pl_trans_def)
  show "workers_ok W items closed \<longrightarrow> pipeline_ok fs items closed q \<and> pipeline_sized q"
  proof
    assume W: "workers_ok W items closed"
    with inv have p: "pipeline_ok fs items closed p" "pipeline_sized p" by simp_all
    then have "pl_crossbar p \<noteq> None" by (auto elim: pipeline_okE)
    from pl_step_sized [OF p(2) this q] pl_step_ok [OF W p(1), of P sched oper] q
    show "pipeline_ok fs items closed q \<and> pipeline_sized q" by simp
  qed
qed (simp add: initial_pipeline_sized)



end
