(* ===== verification/Routing_Example.thy ===== *)
theory Routing_Example
  imports Examples Capacity
begin

section \<open>The routing example\<close>

text \<open>
  \<open>src/examples/routing.cpp\<close>: an asynchronous pipeline with two routes, the console (which drops when
  its queue is full) from \<open>info\<close> upwards and a rotating file (which blocks) for everything from
  \<open>trace\<close> upwards, as JSON. Statements run one after the other, with steps of the workers between
  any two. The console sink is sink 0, the file sink is sink 1.
\<close>

subsection \<open>The program\<close>

definition routing_pattern :: string where
  "routing_pattern = ''[{severity}] {message}'' @ [newline]"

definition routing_filters :: filter_store where
  "routing_filters = (\<lambda>i. if i = 0 then at_least info_severity else at_least trace_severity)"

definition console_route :: route where
  "console_route =
     drop_when_full (filtered_by (Some 0)
       (route_render_with (Some (PatternRenderer routing_pattern)) (send_to (Some 0) default_route)))"

definition file_route :: route where
  "file_route =
     block_when_full (filtered_by (Some 1)
       (route_render_with (Some (JsonRenderer default_json_renderer)) (send_to (Some 1) default_route)))"

definition routing_mode :: rotation_mode where
  "routing_mode = when_file_size_exceeds (1024 * 1024) 3"

definition routing_file :: "io \<Rightarrow> file_system \<Rightarrow> file_sink \<times> file_system" where
  "routing_file io disk = file_sink_new io ''sylog-routing-example.log'' (Some routing_mode) disk"

definition routing_main ::
  "platform \<Rightarrow> 'q workers \<Rightarrow> (nat \<Rightarrow> nat list) \<Rightarrow> source_location \<Rightarrow> (nat \<Rightarrow> int) \<Rightarrow> nat \<Rightarrow> nat list \<Rightarrow>
   'q statement" where
  "routing_main P W sched here now tid sched' =
     (let fs = routing_filters; lg = \<lparr>lgr_endpoint = ''example.routing''\<rparr>
      in perform P fs W sched 0
        [configure P fs W [] (asynchronous 4096),
         add_route P fs W [] console_route,
         add_route P fs W [] file_route,
         \<lambda>p. Some ([], start W p),
         \<lambda>p. call_returns (log_builtin P fs W here lg Debug (now 0) tid ''debug goes only to the file route'' p),
         \<lambda>p. call_returns (log_builtin P fs W here lg Info (now 1) tid ''info goes to console and file'' p),
         \<lambda>p. call_returns (log_builtin P fs W here lg Error (now 2) tid ''error goes to console and file'' p),
         close P fs W sched'])"

subsection \<open>Text still to come\<close>

text \<open>What the events queued in lane \<open>j\<close> will be printed as.\<close>

definition backlog ::
  "platform \<Rightarrow> filter_store \<Rightarrow> ('q \<Rightarrow> event list) \<Rightarrow> nat \<Rightarrow> 'q pipeline \<Rightarrow> string" where
  "backlog P fs items j p =
     (case pl_crossbar p of
        None \<Rightarrow> []
      | Some x \<Rightarrow>
          if j < length (pl_routes p) then
            concat (map (render_with P (rt_renderer (pl_routes p ! j)))
              (filter (filters_pass fs (rt_filters (pl_routes p ! j))) (queued items x j)))
          else [])"

text \<open>A running pipeline whose queues hold at most \<open>n\<close> events each.\<close>

definition loaded ::
  "filter_store \<Rightarrow> ('q \<Rightarrow> event list) \<Rightarrow> ('q \<Rightarrow> bool) \<Rightarrow> config \<Rightarrow> route list \<Rightarrow> nat \<Rightarrow> 'q pipeline \<Rightarrow> bool" where
  "loaded fs items closed cfg routes n p \<longleftrightarrow>
     pipeline_ok fs items closed p \<and> pl_cfg p = cfg \<and> pl_routes p = routes \<and> pl_running p \<and>
     pl_global_filters p = [] \<and>
     (\<exists>x. pl_crossbar p = Some x \<and> crossbar_sized x \<and> xb_capacity x = max (cfg_queue_capacity cfg) 1 \<and>
        (\<forall>j < length routes. length (queued items x j) \<le> n))"

text \<open>
  From a pipeline with \<open>I\<close>, the statement returns and leaves \<open>J\<close>; what it prints to the sink and
  what is still to come there is what was to come and the text.
\<close>

definition feeds ::
  "sink_id \<Rightarrow> ('q pipeline \<Rightarrow> string) \<Rightarrow> ('q pipeline \<Rightarrow> bool) \<Rightarrow> 'q statement \<Rightarrow> string \<Rightarrow>
   ('q pipeline \<Rightarrow> bool) \<Rightarrow> bool" where
  "feeds s B I f text J \<longleftrightarrow>
     (\<forall>p. I p \<longrightarrow> (\<exists>es p'. f p = Some (es, p') \<and> J p' \<and> sink_bytes s es @ B p' = B p @ text))"

definition undisturbed ::
  "platform \<Rightarrow> filter_store \<Rightarrow> 'q workers \<Rightarrow> sink_id \<Rightarrow> ('q pipeline \<Rightarrow> string) \<Rightarrow> ('q pipeline \<Rightarrow> bool) \<Rightarrow> bool" where
  "undisturbed P fs W s B I \<longleftrightarrow>
     (\<forall>p i es p'. I p \<longrightarrow> work P fs W i p = (es, p') \<longrightarrow> I p' \<and> sink_bytes s es @ B p' = B p)"

lemma undisturbed_steps:
  assumes "undisturbed P fs W s B I"
  shows "I p \<Longrightarrow> work_steps P fs W is p = (es, p') \<Longrightarrow> I p' \<and> sink_bytes s es @ B p' = B p"
proof (induction "is" arbitrary: p es)
  case Nil
  then show ?case by simp
next
  case (Cons i "is")
  obtain es1 p1 es2 where w: "work P fs W i p = (es1, p1)" "work_steps P fs W is p1 = (es2, p')" "es = es1 @ es2"
    using Cons.prems(2) by (auto split: prod.splits)
  have 1: "I p1" "sink_bytes s es1 @ B p1 = B p" using assms Cons.prems(1) w(1) by (auto simp: undisturbed_def)
  from Cons.IH [OF 1(1) w(2)] 1(2) w(3) show ?case by simp
qed

lemma perform_Nil_feeds: "feeds s B I (perform P fs W sched n []) [] I"
  by (simp add: feeds_def)

lemma perform_Cons_feeds:
  assumes "undisturbed P fs W s B I" "feeds s B I f t J"
    "feeds s B J (perform P fs W sched (Suc n) fs') ts K"
  shows "feeds s B I (perform P fs W sched n (f # fs')) (t @ ts) K"
  unfolding feeds_def
proof (intro allI impI)
  fix p
  assume p: "I p"
  obtain es1 p1 where w: "work_steps P fs W (sched n) p = (es1, p1)" by fastforce
  note 1 = undisturbed_steps [OF assms(1) p w]
  from assms(2) 1 obtain es2 p2 where 2: "f p1 = Some (es2, p2)" "J p2" "sink_bytes s es2 @ B p2 = B p1 @ t"
    by (auto simp: feeds_def)
  from assms(3) 2(2) obtain es3 p3 where
    3: "perform P fs W sched (Suc n) fs' p2 = Some (es3, p3)" "K p3" "sink_bytes s es3 @ B p3 = B p2 @ ts"
    by (auto simp: feeds_def)
  have "sink_bytes s (es1 @ es2 @ es3) @ B p3 = B p @ t @ ts"
    using 1 2(3) 3(3) by (metis append.assoc sink_bytes_simps(3))
  with w 2(1) 3(1,2) show "\<exists>es p'. perform P fs W sched n (f # fs') p = Some (es, p') \<and> K p' \<and>
      sink_bytes s es @ B p' = B p @ t @ ts" by simp
qed

subsection \<open>A pipeline that is set up\<close>

definition resting ::
  "filter_store \<Rightarrow> ('q \<Rightarrow> event list) \<Rightarrow> ('q \<Rightarrow> bool) \<Rightarrow> config \<Rightarrow> route list \<Rightarrow> 'q pipeline \<Rightarrow> bool" where
  "resting fs items closed cfg routes p \<longleftrightarrow>
     at_rest fs items closed cfg routes False p \<and> pipeline_sized p"

lemma resting_backlog: "resting fs items closed cfg routes p \<Longrightarrow> backlog P fs items j p = []"
  by (simp add: resting_def at_rest_def backlog_def split: option.split)

lemma resting_undisturbed: "undisturbed P fs W s B (resting fs items closed cfg routes)"
  unfolding undisturbed_def
proof (intro allI impI)
  fix p i es p'
  assume p: "resting fs items closed cfg routes p" and w: "work P fs W i p = (es, p')"
  then have ok: "pipeline_ok fs items closed p" "\<not> pl_running p"
    by (simp_all add: resting_def at_rest_def)
  obtain x where x: "pl_crossbar p = Some x" "crossbar_ok items closed x" "xb_running x = pl_running p"
    using ok(1) by (rule pipeline_okE)
  then have "\<forall>l \<in> set (xb_lanes x). ln_worker l = NoThread" using ok(2) by (simp add: crossbar_ok_def)
  from work_at_idle [OF this, of P fs W i] w x(1) have "es = [] \<and> p' = p" by (auto simp: work_def)
  with p show "resting fs items closed cfg routes p' \<and> sink_bytes s es @ B p' = B p" by simp
qed

lemma resting_step:
  assumes "prints s (at_rest fs items closed cfg routes False) f []
      (at_rest fs items closed cfg' routes' False)"
    "\<And>p. f p = pl_step P fs W sched oper p"
  shows "feeds s (backlog P fs items j) (resting fs items closed cfg routes) f [] (resting fs items closed cfg' routes')"
  unfolding feeds_def
proof (intro allI impI)
  fix p
  assume p: "resting fs items closed cfg routes p"
  with assms(1) obtain es p' where f: "f p = Some (es, p')" "at_rest fs items closed cfg' routes' False p'"
    "sink_bytes s es = []" by (auto simp: prints_def resting_def)
  have "pl_crossbar p \<noteq> None" using p by (auto simp: resting_def at_rest_def elim: pipeline_okE)
  with p f(1) have "pipeline_sized p'"
    unfolding assms(2) resting_def by (blast intro: pl_step_sized)
  with f have "resting fs items closed cfg' routes' p'" by (simp add: resting_def)
  with f p show "\<exists>es p'. f p = Some (es, p') \<and> resting fs items closed cfg' routes' p' \<and>
      sink_bytes s es @ backlog P fs items j p' = backlog P fs items j p @ []"
    by (simp add: resting_backlog)
qed

lemma start_feeds:
  "feeds s (backlog P fs items j) (resting fs items closed cfg routes) (\<lambda>p. Some ([], start W p)) []
    (loaded fs items closed cfg routes 0)"
  unfolding feeds_def
proof (intro allI impI)
  fix p
  assume p: "resting fs items closed cfg routes p"
  then have r: "at_rest fs items closed cfg routes False p" "pipeline_sized p" by (simp_all add: resting_def)
  with start_prints [of s fs items closed cfg routes W]
  have up: "at_rest fs items closed cfg routes True (start W p)" by (simp add: prints_def)
  obtain x where x: "pl_crossbar p = Some x" using r(1) by (auto simp: at_rest_def elim: pipeline_okE)
  have y: "pl_crossbar (start W p) = Some (crossbar_start W x)"
    using x r(1) by (simp add: start_def Let_def at_rest_def)
  have size: "crossbar_sized (crossbar_start W x)"
    "xb_capacity (crossbar_start W x) = max (cfg_queue_capacity cfg) 1"
    using r x crossbar_start_sized [of x W] by (auto simp: pipeline_sized_def at_rest_def)
  have "queued items (crossbar_start W x) j = []" if "j < length routes" for j
    using up y that by (simp add: at_rest_def)
  with up y size have "loaded fs items closed cfg routes 0 (start W p) \<and>
      backlog P fs items j (start W p) = []"
    by (simp add: loaded_def at_rest_def backlog_def)
  with p show "\<exists>es p'. Some ([], start W p) = Some (es, p') \<and>
      loaded fs items closed cfg routes 0 p' \<and>
      sink_bytes s es @ backlog P fs items j p' = backlog P fs items j p @ []"
    by (simp add: resting_backlog)
qed

subsection \<open>A pipeline at work\<close>

lemma loaded_undisturbed:
  assumes "workers_ok W items closed" "sole routes s j" "rt_sink (routes ! j) = Some s"
  shows "undisturbed P fs W s (backlog P fs items j) (loaded fs items closed cfg routes n)"
  unfolding undisturbed_def
proof (intro allI impI)
  fix p i es p'
  assume p: "loaded fs items closed cfg routes n p" and w: "work P fs W i p = (es, p')"
  then obtain x where ok: "pipeline_ok fs items closed p" and r: "pl_routes p = routes" and
    x: "pl_crossbar p = Some x" "crossbar_sized x"
      "xb_capacity x = max (cfg_queue_capacity cfg) 1" "\<forall>j < length routes. length (queued items x j) \<le> n"
    by (auto simp: loaded_def)
  have c: "crossbar_ok items closed x" "map ln_route (xb_lanes x) = routes"
    using ok x(1) r by (auto simp: pipeline_simps)
  have j: "j < length routes" using assms(2) by (simp add: sole_def)
  have len: "length (xb_lanes x) = length routes" using c(2) by (metis length_map)
  have lane: "ln_route (xb_lanes x ! j) = routes ! j" using c(2) j len by (metis nth_map)
  obtain lanes where l: "work_at P fs W i (xb_lanes x) = (es, lanes)"
    "p' = p\<lparr>pl_crossbar := Some (x\<lparr>xb_lanes := lanes\<rparr>)\<rparr>"
    using w x(1) by (auto simp: work_def split: prod.splits)
  let ?x' = "x\<lparr>xb_lanes := lanes\<rparr>"
  from work_conserves [OF assms(1) c(1) l(1)] obtain h where
    h: "conserves P fs items closed x (\<lambda>_. []) h es ?x'" by blast
  then have q: "queued items x k = h k @ queued items ?x' k" if "k < length routes" for k
    using that len by (simp add: conserves_def)
  have "crossbar_sized ?x'" using x(2) work_at_sized [OF _ l(1)] by (simp add: crossbar_sized_def)
  moreover have "length (queued items ?x' k) \<le> n" if "k < length routes" for k
    using x(4) q [OF that] that by (metis add_leD2 length_append)
  ultimately have "loaded fs items closed cfg routes n p'"
    using p work_ok [OF assms(1) ok, of P i] w x(3) l(2) by (simp add: loaded_def)
  moreover have "sink_bytes s es = sink_bytes s (handled P fs (xb_lanes x ! j) (h j))"
    using h sole_exclusive [OF c(2) assms(2)] by (simp add: conserves_def produced_def)
  then have "sink_bytes s es @ backlog P fs items j p' = backlog P fs items j p"
    using q [OF j] processed_bytes [OF assms(3), of P fs "h j"] x(1) l(2) r lane j
    by (simp add: backlog_def handled_def)
  ultimately show "loaded fs items closed cfg routes n p' \<and>
      sink_bytes s es @ backlog P fs items j p' = backlog P fs items j p" by blast
qed

text \<open>A logging call without a flush, as calls of the pipeline's API.\<close>

lemma log_at_steps:
  assumes "\<not> sev_flush_after sev" "log_at P fs W lgr sev loc now tid message p = (r, es, p')"
  obtains p1 where "pl_step P fs W [] (OpCachedMinPriority (lgr_endpoint lgr)) p = Some ([], p1)"
    "p' = p1 \<or> (\<exists>e. submit P fs W e (sev_force_sync sev) p1 = (r, es, p'))"
proof -
  obtain m c where c: "cached_min_priority fs (pl_routes p) (lgr_endpoint lgr) (pl_cache p) = (m, c)"
    by fastforce
  then have "pl_step P fs W [] (OpCachedMinPriority (lgr_endpoint lgr)) p = Some ([], p\<lparr>pl_cache := c\<rparr>)"
    by simp
  moreover have "p' = p\<lparr>pl_cache := c\<rparr> \<or>
      (\<exists>e. submit P fs W e (sev_force_sync sev) (p\<lparr>pl_cache := c\<rparr>) = (r, es, p'))"
    using assms c by (auto simp: log_at_def enabled_def submit_and_flush_def Let_def
        split: if_splits prod.splits)
  ultimately show thesis by (rule that)
qed

lemma log_at_keeps:
  assumes "workers_ok W items closed" "pipeline_ok fs items closed p" "pl_crossbar p = Some x"
    "crossbar_sized x" "\<not> sev_flush_after sev" "log_at P fs W lgr sev loc now tid message p = (r, es, p')"
  shows "pipeline_ok fs items closed p' \<and>
    (\<exists>x'. pl_crossbar p' = Some x' \<and> crossbar_sized x' \<and> xb_capacity x' = xb_capacity x)"
proof -
  obtain p1 where 1: "pl_step P fs W [] (OpCachedMinPriority (lgr_endpoint lgr)) p = Some ([], p1)"
    "p' = p1 \<or> (\<exists>e. submit P fs W e (sev_force_sync sev) p1 = (r, es, p'))"
    using assms(5,6) by (rule log_at_steps)
  have ok1: "pipeline_ok fs items closed p1"
    using pl_step_ok [OF assms(1,2), of P "[]" "OpCachedMinPriority (lgr_endpoint lgr)"] 1(1) by auto
  have x1: "pl_crossbar p1 = Some x" using 1(1) assms(3) by auto
  have "pipeline_ok fs items closed p'" if "submit P fs W e (sev_force_sync sev) p1 = (r, es, p')" for e
    using pl_step_ok [OF assms(1) ok1, of P "[]" "OpSubmit e (sev_force_sync sev)"] that by simp
  with 1(2) ok1 x1 submit_crossbar [OF x1 assms(4)] assms(4) show ?thesis by metis
qed

lemma log_feeds:
  assumes "workers_ok W items closed" "cfg_async_by_default cfg" "\<not> sev_force_sync sev"
    "sev_priority sev < 600" "100 \<le> sev_priority sev" "\<not> sev_flush_after sev"
    "n < unat (max (cfg_queue_capacity cfg) 1)" "j < length routes" "length routes \<le> 64"
    "e = make_event sev (lgr_endpoint lgr) now tid here message"
  shows "feeds s (backlog P fs items j) (loaded fs items closed cfg routes n)
    (\<lambda>p. call_returns (log P fs W here lgr sev now tid message p))
    (if filters_pass fs (rt_filters (routes ! j)) e then render_with P (rt_renderer (routes ! j)) e else [])
    (loaded fs items closed cfg routes (Suc n))"
  unfolding feeds_def
proof (intro allI impI)
  fix p
  assume p: "loaded fs items closed cfg routes n p"
  then obtain x where ok: "pipeline_ok fs items closed p" and r: "pl_routes p = routes" "pl_cfg p = cfg"
    "pl_running p" "pl_global_filters p = []" and
    x: "pl_crossbar p = Some x" "crossbar_sized x"
      "xb_capacity x = max (cfg_queue_capacity cfg) 1" "\<forall>j < length routes. length (queued items x j) \<le> n"
    by (auto simp: loaded_def)
  have acc: "pl_accepting p" and c: "crossbar_ok items closed x" "xb_running x"
    "map ln_route (xb_lanes x) = routes"
    using ok x(1) r by (auto simp: pipeline_simps)
  have len: "length (xb_lanes x) = length routes" using c(3) by (metis length_map)
  have roomy: "admits items closed True (xb_lanes x ! k) \<and> \<not> blocks items True (xb_lanes x ! k)"
    if k: "k < length routes" for k
  proof -
    have l: "xb_lanes x ! k \<in> set (xb_lanes x)" using k len by simp
    then have "live items closed (xb_lanes x ! k)" using c(1,2) by (simp add: crossbar_ok_def)
    moreover obtain q where q: "ln_queue (xb_lanes x ! k) = Some q" "queued items x k = items (eq_queue q)"
      using l c(1) by (auto simp: crossbar_ok_def elim: lane_okE)
    moreover have "eq_capacity q = xb_capacity x"
      using x(2) l q(1) by (auto simp: crossbar_sized_def sized_def)
    moreover have "length (queued items x k) \<le> n" using x(4) k by simp
    ultimately show ?thesis using assms(7) x(3)
      by (auto simp: admits_def blocks_def live_def lane_shut_def)
  qed
  from log_at_queues [OF assms(1) ok x(1), of sev lgr now tid here message P] r(2,4) assms(2-6,10) acc
  obtain r0 x' ca where l: "log_at P fs W lgr sev here now tid message p =
      (r0, [], p\<lparr>pl_cache := ca, pl_crossbar := Some x'\<rparr>)" "queued_as fs items closed p e r0 x x'"
    by auto
  have ret: "r0 = Returned"
    using l(2) roomy r(1) by (cases r0) (auto simp: queued_as_def)
  have q: "queued items x' k \<in> {queued items x k, queued items x k @ [e]}"
    "filters_pass fs (rt_filters (routes ! k)) e \<Longrightarrow> queued items x' k = queued items x k @ [e]"
    if "k < length routes" for k
    using l(2) that roomy [OF that] ret r(1) assms(9) by (auto simp: queued_as_def)
  let ?p' = "p\<lparr>pl_cache := ca, pl_crossbar := Some x'\<rparr>"
  from log_at_keeps [OF assms(1) ok x(1,2) assms(6) l(1)] have
    k: "pipeline_ok fs items closed ?p'" "crossbar_sized x'" "xb_capacity x' = xb_capacity x" by simp_all
  have "length (queued items x' k) \<le> Suc n" if "k < length routes" for k
    using q(1) [OF that] x(4) that by (metis insert_iff le_SucI length_append_singleton not_less_eq_eq singletonD)
  then have "loaded fs items closed cfg routes (Suc n) ?p'"
    using k r x(3) by (simp add: loaded_def)
  moreover have "backlog P fs items j ?p' = backlog P fs items j p @
      (if filters_pass fs (rt_filters (routes ! j)) e then render_with P (rt_renderer (routes ! j)) e else [])"
    using q [OF assms(8)] x(1) r(1) assms(8) by (auto simp: backlog_def)
  ultimately show "\<exists>es p'. call_returns (log P fs W here lgr sev now tid message p) = Some (es, p') \<and>
      loaded fs items closed cfg routes (Suc n) p' \<and> sink_bytes s es @ backlog P fs items j p' =
      backlog P fs items j p @
      (if filters_pass fs (rt_filters (routes ! j)) e then render_with P (rt_renderer (routes ! j)) e else [])"
    using l(1) ret by (simp add: log_def call_returns_def)
qed

lemma close_feeds:
  assumes "workers_ok W items closed" "sole routes s j" "rt_sink (routes ! j) = Some s"
  shows "feeds s (backlog P fs items j) (loaded fs items closed cfg routes n) (close P fs W sched) []
    (\<lambda>p. \<not> pl_running p \<and> backlog P fs items j p = [])"
  unfolding feeds_def
proof (intro allI impI)
  fix p
  assume p: "loaded fs items closed cfg routes n p"
  then obtain x where ok: "pipeline_ok fs items closed p" and r: "pl_routes p = routes" "pl_running p" and
    x: "pl_crossbar p = Some x" by (auto simp: loaded_def)
  have c: "map ln_route (xb_lanes x) = routes" using ok x r by (auto simp: pipeline_simps)
  have j: "j < length routes" using assms(2) by (simp add: sole_def)
  have "length (xb_lanes x) = length routes" using c by (metis length_map)
  then have lane: "ln_route (xb_lanes x ! j) = routes ! j" using c j by (metis nth_map)
  from stop_pipeline_bytes [OF assms(1) ok x, of P sched True] obtain h es fl p' where
    l: "close P fs W sched p = Some (es @ fl, p')" "reset_pipeline items p p'"
      "produced P fs (xb_lanes x) h es" "list_all quiet fl" "h j = queued items x j"
    using r j by (auto simp: stop_pipeline_def)
  have "sink_bytes s es = sink_bytes s (handled P fs (xb_lanes x ! j) (h j))"
    using l(3) sole_exclusive [OF c assms(2)] by (simp add: produced_def)
  then have "sink_bytes s (es @ fl) = backlog P fs items j p"
    using l(4,5) processed_bytes [OF assms(3), of P fs "queued items x j"] x r lane j quiet_bytes [of fl s]
    by (simp add: backlog_def handled_def)
  moreover have "\<not> pl_running p' \<and> backlog P fs items j p' = []"
    using l(2) r j by (auto simp: reset_pipeline_def backlog_def)
  ultimately show "\<exists>es p'. close P fs W sched p = Some (es, p') \<and>
      (\<not> pl_running p' \<and> backlog P fs items j p' = []) \<and>
      sink_bytes s es @ backlog P fs items j p' = backlog P fs items j p @ []"
    using l(1) by simp
qed

subsection \<open>What the program prints\<close>

lemma routing_routes:
  "rt_sink console_route = Some 0" "rt_sink file_route = Some 1"
  "rt_renderer console_route = Some (PatternRenderer routing_pattern)"
  "rt_renderer file_route = Some (JsonRenderer default_json_renderer)"
  "filters_pass routing_filters (rt_filters console_route) e \<longleftrightarrow> 300 \<le> ev_severity_priority e"
  "filters_pass routing_filters (rt_filters file_route) e \<longleftrightarrow> 100 \<le> ev_severity_priority e"
  by (simp_all add: console_route_def file_route_def route_builder_defs routing_filters_def at_least_def
      route_simps)

lemma routing_soles: "sole [console_route, file_route] 0 0" "sole [console_route, file_route] 1 1"
  by (simp_all add: sole_def less_Suc_eq routing_routes)

definition routing_event :: "source_location \<Rightarrow> nat \<Rightarrow> builtin \<Rightarrow> int \<Rightarrow> string \<Rightarrow> event" where
  "routing_event here tid b now m = make_event (builtin_severity b) ''example.routing'' now tid here m"

lemma routing_log_feeds:
  assumes "workers_ok W items closed" "b \<noteq> Fatal" "n < 3" "j < 2"
  shows "feeds s (backlog P routing_filters items j)
    (loaded routing_filters items closed (asynchronous 4096) [console_route, file_route] n)
    (\<lambda>p. call_returns (log_builtin P routing_filters W here \<lparr>lgr_endpoint = ''example.routing''\<rparr> b t tid m p))
    (if j = 0 \<and> sev_priority (builtin_severity b) < 300 then []
     else render_with P (rt_renderer ([console_route, file_route] ! j)) (routing_event here tid b t m))
    (loaded routing_filters items closed (asynchronous 4096) [console_route, file_route] (Suc n))"
proof -
  have sev: "\<not> sev_force_sync (builtin_severity b)" "sev_priority (builtin_severity b) < 600"
    "100 \<le> sev_priority (builtin_severity b)" "\<not> sev_flush_after (builtin_severity b)"
    using assms(2) by (cases b; simp add: severity_defs)+
  have cfg: "cfg_async_by_default (asynchronous 4096)"
    "n < unat (max (cfg_queue_capacity (asynchronous 4096)) 1)"
    using assms(3) by (simp_all add: asynchronous_def config_builder_defs max_def word_le_nat_alt)
  let ?e = "make_event (builtin_severity b) (lgr_endpoint \<lparr>lgr_endpoint = ''example.routing''\<rparr>) t tid here m"
  have j: "j = 0 \<or> j = 1" using assms(4) by auto
  have pass: "filters_pass routing_filters (rt_filters ([console_route, file_route] ! j)) ?e \<longleftrightarrow>
      \<not> (j = 0 \<and> sev_priority (builtin_severity b) < 300)"
    using j sev(3) by (auto simp: routing_routes not_less)
  from log_feeds [OF assms(1) cfg(1) sev cfg(2), of j "[console_route, file_route]" ?e
      "\<lparr>lgr_endpoint = ''example.routing''\<rparr>" t tid here m s P routing_filters] assms(4) pass
  show ?thesis unfolding log_builtin_def routing_event_def by (auto split: if_splits)
qed

lemma routing_feeds:
  assumes "workers_ok W items closed" "j < 2"
  shows "feeds j (backlog P routing_filters items j) (resting routing_filters items closed default_config [])
    (routing_main P W sched here now tid sched')
    (if j = 0 then
       render_with P (Some (PatternRenderer routing_pattern))
         (routing_event here tid Info (now 1) ''info goes to console and file'') @
       render_with P (Some (PatternRenderer routing_pattern))
         (routing_event here tid Error (now 2) ''error goes to console and file'')
     else
       json_render P default_json_renderer
         (routing_event here tid Debug (now 0) ''debug goes only to the file route'') @
       json_render P default_json_renderer
         (routing_event here tid Info (now 1) ''info goes to console and file'') @
       json_render P default_json_renderer
         (routing_event here tid Error (now 2) ''error goes to console and file''))
    (\<lambda>p. \<not> pl_running p \<and> backlog P routing_filters items j p = [])"
proof -
  let ?routes = "[console_route, file_route]" and ?B = "backlog P routing_filters items j"
  let ?rest = "resting routing_filters items closed"
  have s: "sole ?routes j j" "rt_sink (?routes ! j) = Some j"
    using assms(2) routing_soles routing_routes(1,2) by (auto simp: less_2_cases_iff)
  have conf: "feeds j ?B (?rest default_config []) (configure P routing_filters W [] (asynchronous 4096)) []
      (?rest (asynchronous 4096) [])"
    by (rule resting_step [where oper = "OpConfigure (asynchronous 4096)"])
      (rule configure_prints [OF assms(1)], simp)
  have add: "feeds j ?B (?rest (asynchronous 4096) rs) (add_route P routing_filters W [] r) []
      (?rest (asynchronous 4096) (rs @ [r]))" for r rs
    by (rule resting_step [where oper = "OpAddRoute r"]) (rule add_route_prints [OF assms(1)], simp)
  have "feeds j ?B (?rest (asynchronous 4096) []) (add_route P routing_filters W [] console_route) []
      (?rest (asynchronous 4096) [console_route])"
    "feeds j ?B (?rest (asynchronous 4096) [console_route]) (add_route P routing_filters W [] file_route) []
      (?rest (asynchronous 4096) ?routes)"
    using add [of "[]" console_route] add [of "[console_route]" file_route] by simp_all
  note prep = conf this start_feeds
  note seq0 = perform_Cons_feeds [OF resting_undisturbed, where t = "[]"]
  note seq = perform_Cons_feeds [OF loaded_undisturbed [OF assms(1) s]]
  note call = routing_log_feeds [OF assms(1) _ _ assms(2)]
  have "feeds j ?B (?rest default_config []) (routing_main P W sched here now tid sched')
    ([] @ [] @ [] @ [] @
     (if j = 0 \<and> sev_priority (builtin_severity Debug) < 300 then []
      else render_with P (rt_renderer (?routes ! j))
        (routing_event here tid Debug (now 0) ''debug goes only to the file route'')) @
     (if j = 0 \<and> sev_priority (builtin_severity Info) < 300 then []
      else render_with P (rt_renderer (?routes ! j))
        (routing_event here tid Info (now 1) ''info goes to console and file'')) @
     (if j = 0 \<and> sev_priority (builtin_severity Error) < 300 then []
      else render_with P (rt_renderer (?routes ! j))
        (routing_event here tid Error (now 2) ''error goes to console and file'')) @ [] @ [])
    (\<lambda>p. \<not> pl_running p \<and> ?B p = [])"
    unfolding routing_main_def Let_def
    by (rule seq0, rule prep(1), rule seq0, rule prep(2), rule seq0, rule prep(3),
        rule seq0, rule prep(4), rule seq, rule call, simp, simp, rule seq, rule call, simp, simp,
        rule seq, rule call, simp, simp, rule seq, rule close_feeds [OF assms(1) s], rule perform_Nil_feeds)
  then show ?thesis using assms(2) routing_routes(3,4)
    by (auto simp: less_2_cases_iff render_with_def)
qed

lemma routing_pattern_renders:
  assumes "CHR ''{'' \<notin> set (ev_severity_name e)" "CHR ''{'' \<notin> set (ev_message e)"
  shows "render_with P (Some (PatternRenderer routing_pattern)) e =
    ''['' @ ev_severity_name e @ ''] '' @ ev_message e @ [newline]"
proof -
  let ?segs = "[Lit ''['', Tok TSeverity, Lit ''] '', Tok TMessage, Lit [newline]]"
  have "brace_free (token_value P e) ?segs" using assms by (simp add: brace_free_def)
  from pattern_expands [OF this] show ?thesis
    by (simp add: render_with_def routing_pattern_def terminate_line_def)
qed



end
