(* ===== verification/Overlap.thy ===== *)
theory Overlap
  imports Producers
begin

section \<open>Lifecycle calls that overlap logging calls\<close>

text \<open>
  The pipeline once more, at a finer grain and with shared objects as objects: crossbars and lanes
  are behind \<open>std::shared_ptr\<close>, so a call of \<open>Pipeline::submit\<close> goes on with the crossbar and the lanes it
  has copied pointers of, while another thread closes the pipeline or changes its routes. A call is
  a sequence of actions: look up the mask and apply the global filters, copy the pointer to the
  crossbar (under \<open>worker_m\<close>), read \<open>accepting\<close>, copy the pointers to the lanes (under \<open>m_\<close>), then one
  lane after the other. \<open>close\<close>, \<open>request_stop\<close> and the rebuilding of lanes are sequences too. Actions of any
  number of calling threads, of the workers and of one thread that makes lifecycle calls
  interleave freely. What one queue operation does is atomic here; \<open>Queue_Threads\<close> takes it apart.
  A crossbar that was replaced is destroyed when the last call lets go of it; its lanes have no workers
  then, and nobody can see it any more, so its destructor is not an action.
\<close>

subsection \<open>Objects and threads\<close>

record crossbar_object =
  xo_capacity :: size_t
  xo_running :: bool
  xo_lanes :: "nat list" \<comment> \<open>\<open>lanes_\<close>: addresses\<close>

datatype call_at =
    Selected event u64
  | Loaded event u64 nat
  | Checked event u64 nat
  | Fanning event u64 "nat list" nat
  | Waiting event u64 "nat list" nat nat \<comment> \<open>in \<open>push_blocking\<close> of that lane's queue, and which one\<close>

datatype purpose = ForClose | ForStop | ForRoutes

datatype admin =
    Ready
  | Configuring \<comment> \<open>routes changed, \<open>worker_m\<close> not yet taken\<close>
  | Closing \<comment> \<open>\<open>accepting\<close> cleared, \<open>worker_m\<close> not yet taken\<close>
  | Stopping \<comment> \<open>the same in \<open>request_stop\<close>\<close>
  | Signalling "nat list" "nat list" purpose \<comment> \<open>\<open>stop_lanes_\<close>: lanes still to close, all lanes\<close>
  | Joining "nat list" purpose
  | Replacing "nat list" \<comment> \<open>new queues for the lanes of a crossbar that did not drain\<close>
  | Flushing
  | Renewing

record 'q world =
  wd_cfg :: config
  wd_global_filters :: "filter_ptr list"
  wd_routes :: "route list"
  wd_cache :: route_cache
  wd_running :: bool
  wd_accepting :: bool
  wd_crossbar :: nat \<comment> \<open>address of the pipeline's crossbar\<close>
  wd_crossbars :: "crossbar_object list"
  wd_lanes :: "'q lane list" \<comment> \<open>every lane object ever made\<close>
  wd_queue_no :: "nat \<Rightarrow> nat" \<comment> \<open>of a lane: which of its queues \<open>queue\<close> points to\<close>
  wd_calls :: "nat \<Rightarrow> call_at option"
  wd_admin :: admin

definition current :: "'q world \<Rightarrow> crossbar_object" where
  "current w = wd_crossbars w ! wd_crossbar w"

definition set_current :: "crossbar_object \<Rightarrow> 'q world \<Rightarrow> 'q world" where
  "set_current x w = w\<lparr>wd_crossbars := (wd_crossbars w)[wd_crossbar w := x]\<rparr>"

fun holds_worker_m :: "admin \<Rightarrow> bool" where
  "holds_worker_m (Signalling todo ls p) = True"
| "holds_worker_m (Joining ls p) = True"
| "holds_worker_m (Replacing ls) = True"
| "holds_worker_m _ = False"

definition initial_world :: "'q world" where
  "initial_world =
     \<lparr>wd_cfg = default_config, wd_global_filters = [], wd_routes = [], wd_cache = initial_cache,
      wd_running = False, wd_accepting = True, wd_crossbar = 0,
      wd_crossbars = [\<lparr>xo_capacity = max (cfg_queue_capacity default_config) 1, xo_running = False,
                       xo_lanes = []\<rparr>],
      wd_lanes = [], wd_queue_no = (\<lambda>_. 0), wd_calls = (\<lambda>_. None), wd_admin = Ready\<rparr>"

text \<open>What an action shows: output, by whom, and what calls did at lanes.\<close>

datatype writer = ByWorker nat | ByCaller nat | ByAdmin

datatype answer = Took nat event nat | Declined nat event nat

type_synonym shown = "(writer \<times> effect list) list \<times> answer list"

subsection \<open>Calls\<close>

definition set_call :: "nat \<Rightarrow> call_at option \<Rightarrow> 'q world \<Rightarrow> 'q world" where
  "set_call t c w = w\<lparr>wd_calls := (wd_calls w)(t := c)\<rparr>"

text \<open>\<open>submit\<close> up to the choice of the crossbar.\<close>

definition call_begins ::
  "platform \<Rightarrow> filter_store \<Rightarrow> nat \<Rightarrow> event \<Rightarrow> bool \<Rightarrow> 'q world \<Rightarrow> shown \<times> 'q world" where
  "call_begins P fs t e force_sync w =
     (case cached_route_mask fs (wd_routes w) (ev_endpoint e) (wd_cache w) of (ce, c) \<Rightarrow>
        let w1 = w\<lparr>wd_cache := c\<rparr>
        in if ce_route_mask ce = 0 then
             (([(ByCaller t, if ev_severity_priority e \<ge> sev_priority error_severity
                 then emergency_fallback_write (fallback_text P e) else [])], []), w1)
           else if \<not> filters_pass fs (wd_global_filters w1) e then (([], []), w1)
           else if \<not> async_mode (wd_cfg w1) e force_sync then
             (([(ByCaller t, dispatch_loop P fs e (ce_route_mask ce) 0 (wd_routes w1))], []), w1)
           else (([], []), set_call t (Some (Selected e (ce_route_mask ce))) w1))"

text \<open>
  The next lane: \<open>strategy->submit\<close> or \<open>try_push\<close>; a full lane that blocks keeps the call in there, with
  a plain reference to the queue the lane pointed to. If the lane points to another queue by then, the
  call's one has been destroyed, the lane's pointer being the only owner, and the call has no step.
\<close>

definition call_at_lane ::
  "'q workers \<Rightarrow> nat \<Rightarrow> event \<Rightarrow> u64 \<Rightarrow> nat list \<Rightarrow> nat \<Rightarrow> 'q world \<Rightarrow> shown \<times> 'q world" where
  "call_at_lane W t e m ls i w =
     (let go = set_call t (Some (Fanning e m ls (Suc i)))
      in if \<not> mask_has m i then (([], []), go w)
         else let a = ls ! i; l = wd_lanes w ! a
         in case ln_queue l of
              None \<Rightarrow> (([], []), go w)
            | Some q \<Rightarrow>
                (case offer W e (wd_accepting w) (ln_route l) q of (outcome, q') \<Rightarrow>
                   let w1 = w\<lparr>wd_lanes := (wd_lanes w)[a := l\<lparr>ln_queue := Some q'\<rparr>]\<rparr>
                   in case outcome of
                        Waits \<Rightarrow> (([], []), set_call t (Some (Waiting e m ls i (wd_queue_no w a))) w1)
                      | Pushed \<Rightarrow> (([], [Took t e a]), go w1)
                      | Refused \<Rightarrow> (([], [Declined t e a]), go w1)))"

primrec call_advances ::
  "platform \<Rightarrow> filter_store \<Rightarrow> 'q workers \<Rightarrow> nat \<Rightarrow> call_at \<Rightarrow> 'q world \<Rightarrow> (shown \<times> 'q world) option" where
  "call_advances P fs W t (Selected e m) w =
     (if holds_worker_m (wd_admin w) then None
      else Some (([], []), set_call t (Some (Loaded e m (wd_crossbar w))) w))"
| "call_advances P fs W t (Loaded e m c) w =
     Some (if \<not> wd_accepting w
           then (([(ByCaller t, dispatch_loop P fs e m 0 (wd_routes w))], []), set_call t None w)
           else (([], []), set_call t (Some (Checked e m c)) w))"
| "call_advances P fs W t (Checked e m c) w =
     Some (([], []), set_call t (Some (Fanning e m (xo_lanes (wd_crossbars w ! c)) 0)) w)"
| "call_advances P fs W t (Fanning e m ls i) w =
     Some (if i < length ls \<and> i < 64 then call_at_lane W t e m ls i w else (([], []), set_call t None w))"
| "call_advances P fs W t (Waiting e m ls i n) w =
     (if n \<noteq> wd_queue_no w (ls ! i) then None else Some (call_at_lane W t e m ls i w))"

definition dangling :: "'q world \<Rightarrow> nat \<Rightarrow> bool" where
  "dangling w t = (case wd_calls w t of
     Some (Waiting e m ls i n) \<Rightarrow> n \<noteq> wd_queue_no w (ls ! i) | _ \<Rightarrow> False)"

subsection \<open>Lifecycle calls\<close>

text \<open>New lanes for the pipeline's routes, as new objects of the crossbar.\<close>

definition new_lanes :: "'q workers \<Rightarrow> bool \<Rightarrow> crossbar_object \<Rightarrow> 'q world \<Rightarrow> crossbar_object \<times> 'q world" where
  "new_lanes W restart x w =
     (let capacity = max (cfg_queue_capacity (wd_cfg w)) 1;
          made = map (new_lane W capacity) (wd_routes w);
          n = length (wd_lanes w)
      in (x\<lparr>xo_capacity := capacity, xo_lanes := [n ..< n + length made], xo_running := restart \<or> xo_running x\<rparr>,
          w\<lparr>wd_lanes := wd_lanes w @ (if restart then map launch made else made)\<rparr>))"

text \<open>\<open>SinkCrossbar::configure\<close> after \<open>stop_lanes_\<close>, and a new crossbar configured at once.\<close>

definition rebuild :: "'q workers \<Rightarrow> bool \<Rightarrow> 'q world \<Rightarrow> 'q world" where
  "rebuild W restart w = (case new_lanes W restart (current w) w of (x, w1) \<Rightarrow> set_current x w1)"

definition renew :: "'q workers \<Rightarrow> 'q world \<Rightarrow> 'q world" where
  "renew W w =
     (case new_lanes W False \<lparr>xo_capacity = 1, xo_running = False, xo_lanes = []\<rparr> w of (x, w1) \<Rightarrow>
        w1\<lparr>wd_crossbar := length (wd_crossbars w), wd_crossbars := wd_crossbars w @ [x]\<rparr>)"

text \<open>
  \<open>stop_lanes_\<close> begins, and tells all lanes whether they are to drain; it returns at once for a stopped
  crossbar without lanes.
\<close>

definition each_lane :: "('q lane \<Rightarrow> 'q lane) \<Rightarrow> nat list \<Rightarrow> 'q lane list \<Rightarrow> 'q lane list" where
  "each_lane f ls lanes = map (\<lambda>(a, l). if a \<in> set ls then f l else l) (enumerate 0 lanes)"

definition stop_begins :: "purpose \<Rightarrow> 'q world \<Rightarrow> 'q world" where
  "stop_begins p w =
     (let x = current w
      in if \<not> xo_running x \<and> xo_lanes x = [] then w\<lparr>wd_admin := Joining [] p\<rparr>
         else (set_current (x\<lparr>xo_running := False\<rparr>) w)
           \<lparr>wd_lanes := each_lane (\<lambda>l. l\<lparr>ln_drain := (p \<noteq> ForStop)\<rparr>) (xo_lanes x) (wd_lanes w),
            wd_admin := Signalling (xo_lanes x) (xo_lanes x) p\<rparr>)"

definition set_lane :: "nat \<Rightarrow> 'q lane \<Rightarrow> 'q world \<Rightarrow> 'q world" where
  "set_lane a l w = w\<lparr>wd_lanes := (wd_lanes w)[a := l]\<rparr>"

definition flush_object :: "'q world \<Rightarrow> effect list" where
  "flush_object w = concat (map (\<lambda>a. case rt_sink (ln_route (wd_lanes w ! a)) of
     Some s \<Rightarrow> [SinkFlush s] | None \<Rightarrow> []) (xo_lanes (current w)))"

fun admin_advances :: "'q workers \<Rightarrow> admin \<Rightarrow> 'q world \<Rightarrow> (shown \<times> 'q world) option" where
  "admin_advances W Ready w = None"
| "admin_advances W Configuring w =
     Some (([], []), if xo_running (current w) then stop_begins ForRoutes w
                     else (rebuild W False w)\<lparr>wd_admin := Ready\<rparr>)"
| "admin_advances W Closing w = Some (([], []), stop_begins ForClose (w\<lparr>wd_running := False\<rparr>))"
| "admin_advances W Stopping w = Some (([], []), stop_begins ForStop (w\<lparr>wd_running := False\<rparr>))"
| "admin_advances W (Signalling (a # todo) ls p) w =
     Some (([], []), (set_lane a (signal_stop W (p \<noteq> ForStop) (wd_lanes w ! a)) w)\<lparr>wd_admin := Signalling todo ls p\<rparr>)"
| "admin_advances W (Signalling [] ls p) w = Some (([], []), w\<lparr>wd_admin := Joining ls p\<rparr>)"
| "admin_advances W (Joining (a # todo) p) w =
     (let l = wd_lanes w ! a
      in if ln_worker l = NoThread then Some (([], []), w\<lparr>wd_admin := Joining todo p\<rparr>)
         else if ln_worker l = Finished
         then Some (([], []), (set_lane a (l\<lparr>ln_worker := NoThread\<rparr>) w)\<lparr>wd_admin := Joining todo p\<rparr>)
         else None)"
| "admin_advances W (Joining [] ForClose) w = Some (([], []), w\<lparr>wd_admin := Flushing\<rparr>)"
| "admin_advances W (Joining [] ForStop) w = Some (([], []), w\<lparr>wd_admin := Replacing (xo_lanes (current w))\<rparr>)"
| "admin_advances W (Joining [] ForRoutes) w = Some (([], []), (rebuild W True w)\<lparr>wd_admin := Ready\<rparr>)"
| "admin_advances W (Replacing (a # todo)) w =
     Some (([], []), (set_lane a (fresh_queue W (xo_capacity (current w)) (wd_lanes w ! a)) w)
       \<lparr>wd_queue_no := (wd_queue_no w)(a := Suc (wd_queue_no w a)), wd_admin := Replacing todo\<rparr>)"
| "admin_advances W (Replacing []) w = Some (([], []), w\<lparr>wd_admin := Flushing\<rparr>)"
| "admin_advances W Flushing w = Some (([(ByAdmin, flush_object w)], []), w\<lparr>wd_admin := Renewing\<rparr>)"
| "admin_advances W Renewing w = Some (([], []), (renew W w)\<lparr>wd_admin := Ready\<rparr>)"

definition starts :: "'q workers \<Rightarrow> 'q world \<Rightarrow> 'q world" where
  "starts W w =
     (let w1 = w\<lparr>wd_accepting := True\<rparr>; x = current w1
      in if wd_running w1 then w1
         else if xo_running x then w1\<lparr>wd_running := True\<rparr>
         else (set_current (x\<lparr>xo_running := True\<rparr>) w1)
           \<lparr>wd_running := True,
            wd_lanes := each_lane (start_lane W (xo_capacity x)) (xo_lanes x) (wd_lanes w1)\<rparr>)"

subsection \<open>Actions\<close>

datatype ov_action =
    OvCall nat event bool
  | OvNext nat
  | OvWork nat
  | OvConfigure config
  | OvGlobalFilter filter_ptr
  | OvClearGlobalFilters
  | OvFlush nat
  | OvAddRoute route
  | OvClearRoutes
  | OvStart
  | OvClose
  | OvRequestStop
  | OvAdmin

definition change_routes :: "route list \<Rightarrow> 'q world \<Rightarrow> 'q world" where
  "change_routes rs w = w\<lparr>wd_routes := rs, wd_cache := invalidate_cache (wd_cache w), wd_admin := Configuring\<rparr>"

fun ov_step ::
  "platform \<Rightarrow> filter_store \<Rightarrow> 'q workers \<Rightarrow> ov_action \<Rightarrow> 'q world \<Rightarrow> (shown \<times> 'q world) option" where
  "ov_step P fs W (OvCall t e force_sync) w =
     (if wd_calls w t \<noteq> None then None else Some (call_begins P fs t e force_sync w))"
| "ov_step P fs W (OvNext t) w =
     (case wd_calls w t of None \<Rightarrow> None | Some c \<Rightarrow> call_advances P fs W t c w)"
| "ov_step P fs W (OvWork a) w =
     (if \<not> a < length (wd_lanes w) then None
      else case worker_step P fs W (wd_lanes w ! a) of (es, l) \<Rightarrow> Some (([(ByWorker a, es)], []), set_lane a l w))"
| "ov_step P fs W (OvGlobalFilter f) w =
     Some (([], []), w\<lparr>wd_global_filters := wd_global_filters w @ [f]\<rparr>)"
| "ov_step P fs W OvClearGlobalFilters w = Some (([], []), w\<lparr>wd_global_filters := []\<rparr>)"
| "ov_step P fs W (OvFlush t) w =
     (if holds_worker_m (wd_admin w) then None else Some (([(ByCaller t, flush_object w)], []), w))"
| "ov_step P fs W OvAdmin w = admin_advances W (wd_admin w) w"
| "ov_step P fs W (OvConfigure cfg) w =
     (if wd_admin w \<noteq> Ready then None
      else let w1 = w\<lparr>wd_cfg := cfg\<rparr>
      in Some (([], []), if wd_running w1 then w1 else (renew W w1)\<lparr>wd_accepting := True\<rparr>))"
| "ov_step P fs W (OvAddRoute r) w =
     (if wd_admin w \<noteq> Ready then None else Some (([], []), change_routes (wd_routes w @ [r]) w))"
| "ov_step P fs W OvClearRoutes w =
     (if wd_admin w \<noteq> Ready then None else Some (([], []), change_routes [] w))"
| "ov_step P fs W OvStart w = (if wd_admin w \<noteq> Ready then None else Some (([], []), starts W w))"
| "ov_step P fs W OvClose w =
     (if wd_admin w \<noteq> Ready then None
      else Some (([], []), w\<lparr>wd_accepting := False, wd_admin := Closing\<rparr>))"
| "ov_step P fs W OvRequestStop w =
     (if wd_admin w \<noteq> Ready then None
      else Some (([], []), w\<lparr>wd_accepting := False, wd_admin := Stopping\<rparr>))"

fun ov_run ::
  "platform \<Rightarrow> filter_store \<Rightarrow> 'q workers \<Rightarrow> ov_action list \<Rightarrow> 'q world \<Rightarrow> (shown \<times> 'q world) option" where
  "ov_run P fs W [] w = Some (([], []), w)"
| "ov_run P fs W (a # as) w =
     (case ov_step P fs W a w of
        None \<Rightarrow> None
      | Some ((os, ns), w1) \<Rightarrow>
          (case ov_run P fs W as w1 of
             None \<Rightarrow> None
           | Some ((os', ns'), w2) \<Rightarrow> Some ((os @ os', ns @ ns'), w2)))"

subsection \<open>The life of a lane\<close>

text \<open>
  A lane is made without a worker, gets one, is closed and told to stop, drains if it is to, and its
  worker is joined; with a worker it is closed exactly when it is told to stop, and once the worker of
  a draining lane is gone for good nothing is queued. A lane without a worker that is not to drain is
  dropped: what is in its queue, or gets there, is lost.
\<close>

definition lane_life :: "('q \<Rightarrow> event list) \<Rightarrow> ('q \<Rightarrow> bool) \<Rightarrow> 'q lane \<Rightarrow> bool" where
  "lane_life items closed l \<longleftrightarrow> lane_ok items l \<and>
     (case ln_worker l of
        NoThread \<Rightarrow> ln_drain l \<and> ln_stop l \<longrightarrow> lane_shut closed l \<and> lane_items items l = []
      | Popping \<Rightarrow> lane_shut closed l = ln_stop l
      | Draining \<Rightarrow> lane_shut closed l \<and> ln_stop l \<and> ln_drain l
      | Finished \<Rightarrow> lane_shut closed l \<and> ln_stop l \<and> (ln_drain l \<longrightarrow> lane_items items l = []))"

definition unused :: "('q \<Rightarrow> bool) \<Rightarrow> 'q lane \<Rightarrow> bool" where
  "unused closed l \<longleftrightarrow> ln_worker l = NoThread \<and> \<not> lane_shut closed l \<and> \<not> ln_stop l \<and> ln_drain l"

definition serving :: "('q \<Rightarrow> bool) \<Rightarrow> 'q lane \<Rightarrow> bool" where
  "serving closed l \<longleftrightarrow> ln_worker l = Popping \<and> \<not> lane_shut closed l \<and> \<not> ln_stop l"

definition launched :: "'q lane \<Rightarrow> bool" where
  "launched l \<longleftrightarrow> ln_worker l \<noteq> NoThread \<or> ln_stop l"

definition dropped :: "'q lane \<Rightarrow> bool" where
  "dropped l \<longleftrightarrow> ln_worker l = NoThread \<and> \<not> ln_drain l"

text \<open>Lanes keep their routes, and stay launched and dropped.\<close>

definition lane_grows :: "'q lane \<Rightarrow> 'q lane \<Rightarrow> bool" where
  "lane_grows l l' \<longleftrightarrow> ln_route l' = ln_route l \<and> (launched l \<longrightarrow> launched l') \<and> (dropped l \<longrightarrow> dropped l')"

lemma lane_grows_refl [simp]: "lane_grows l l"
  by (simp add: lane_grows_def)

lemma lane_life_offer:
  assumes "workers_ok W items closed" "lane_life items closed l" "ln_queue l = Some q"
    "offer W e accepting (ln_route l) q = (r, q')" "l' = l\<lparr>ln_queue := Some q'\<rparr>"
  shows "lane_life items closed l'" "lane_items items l' = lane_items items l @ (if r = Pushed then [e] else [])"
    "lane_shut closed l' = lane_shut closed l" "r = Pushed \<Longrightarrow> \<not> lane_shut closed l"
proof -
  have q: "queue_inv items q" using assms(2,3) by (auto simp: lane_life_def lane_ok_def)
  note s = offer_spec [OF assms(1) q assms(4)]
  show items: "lane_items items l' = lane_items items l @ (if r = Pushed then [e] else [])"
    using s assms(3,5) by (simp add: lane_items_def)
  show shut: "lane_shut closed l' = lane_shut closed l" "r = Pushed \<Longrightarrow> \<not> lane_shut closed l"
    using s assms(3,5) by (simp_all add: lane_shut_def)
  have "lane_ok items l'" using s assms(5) by (simp add: lane_ok_def)
  with items shut assms(2,5) show "lane_life items closed l'"
    by (auto simp: lane_life_def split: worker.splits if_splits)
qed

lemma lane_life_work:
  assumes "workers_ok W items closed" "lane_life items closed l" "worker_step P fs W l = (es, l')"
  shows "\<exists>h. lane_items items l = h @ lane_items items l' \<and> es = handled P fs l h \<and>
    lane_life items closed l' \<and> ln_route l' = ln_route l \<and> ln_stop l' = ln_stop l \<and>
    ln_drain l' = ln_drain l \<and> (ln_worker l = NoThread \<longrightarrow> h = []) \<and>
    lane_shut closed l' = lane_shut closed l \<and>
    (ln_worker l' = NoThread \<longleftrightarrow> ln_worker l = NoThread) \<and>
    (serving closed l \<longrightarrow> serving closed l') \<and>
    (lane_shut closed l \<and> ln_worker l \<in> {Popping, Draining} \<longrightarrow> rank items l' < rank items l)"
proof -
  have ok: "lane_ok items l" using assms(2) by (simp add: lane_life_def)
  from worker_step_spec [OF assms(1) ok assms(3)] obtain h where
    h: "lane_items items l = h @ lane_items items l'" "es = handled P fs l h" "lane_ok items l'"
      "same_lane l l'" "lane_shut closed l' = lane_shut closed l"
      "ln_worker l = Popping \<longrightarrow> ln_worker l' \<noteq> Popping \<longrightarrow> lane_shut closed l \<or> ln_stop l"
      "stopping items closed l \<longrightarrow> stopping items closed l' \<and>
        (ln_worker l \<in> {Popping, Draining} \<longrightarrow> rank items l' < rank items l)"
    by blast
  have same: "ln_route l' = ln_route l" "ln_stop l' = ln_stop l" "ln_drain l' = ln_drain l"
    "ln_worker l' = NoThread \<longleftrightarrow> ln_worker l = NoThread"
    using h(4) by (simp_all add: same_lane_def)
  have stp: "stopping items closed l" if "lane_shut closed l"
    using that assms(2) by (auto simp: stopping_def lane_life_def)
  have idle: "l' = l" if "ln_worker l \<in> {NoThread, Finished}"
    using that assms(3) by (auto simp: worker_step_def)
  have entered: "ln_worker l = Draining \<or> ln_drain l" if "ln_worker l' = Draining"
    using that assms(3) by (cases "ln_worker l")
      (auto simp: worker_step_def Let_def split: option.splits prod.splits pop_result.splits if_splits)
  have drain: "ln_worker l' = Draining \<Longrightarrow> lane_shut closed l \<and> ln_stop l"
    "ln_worker l' = Finished \<Longrightarrow> lane_shut closed l \<and> ln_stop l"
    "ln_worker l' = Popping \<Longrightarrow> lane_shut closed l = ln_stop l"
    using h(6) assms(2) idle by (cases "ln_worker l"; auto simp: lane_life_def)+
  have life: "lane_life items closed l'"
  proof (cases "ln_worker l'")
    case Finished
    then have "lane_shut closed l \<and> ln_stop l" by (rule drain)
    moreover from this have "stopping items closed l'" using h(7) stp by blast
    ultimately show ?thesis using h(3,5) same Finished assms(2)
      by (simp add: lane_life_def stopping_def)
  next
    case Draining
    then have "lane_shut closed l \<and> ln_stop l" "ln_worker l = Draining \<or> ln_drain l"
      by (rule drain, rule entered)
    then have "ln_drain l" using assms(2) by (auto simp: lane_life_def)
    with \<open>lane_shut closed l \<and> ln_stop l\<close> h(3,5) same Draining show ?thesis by (simp add: lane_life_def)
  qed (use h(1,3,5) same drain assms(2) idle in \<open>auto simp: lane_life_def\<close>)
  have "serving closed l \<longrightarrow> serving closed l'"
    using h(5,6) same by (auto simp: serving_def)
  have "ln_worker l = NoThread \<longrightarrow> h = []" using idle h(1) by auto
  with h life same stp \<open>serving closed l \<longrightarrow> serving closed l'\<close> show ?thesis by blast
qed

lemma lane_life_signal:
  assumes "workers_ok W items closed" "lane_life items closed l" "ln_drain l = drain"
  shows "lane_life items closed (signal_stop W drain l)"
    "lane_items items (signal_stop W drain l) = lane_items items l" "lane_shut closed (signal_stop W drain l)"
    "ln_worker (signal_stop W drain l) = ln_worker l" "ln_drain (signal_stop W drain l) = drain"
    "lane_grows l (signal_stop W drain l)"
proof -
  obtain q where q: "ln_queue l = Some q" "queue_inv items q"
    using assms(2) by (auto simp: lane_life_def lane_ok_def)
  note c = close_queue_spec [OF assms(1) q(2)]
  show i: "lane_items items (signal_stop W drain l) = lane_items items l" "lane_shut closed (signal_stop W drain l)"
    "ln_worker (signal_stop W drain l) = ln_worker l" and d: "ln_drain (signal_stop W drain l) = drain"
    using c q(1) by (simp_all add: signal_stop_def lane_simps)
  have "lane_ok items (signal_stop W drain l)" using c q(1) by (simp add: signal_stop_def lane_ok_def)
  moreover have s: "ln_stop (signal_stop W drain l) = (ln_worker l \<noteq> NoThread \<or> ln_stop l)"
    by (simp_all add: signal_stop_def joinable_def)
  ultimately show "lane_life items closed (signal_stop W drain l)"
    using assms(2,3) i d by (cases "ln_worker l") (auto simp: lane_life_def)
  show "lane_grows l (signal_stop W drain l)"
    using i d s assms(3) by (simp add: lane_grows_def launched_def dropped_def) (simp add: signal_stop_def)
qed

lemma lane_life_join:
  assumes "lane_life items closed l" "ln_worker l = Finished"
  shows "lane_life items closed (l\<lparr>ln_worker := NoThread\<rparr>)" "lane_grows l (l\<lparr>ln_worker := NoThread\<rparr>)"
  using assms by (simp_all add: lane_life_def lane_simps lane_grows_def launched_def dropped_def)

lemma lane_life_drain:
  assumes "lane_life items closed l" "serving closed l \<or> unused closed l" "l' = l\<lparr>ln_drain := d\<rparr>"
  shows "lane_life items closed l'" "lane_items items l' = lane_items items l" "lane_grows l l'" "ln_drain l' = d"
  using assms
  by (auto simp: lane_life_def lane_simps lane_grows_def launched_def dropped_def serving_def unused_def)

lemma lane_life_fresh:
  assumes "workers_ok W items closed" "dropped l"
  shows "lane_life items closed (fresh_queue W c l)" "lane_items items (fresh_queue W c l) = []"
    "dropped (fresh_queue W c l)" "lane_grows l (fresh_queue W c l)"
  using assms(2) queue_inv_new [OF assms(1), of c] workers_new_close [OF assms(1)]
  by (simp_all add: fresh_queue_def lane_life_def lane_simps dropped_def lane_grows_def launched_def
      event_queue_new_def)

lemma lane_life_new:
  assumes "workers_ok W items closed"
  shows "lane_life items closed (new_lane W c r)" "unused closed (new_lane W c r)"
    "lane_items items (new_lane W c r) = []" "ln_route (new_lane W c r) = r"
    "lane_life items closed (launch (new_lane W c r))" "serving closed (launch (new_lane W c r))"
    "lane_items items (launch (new_lane W c r)) = []" "ln_route (launch (new_lane W c r)) = r"
  using queue_inv_new [OF assms, of c] workers_new_close [OF assms]
  by (simp_all add: new_lane_def launch_def lane_life_def lane_simps unused_def serving_def
      event_queue_new_def)

lemma lane_life_start:
  assumes "lane_life items closed l" "unused closed l"
  shows "lane_life items closed (start_lane W c l)" "serving closed (start_lane W c l)"
    "lane_items items (start_lane W c l) = lane_items items l" "lane_grows l (start_lane W c l)"
  using assms
  by (auto simp: start_lane_def launch_def Let_def lane_life_def unused_def serving_def lane_simps
      lane_grows_def launched_def dropped_def)

subsection \<open>Accounts\<close>

definition written :: "nat \<Rightarrow> (writer \<times> effect list) list \<Rightarrow> effect list" where
  "written a os = concat (map snd (filter (\<lambda>u. fst u = ByWorker a) os))"

fun taken_at :: "nat \<Rightarrow> answer list \<Rightarrow> (nat \<times> event) list" where
  "taken_at a [] = []"
| "taken_at a (Took t e b # ns) = (if b = a then (t, e) # taken_at a ns else taken_at a ns)"
| "taken_at a (Declined t e b # ns) = taken_at a ns"

lemma written_simps [simp]:
  "written a [] = []" "written a ((ByWorker b, es) # os) = (if b = a then es @ written a os else written a os)"
  "written a ((ByCaller t, es) # os) = written a os" "written a ((ByAdmin, es) # os) = written a os"
  "written a (os @ os') = written a os @ written a os'"
  by (auto simp: written_def)

lemma taken_at_append [simp]: "taken_at a (ns @ ns') = taken_at a ns @ taken_at a ns'"
  by (induction ns rule: taken_at.induct) auto

text \<open>What lane object \<open>a\<close> holds; one that is not made yet holds nothing.\<close>

definition held :: "('q \<Rightarrow> event list) \<Rightarrow> 'q world \<Rightarrow> nat \<Rightarrow> event list" where
  "held items w a = (if a < length (wd_lanes w) then lane_items items (wd_lanes w ! a) else [])"

text \<open>Lane objects are never removed.\<close>

definition grows :: "'q world \<Rightarrow> 'q world \<Rightarrow> bool" where
  "grows w w' \<longleftrightarrow> length (wd_lanes w) \<le> length (wd_lanes w') \<and>
     (\<forall>a < length (wd_lanes w). lane_grows (wd_lanes w ! a) (wd_lanes w' ! a))"

text \<open>What happened at one lane: \<open>h\<close> was written and \<open>d\<close> lost, of what was there and what was taken.\<close>

definition account ::
  "platform \<Rightarrow> filter_store \<Rightarrow> ('q \<Rightarrow> event list) \<Rightarrow> 'q world \<Rightarrow> shown \<Rightarrow> 'q world \<Rightarrow> nat \<Rightarrow>
   event list \<Rightarrow> event list \<Rightarrow> bool" where
  "account P fs items w sh w' a h d \<longleftrightarrow>
     written a (fst sh) = handled P fs (wd_lanes w' ! a) h \<and>
     held items w a @ map snd (taken_at a (snd sh)) = h @ d @ held items w' a \<and>
     (h @ d \<noteq> [] \<longrightarrow> a < length (wd_lanes w')) \<and> (d \<noteq> [] \<longrightarrow> dropped (wd_lanes w' ! a)) \<and>
     (a < length (wd_lanes w) \<and> dropped (wd_lanes w ! a) \<longrightarrow> h = [])"

definition books ::
  "platform \<Rightarrow> filter_store \<Rightarrow> ('q \<Rightarrow> event list) \<Rightarrow> 'q world \<Rightarrow> shown \<Rightarrow> 'q world \<Rightarrow> bool" where
  "books P fs items w sh w' \<longleftrightarrow> grows w w' \<and> (\<forall>a. \<exists>h d. account P fs items w sh w' a h d)"

lemma grows_trans: "grows w w1 \<Longrightarrow> grows w1 w2 \<Longrightarrow> grows w w2"
  by (fastforce simp: grows_def lane_grows_def)

lemma account_trans:
  assumes "grows w w1" "grows w1 w2" "account P fs items w (os1, ns1) w1 a h1 d1"
    "account P fs items w1 (os2, ns2) w2 a h2 d2"
  shows "account P fs items w (os1 @ os2, ns1 @ ns2) w2 a (h1 @ h2) (d1 @ d2)"
proof -
  note 1 = assms(3) [unfolded account_def fst_conv snd_conv]
  note 2 = assms(4) [unfolded account_def fst_conv snd_conv]
  have g: "a < length (wd_lanes w1) \<Longrightarrow> lane_grows (wd_lanes w1 ! a) (wd_lanes w2 ! a)"
    "length (wd_lanes w1) \<le> length (wd_lanes w2)"
    "a < length (wd_lanes w) \<Longrightarrow> lane_grows (wd_lanes w ! a) (wd_lanes w1 ! a) \<and> a < length (wd_lanes w1)"
    using assms(1,2) by (simp_all add: grows_def)
  have "handled P fs (wd_lanes w1 ! a) h1 = handled P fs (wd_lanes w2 ! a) h1"
  proof (cases "h1 = []")
    case False
    then have "ln_route (wd_lanes w1 ! a) = ln_route (wd_lanes w2 ! a)" using 1 g(1) by (simp add: lane_grows_def)
    then show ?thesis by (rule handled_cong)
  qed simp
  then have "written a (os1 @ os2) = handled P fs (wd_lanes w2 ! a) (h1 @ h2)" using 1 2 by simp
  moreover have late: "d1 \<noteq> [] \<longrightarrow> a < length (wd_lanes w1) \<and> dropped (wd_lanes w1 ! a) \<and> h2 = []" using 1 2 by auto
  have "h1 @ d1 @ h2 = h1 @ h2 @ d1" using late by auto
  then have "held items w a @ map snd (taken_at a (ns1 @ ns2)) = (h1 @ h2) @ (d1 @ d2) @ held items w2 a"
    using 1 2 by simp (metis append.assoc)
  moreover have "(h1 @ h2) @ (d1 @ d2) \<noteq> [] \<longrightarrow> a < length (wd_lanes w2)" using 1 2 g(2) by auto
  moreover have "d1 @ d2 \<noteq> [] \<longrightarrow> dropped (wd_lanes w2 ! a)" using 2 late g(1) by (auto simp: lane_grows_def)
  moreover have "a < length (wd_lanes w) \<and> dropped (wd_lanes w ! a) \<longrightarrow> h1 @ h2 = []"
    using 1 2 g(3) by (auto simp: lane_grows_def)
  ultimately show ?thesis by (simp add: account_def)
qed

lemma books_from: "wd_lanes v = wd_lanes w \<Longrightarrow> books P fs items v sh w' = books P fs items w sh w'"
  by (simp add: books_def grows_def account_def held_def)

lemma books_trans:
  assumes "books P fs items w (os1, ns1) w1" "books P fs items w1 (os2, ns2) w2"
  shows "books P fs items w (os1 @ os2, ns1 @ ns2) w2"
proof -
  have g: "grows w w1" "grows w1 w2" using assms by (simp_all add: books_def)
  have "\<exists>h d. account P fs items w (os1 @ os2, ns1 @ ns2) w2 a h d" for a
  proof -
    from assms obtain h1 d1 h2 d2 where "account P fs items w (os1, ns1) w1 a h1 d1"
      "account P fs items w1 (os2, ns2) w2 a h2 d2" unfolding books_def by blast
    from account_trans [OF g this] show ?thesis by blast
  qed
  with grows_trans [OF g] show ?thesis by (simp add: books_def)
qed

text \<open>Actions that neither push nor pop, and those at one lane.\<close>

lemma books_quiet:
  assumes "grows w w'" "\<And>a. held items w' a = held items w a" "\<And>a. written a (fst sh) = []"
    "\<And>a. taken_at a (snd sh) = []"
  shows "books P fs items w sh w'"
  using assms by (auto simp: books_def account_def intro!: exI [of _ "[]"])

lemma books_lane:
  assumes "a < length (wd_lanes w)" "wd_lanes w' = (wd_lanes w)[a := l]" "lane_grows (wd_lanes w ! a) l"
    "lane_items items (wd_lanes w ! a) @ map snd (taken_at a (snd sh)) = h @ d @ lane_items items l"
    "written a (fst sh) = handled P fs (wd_lanes w ! a) h" "d \<noteq> [] \<longrightarrow> dropped l"
    "dropped (wd_lanes w ! a) \<longrightarrow> h = []"
    "\<And>b. b \<noteq> a \<Longrightarrow> written b (fst sh) = [] \<and> taken_at b (snd sh) = []"
  shows "books P fs items w sh w'"
  unfolding books_def
proof (intro conjI allI)
  show "grows w w'" using assms(1-3) by (simp add: grows_def nth_list_update)
  fix b
  show "\<exists>h d. account P fs items w sh w' b h d"
  proof (cases "b = a")
    case True
    have "handled P fs l h = handled P fs (wd_lanes w ! a) h"
      using assms(3) by (intro handled_cong) (simp add: lane_grows_def)
    with True assms(1,2,4-7) show ?thesis
      by (intro exI [of _ h] exI [of _ d]) (simp add: held_def account_def)
  next
    case False
    with assms(1,2) assms(8) [OF False] show ?thesis
      by (intro exI [of _ "[]"]) (simp add: held_def account_def)
  qed
qed

lemma books_made:
  assumes "wd_lanes w' = wd_lanes w @ made" "\<forall>l \<in> set made. lane_items items l = []"
    "fst sh = []" "snd sh = []"
  shows "books P fs items w sh w'"
proof (rule books_quiet)
  show "grows w w'" using assms(1) by (simp add: grows_def nth_append)
  show "held items w' a = held items w a" for a
    using assms(1,2) by (auto simp: held_def nth_append)
qed (use assms in simp_all)

lemma nth_each_lane [simp]:
  "length (each_lane f ls lanes) = length lanes"
  "a < length lanes \<Longrightarrow> each_lane f ls lanes ! a = (if a \<in> set ls then f (lanes ! a) else lanes ! a)"
  by (simp_all add: each_lane_def nth_enumerate_eq)

lemma books_each:
  assumes "wd_lanes w' = each_lane f ls (wd_lanes w)" "fst sh = []" "snd sh = []"
    "\<And>a. a \<in> set ls \<Longrightarrow> a < length (wd_lanes w) \<Longrightarrow> lane_grows (wd_lanes w ! a) (f (wd_lanes w ! a)) \<and>
       lane_items items (f (wd_lanes w ! a)) = lane_items items (wd_lanes w ! a)"
  shows "books P fs items w sh w'"
  by (rule books_quiet) (use assms in \<open>auto simp: grows_def held_def\<close>)

subsection \<open>The invariant\<close>

fun call_ok :: "'q world \<Rightarrow> call_at \<Rightarrow> bool" where
  "call_ok w (Selected e m) = True"
| "call_ok w (Loaded e m c) = (c < length (wd_crossbars w))"
| "call_ok w (Checked e m c) = (c < length (wd_crossbars w))"
| "call_ok w (Fanning e m ls i) = (distinct ls \<and> (\<forall>a \<in> set ls. a < length (wd_lanes w)))"
| "call_ok w (Waiting e m ls i n) = (distinct ls \<and> (\<forall>a \<in> set ls. a < length (wd_lanes w)) \<and> i < length ls)"

definition current_open :: "('q \<Rightarrow> bool) \<Rightarrow> 'q world \<Rightarrow> bool" where
  "current_open closed w \<longleftrightarrow> xo_running (current w) = wd_running w \<and>
     (\<forall>a \<in> set (xo_lanes (current w)).
        (if wd_running w then serving closed (wd_lanes w ! a) else unused closed (wd_lanes w ! a)))"

fun admin_ok :: "('q \<Rightarrow> bool) \<Rightarrow> 'q world \<Rightarrow> admin \<Rightarrow> bool" where
  "admin_ok closed w (Signalling todo ls p) \<longleftrightarrow>
     \<not> xo_running (current w) \<and> (p = ForRoutes \<longleftrightarrow> wd_running w) \<and> ls = xo_lanes (current w) \<and> suffix todo ls \<and>
     (\<forall>a \<in> set ls. ln_drain (wd_lanes w ! a) = (p \<noteq> ForStop)) \<and>
     (\<forall>a \<in> set ls - set todo. lane_shut closed (wd_lanes w ! a))"
| "admin_ok closed w (Joining todo p) \<longleftrightarrow>
     \<not> xo_running (current w) \<and> (p = ForRoutes \<longleftrightarrow> wd_running w) \<and> suffix todo (xo_lanes (current w)) \<and>
     (\<forall>a \<in> set (xo_lanes (current w)). lane_shut closed (wd_lanes w ! a) \<and>
        ln_drain (wd_lanes w ! a) = (p \<noteq> ForStop)) \<and>
     (\<forall>a \<in> set (xo_lanes (current w)) - set todo. ln_worker (wd_lanes w ! a) = NoThread)"
| "admin_ok closed w (Replacing todo) \<longleftrightarrow> \<not> wd_running w \<and> \<not> xo_running (current w) \<and>
     suffix todo (xo_lanes (current w)) \<and> (\<forall>a \<in> set (xo_lanes (current w)). dropped (wd_lanes w ! a))"
| "admin_ok closed w Flushing \<longleftrightarrow> \<not> wd_running w \<and> \<not> xo_running (current w) \<and>
     (\<forall>a \<in> set (xo_lanes (current w)). ln_worker (wd_lanes w ! a) = NoThread)"
| "admin_ok closed w Renewing \<longleftrightarrow> \<not> wd_running w \<and> \<not> xo_running (current w) \<and>
     (\<forall>a \<in> set (xo_lanes (current w)). ln_worker (wd_lanes w ! a) = NoThread)"
| "admin_ok closed w _ \<longleftrightarrow> current_open closed w"

definition objects_ok :: "('q \<Rightarrow> event list) \<Rightarrow> ('q \<Rightarrow> bool) \<Rightarrow> 'q world \<Rightarrow> bool" where
  "objects_ok items closed w \<longleftrightarrow>
     (\<forall>a < length (wd_lanes w). lane_life items closed (wd_lanes w ! a)) \<and>
     wd_crossbar w < length (wd_crossbars w) \<and>
     (\<forall>c < length (wd_crossbars w). distinct (xo_lanes (wd_crossbars w ! c)) \<and>
        (\<forall>a \<in> set (xo_lanes (wd_crossbars w ! c)). a < length (wd_lanes w))) \<and>
     (\<forall>a < length (wd_lanes w). a \<notin> set (xo_lanes (current w)) \<longrightarrow> ln_worker (wd_lanes w ! a) = NoThread)"

definition world_ok :: "('q \<Rightarrow> event list) \<Rightarrow> ('q \<Rightarrow> bool) \<Rightarrow> 'q world \<Rightarrow> bool" where
  "world_ok items closed w \<longleftrightarrow> objects_ok items closed w \<and>
     (\<forall>t c. wd_calls w t = Some c \<longrightarrow> call_ok w c) \<and> admin_ok closed w (wd_admin w)"

lemma current_lanes:
  assumes "objects_ok items closed w"
  shows "distinct (xo_lanes (current w))" "a \<in> set (xo_lanes (current w)) \<Longrightarrow> a < length (wd_lanes w)"
  using assms by (auto simp: objects_ok_def current_def)

lemma current_simps [simp]:
  "wd_crossbar w < length (wd_crossbars w) \<Longrightarrow> current (set_current x w) = x"
  "current (set_call t c w) = current w" "current (set_lane a l w) = current w"
  "wd_lanes (set_call t c w) = wd_lanes w" "wd_lanes (set_current x w) = wd_lanes w"
  "wd_lanes (set_lane a l w) = (wd_lanes w)[a := l]"
  "wd_crossbars (set_call t c w) = wd_crossbars w" "wd_crossbars (set_lane a l w) = wd_crossbars w"
  "wd_crossbar (set_call t c w) = wd_crossbar w" "wd_crossbar (set_lane a l w) = wd_crossbar w"
  "wd_crossbar (set_current x w) = wd_crossbar w" "wd_running (set_current x w) = wd_running w"
  "wd_running (set_call t c w) = wd_running w" "wd_running (set_lane a l w) = wd_running w"
  "wd_calls (set_lane a l w) = wd_calls w" "wd_calls (set_current x w) = wd_calls w"
  "wd_admin (set_call t c w) = wd_admin w" "wd_admin (set_lane a l w) = wd_admin w"
  "wd_calls (set_call t c w) = (wd_calls w)(t := c)"
  by (simp_all add: current_def set_current_def set_call_def set_lane_def)

text \<open>A worker's step and an offer keep all of it: they change one lane, and only its queue and worker.\<close>

definition same_stage :: "('q \<Rightarrow> bool) \<Rightarrow> 'q lane \<Rightarrow> 'q lane \<Rightarrow> bool" where
  "same_stage closed l l' \<longleftrightarrow> ln_route l' = ln_route l \<and> ln_stop l' = ln_stop l \<and> ln_drain l' = ln_drain l \<and>
     lane_shut closed l' = lane_shut closed l \<and> (ln_worker l' = NoThread \<longleftrightarrow> ln_worker l = NoThread) \<and>
     (serving closed l \<longrightarrow> serving closed l')"

lemma same_stage_grows: "same_stage closed l l' \<Longrightarrow> lane_grows l l'"
  by (simp add: same_stage_def lane_grows_def launched_def dropped_def)

lemma call_ok_cong:
  "length (wd_crossbars w) \<le> length (wd_crossbars w') \<Longrightarrow> length (wd_lanes w) \<le> length (wd_lanes w') \<Longrightarrow>
   call_ok w c \<Longrightarrow> call_ok w' c"
  by (cases c) auto

lemma world_ok_lane:
  assumes "world_ok items closed w" "a < length (wd_lanes w)" "lane_life items closed l"
    "same_stage closed (wd_lanes w ! a) l"
  shows "world_ok items closed (set_lane a l w)"
proof -
  let ?w = "set_lane a l w"
  have lane: "wd_lanes ?w ! b = (if b = a then l else wd_lanes w ! b)" for b
    using assms(2) by simp
  note stage = assms(4) [unfolded same_stage_def]
  have un: "unused closed (wd_lanes w ! a) \<Longrightarrow> unused closed l" using stage by (simp add: unused_def)
  have dr: "dropped (wd_lanes w ! a) \<Longrightarrow> dropped l" using stage by (simp add: dropped_def)
  have "objects_ok items closed ?w"
    using assms(1-3) stage unfolding world_ok_def objects_ok_def by (simp add: nth_list_update)
  moreover have "\<forall>t c. wd_calls ?w t = Some c \<longrightarrow> call_ok ?w c"
  proof (intro allI impI)
    fix t c
    assume "wd_calls ?w t = Some c"
    then have "call_ok w c" using assms(1) by (simp add: world_ok_def)
    then show "call_ok ?w c" by (rule call_ok_cong [rotated 2]) simp_all
  qed
  moreover have "admin_ok closed ?w (wd_admin ?w)"
  proof -
    have "admin_ok closed ?w ad" if "admin_ok closed w ad" for ad
      using that stage un dr by (cases ad) (auto simp: lane current_open_def simp del: current_simps(6) split: if_splits)
    then show ?thesis using assms(1) by (simp add: world_ok_def)
  qed
  ultimately show ?thesis by (simp add: world_ok_def)
qed

lemma world_ok_call:
  assumes "world_ok items closed w" "\<And>c'. c = Some c' \<Longrightarrow> call_ok w c'"
  shows "world_ok items closed (set_call t c w)"
proof -
  have "objects_ok items closed (set_call t c w) = objects_ok items closed w"
    by (simp add: objects_ok_def)
  moreover have "admin_ok closed (set_call t c w) ad = admin_ok closed w ad" for ad
    by (cases ad) (simp_all add: current_open_def)
  moreover have "call_ok (set_call t c w) c' = call_ok w c'" for c'
    by (cases c') simp_all
  ultimately show ?thesis using assms by (auto simp: world_ok_def)
qed

lemma world_ok_frame:
  assumes "wd_lanes w' = wd_lanes w" "wd_crossbars w' = wd_crossbars w" "wd_crossbar w' = wd_crossbar w"
    "wd_running w' = wd_running w"
  shows "objects_ok items closed w' = objects_ok items closed w"
    "admin_ok closed w' ad = admin_ok closed w ad" "call_ok w' c = call_ok w c" "held items w' a = held items w a"
    "current w' = current w"
proof -
  have cur: "current w' = current w" using assms by (simp add: current_def)
  then show "objects_ok items closed w' = objects_ok items closed w" "current w' = current w"
    using assms by (simp_all add: objects_ok_def)
  show "admin_ok closed w' ad = admin_ok closed w ad"
    by (cases ad) (simp_all add: cur assms current_open_def)
  show "call_ok w' c = call_ok w c" by (cases c) (simp_all add: assms)
  show "held items w' a = held items w a" by (simp add: held_def assms)
qed

lemma world_okD:
  assumes "world_ok items closed w"
  shows "wd_calls w t = Some c \<Longrightarrow> call_ok w c" "wd_crossbar w < length (wd_crossbars w)"
    "a < length (wd_lanes w) \<Longrightarrow> lane_life items closed (wd_lanes w ! a)"
    "objects_ok items closed w" "admin_ok closed w (wd_admin w)"
  using assms unfolding world_ok_def objects_ok_def by blast+

lemma grows_refl [simp]: "wd_lanes w' = wd_lanes w \<Longrightarrow> grows w w'"
  by (simp add: grows_def)

subsection \<open>Calls keep the invariant and the books\<close>

lemma begins_ok:
  assumes "world_ok items closed w" "call_begins P fs t e force_sync w = (sh, w')"
  shows "world_ok items closed w'" "books P fs items w sh w'"
    "\<exists>c. w' = w\<lparr>wd_cache := c\<rparr> \<or> (\<exists>m. w' = set_call t (Some (Selected e m)) (w\<lparr>wd_cache := c\<rparr>))" "snd sh = []"
proof -
  obtain ce c where c: "cached_route_mask fs (wd_routes w) (ev_endpoint e) (wd_cache w) = (ce, c)" by fastforce
  let ?w = "w\<lparr>wd_cache := c\<rparr>"
  have sh: "(w' = ?w \<or> w' = set_call t (Some (Selected e (ce_route_mask ce))) ?w) \<and>
      snd sh = [] \<and> (\<forall>a. written a (fst sh) = [])"
    using assms(2) c by (auto simp: call_begins_def Let_def split: if_splits)
  have ok: "world_ok items closed ?w"
    using assms(1) world_ok_frame(1-3) [of ?w w] by (simp add: world_ok_def)
  from sh show "world_ok items closed w'"
    using ok world_ok_call [OF ok, of "Some (Selected e (ce_route_mask ce))" t] by auto
  show "\<exists>c. w' = w\<lparr>wd_cache := c\<rparr> \<or> (\<exists>m. w' = set_call t (Some (Selected e m)) (w\<lparr>wd_cache := c\<rparr>))" "snd sh = []"
    using sh by auto
  show "books P fs items w sh w'"
    by (rule books_quiet) (use sh in \<open>auto simp: held_def\<close>)
qed

lemma at_lane_ok:
  assumes "workers_ok W items closed" "world_ok items closed w" "call_ok w (Fanning e m ls i)"
    "i < length ls" "call_at_lane W t e m ls i w = (sh, w')"
  shows "world_ok items closed w' \<and> books P fs items w sh w' \<and>
    (\<forall>b. taken_at b (snd sh) = [] \<or> b = ls ! i \<and> taken_at b (snd sh) = [(t, e)]) \<and>
    ((\<exists>n. wd_calls w' = (wd_calls w)(t \<mapsto> Waiting e m ls i n)) \<and> snd sh = [] \<or>
     wd_calls w' = (wd_calls w)(t \<mapsto> Fanning e m ls (Suc i)))"
proof -
  let ?go = "set_call t (Some (Fanning e m ls (Suc i)))" and ?a = "ls ! i"
  let ?stay = "set_call t (Some (Waiting e m ls i (wd_queue_no w ?a)))"
  let ?l = "wd_lanes w ! ?a"
  have a: "?a < length (wd_lanes w)" using assms(3,4) by simp
  have life: "lane_life items closed ?l" by (rule world_okD(3) [OF assms(2) a])
  then obtain q where q: "ln_queue ?l = Some q" by (auto simp: lane_life_def lane_ok_def)
  obtain r q' where o: "offer W e (wd_accepting w) (ln_route ?l) q = (r, q')" by fastforce
  let ?l' = "?l\<lparr>ln_queue := Some q'\<rparr>"
  note off = lane_life_offer [OF assms(1) life q o refl]
  have stage: "same_stage closed ?l ?l'" using off(3) by (simp add: same_stage_def serving_def)
  have ok1: "world_ok items closed (set_lane ?a ?l' w)"
    by (rule world_ok_lane [OF assms(2) a off(1) stage])
  have next_ok: "world_ok items closed (set_call t (Some c) v)" if "world_ok items closed v"
    "wd_lanes v = wd_lanes w \<or> wd_lanes v = (wd_lanes w)[?a := ?l']"
    "c = Fanning e m ls (Suc i) \<or> c = Waiting e m ls i n" for v c n
    using that assms(3,4) by (intro world_ok_call) auto
  have skip: "books P fs items w ([], []) (?go w)"
    by (rule books_quiet) (simp_all add: held_def)
  have at: "books P fs items w ([], if r = Pushed then [Took t e ?a] else ns) v"
    if "wd_lanes v = (wd_lanes w)[?a := ?l']" "\<And>b. taken_at b ns = []" for v ns
    by (rule books_lane [OF a that(1) same_stage_grows [OF stage], where h = "[]" and d = "[]"])
      (use off(2) that(2) in auto)
  consider (skip) "\<not> mask_has m i" | (Pushed) "mask_has m i" "r = Pushed" | (Refused) "mask_has m i" "r = Refused"
    | (Waits) "mask_has m i" "r = Waits" by (cases r) auto
  then show ?thesis
  proof cases
    case skip
    then have "sh = ([], [])" "w' = ?go w" using assms(5) by (simp_all add: call_at_lane_def)
    with next_ok [OF assms(2)] \<open>books P fs items w ([], []) (?go w)\<close> show ?thesis by simp
  next
    case Pushed
    then have "sh = ([], [Took t e ?a])" "w' = ?go (set_lane ?a ?l' w)"
      using assms(5) q o by (simp_all add: call_at_lane_def Let_def set_lane_def)
    with next_ok [OF ok1] at [of w' "[]"] Pushed show ?thesis by auto
  next
    case Refused
    then have "sh = ([], [Declined t e ?a])" "w' = ?go (set_lane ?a ?l' w)"
      using assms(5) q o by (simp_all add: call_at_lane_def Let_def set_lane_def)
    with next_ok [OF ok1] at [of w' "[Declined t e ?a]"] Refused show ?thesis by auto
  next
    case Waits
    then have "sh = ([], [])" "w' = ?stay (set_lane ?a ?l' w)"
      using assms(5) q o by (simp_all add: call_at_lane_def Let_def set_lane_def)
    with next_ok [OF ok1] at [of w' "[]"] Waits show ?thesis by auto
  qed
qed

lemma call_moves:
  assumes "world_ok items closed w" "w' = set_call t c w" "\<forall>c'. c = Some c' \<longrightarrow> call_ok w c'"
    "\<forall>a. written a (fst sh) = []" "snd sh = []"
  shows "world_ok items closed w' \<and> books P fs items w sh w'"
proof -
  have "books P fs items w sh w'" by (rule books_quiet) (simp_all add: assms held_def)
  with world_ok_call [OF assms(1), of c t] assms(2,3) show ?thesis by simp
qed

lemma advances_ok:
  assumes "workers_ok W items closed" "world_ok items closed w" "wd_calls w t = Some c"
    "call_advances P fs W t c w = Some (sh, w')"
  shows "world_ok items closed w' \<and> books P fs items w sh w'"
proof -
  note cok = world_okD(1) [OF assms(2,3)] and move = call_moves [OF assms(2)]
  show ?thesis
  proof (cases c)
    case (Selected e m)
    with assms(4) show ?thesis using world_okD(2) [OF assms(2)]
      by (intro move [where t = t and c = "Some (Loaded e m (wd_crossbar w))"]) (auto split: if_splits)
  next
    case (Loaded e m k)
    with assms(4) cok show ?thesis
      by (intro move [where t = t and c = "if wd_accepting w then Some (Checked e m k) else None"])
        (auto split: if_splits)
  next
    case (Checked e m k)
    then have "call_ok w (Fanning e m (xo_lanes (wd_crossbars w ! k)) 0)"
      using world_okD(4) [OF assms(2)] cok by (simp add: objects_ok_def)
    with assms(4) Checked show ?thesis
      by (intro move [where t = t and c = "Some (Fanning e m (xo_lanes (wd_crossbars w ! k)) 0)"]) auto
  next
    case (Fanning e m ls i)
    show ?thesis
    proof (cases "i < length ls \<and> i < 64")
      case True
      with assms(4) Fanning have "call_at_lane W t e m ls i w = (sh, w')" by simp
      from at_lane_ok [OF assms(1,2) _ _ this] True cok Fanning show ?thesis by blast
    next
      case False
      with assms(4) Fanning show ?thesis by (intro move [where t = t and c = None]) auto
    qed
  next
    case (Waiting e m ls i n)
    with assms(4) have "call_at_lane W t e m ls i w = (sh, w')" by (simp split: if_splits)
    from at_lane_ok [OF assms(1,2) _ _ this] cok Waiting show ?thesis by simp
  qed
qed

lemma work_step_ok:
  assumes "workers_ok W items closed" "world_ok items closed w" "a < length (wd_lanes w)"
    "worker_step P fs W (wd_lanes w ! a) = (es, l)"
  shows "world_ok items closed (set_lane a l w) \<and> books P fs items w ([(ByWorker a, es)], []) (set_lane a l w)"
proof -
  have "lane_life items closed (wd_lanes w ! a)" using assms(2,3) by (simp add: world_ok_def objects_ok_def)
  from lane_life_work [OF assms(1) this assms(4)] obtain h where
    h: "lane_items items (wd_lanes w ! a) = h @ lane_items items l" "es = handled P fs (wd_lanes w ! a) h"
      "lane_life items closed l" "same_stage closed (wd_lanes w ! a) l"
      "ln_worker (wd_lanes w ! a) = NoThread \<longrightarrow> h = []"
    by (auto simp: same_stage_def)
  have "books P fs items w ([(ByWorker a, es)], []) (set_lane a l w)"
    by (rule books_lane [OF assms(3) _ same_stage_grows [OF h(4)], where h = h and d = "[]"])
      (use h in \<open>auto simp: dropped_def\<close>)
  with world_ok_lane [OF assms(2,3) h(3,4)] show ?thesis by blast
qed

subsection \<open>Lifecycle calls keep the invariant and the books\<close>

text \<open>New lanes are open, and in the new crossbar they have workers exactly if it is running.\<close>

lemma made_lanes:
  assumes "workers_ok W items closed" "l \<in> set (if up then map launch (map (new_lane W c) rs) else map (new_lane W c) rs)"
  shows "lane_life items closed l" "lane_items items l = []"
    "if up then serving closed l else unused closed l"
  using assms(2) lane_life_new [OF assms(1)] by (auto split: if_splits)

lemma new_lanes_ok:
  assumes "workers_ok W items closed" "objects_ok items closed w" "\<forall>t c. wd_calls w t = Some c \<longrightarrow> call_ok w c"
    "\<forall>a \<in> set (xo_lanes (current w)). ln_worker (wd_lanes w ! a) = NoThread"
    "new_lanes W up x w = (x', w1)" "\<not> xo_running x" "wd_running w = up"
    "w' = w1\<lparr>wd_crossbar := k, wd_crossbars := xs, wd_accepting := acc, wd_admin := Ready\<rparr>"
    "k < length xs" "xs ! k = x'" "length (wd_crossbars w) \<le> length xs"
    "\<forall>c < length xs. c \<noteq> k \<longrightarrow> c < length (wd_crossbars w) \<and> xs ! c = wd_crossbars w ! c"
  shows "world_ok items closed w' \<and> books P fs items w ([], []) w'"
proof -
  let ?cap = "max (cfg_queue_capacity (wd_cfg w)) 1" and ?n = "length (wd_lanes w)"
  let ?made = "if up then map launch (map (new_lane W ?cap) (wd_routes w)) else map (new_lane W ?cap) (wd_routes w)"
  have x': "xo_lanes x' = [?n ..< ?n + length ?made]" "xo_running x' = up"
    and w1: "w1 = w\<lparr>wd_lanes := wd_lanes w @ ?made\<rparr>"
    using assms(5,6) by (auto simp: new_lanes_def Let_def)
  have lanes: "wd_lanes w' = wd_lanes w @ ?made" and cur: "current w' = x'" and run: "wd_running w' = up"
    using assms(7-10) w1 by (simp_all add: current_def)
  have fresh: "lane_life items closed (wd_lanes w' ! a)" "if up then serving closed (wd_lanes w' ! a)
      else unused closed (wd_lanes w' ! a)" if "?n \<le> a" "a < ?n + length ?made" for a
  proof -
    have "wd_lanes w' ! a \<in> set ?made" unfolding lanes using that by (simp add: nth_append)
    from made_lanes [OF assms(1) this] show "lane_life items closed (wd_lanes w' ! a)"
      "if up then serving closed (wd_lanes w' ! a) else unused closed (wd_lanes w' ! a)" by blast+
  qed
  have old: "wd_lanes w' ! a = wd_lanes w ! a" if "a < ?n" for a
    using that by (simp add: lanes nth_append)
  have idle: "ln_worker (wd_lanes w ! a) = NoThread" if "a < ?n" for a
    using assms(2,4) that by (auto simp: objects_ok_def)
  have "objects_ok items closed w'"
    unfolding objects_ok_def
  proof (intro conjI allI impI)
    show "lane_life items closed (wd_lanes w' ! a)" if "a < length (wd_lanes w')" for a
    proof (cases "a < ?n")
      case True
      with assms(2) old show ?thesis by (simp add: objects_ok_def)
    qed (use that fresh(1) [of a] lanes in simp)
    show "wd_crossbar w' < length (wd_crossbars w')" using assms(8,9) by simp
    fix c
    assume c: "c < length (wd_crossbars w')"
    then have c': "c < length xs" using assms(8) by simp
    have "distinct (xo_lanes (xs ! c)) \<and> (\<forall>a \<in> set (xo_lanes (xs ! c)). a < length (wd_lanes w'))"
    proof (cases "c = k")
      case True
      then show ?thesis using assms(10) x'(1) lanes by simp
    next
      case False
      with assms(12) c' have "c < length (wd_crossbars w)" "xs ! c = wd_crossbars w ! c" by blast+
      then show ?thesis using assms(2) lanes by (auto simp: objects_ok_def intro: trans_less_add1)
    qed
    then show "distinct (xo_lanes (wd_crossbars w' ! c))"
      "\<forall>a \<in> set (xo_lanes (wd_crossbars w' ! c)). a < length (wd_lanes w')"
      using assms(8) by simp_all
  next
    fix a
    assume "a < length (wd_lanes w')" "a \<notin> set (xo_lanes (current w'))"
    then have "a < ?n" using lanes cur x'(1) by auto
    then show "ln_worker (wd_lanes w' ! a) = NoThread" using idle old by simp
  qed
  moreover have "\<forall>t c. wd_calls w' t = Some c \<longrightarrow> call_ok w' c"
  proof (intro allI impI)
    fix t c
    assume "wd_calls w' t = Some c"
    then have "call_ok w c" using assms(3,8) w1 by simp
    then show "call_ok w' c" by (rule call_ok_cong [rotated 2]) (use assms(8,11) lanes in simp_all)
  qed
  moreover have "admin_ok closed w' (wd_admin w')"
  proof -
    have "current_open closed w'" unfolding current_open_def cur run x'
      using fresh(2) by (auto split: if_splits)
    then show ?thesis using assms(8) by simp
  qed
  moreover have "books P fs items w ([], []) w'"
  proof (rule books_made [OF lanes])
    show "\<forall>l \<in> set ?made. lane_items items l = []" using made_lanes(2) [OF assms(1)] by blast
  qed simp_all
  ultimately show ?thesis by (simp add: world_ok_def)
qed

lemma rebuild_ok:
  assumes "workers_ok W items closed" "objects_ok items closed w" "\<forall>t c. wd_calls w t = Some c \<longrightarrow> call_ok w c"
    "\<forall>a \<in> set (xo_lanes (current w)). ln_worker (wd_lanes w ! a) = NoThread"
    "\<not> xo_running (current w)" "wd_running w = up"
  shows "world_ok items closed ((rebuild W up w)\<lparr>wd_admin := Ready\<rparr>) \<and>
    books P fs items w ([], []) ((rebuild W up w)\<lparr>wd_admin := Ready\<rparr>)"
proof -
  obtain x' w1 where n: "new_lanes W up (current w) w = (x', w1)" by fastforce
  then have w1: "wd_crossbars w1 = wd_crossbars w" "wd_crossbar w1 = wd_crossbar w"
    by (auto simp: new_lanes_def Let_def)
  have len: "wd_crossbar w < length (wd_crossbars w)" using assms(2) by (simp add: objects_ok_def)
  show ?thesis
    by (rule new_lanes_ok [OF assms(1-4) n assms(5,6), where k = "wd_crossbar w" and
          xs = "(wd_crossbars w)[wd_crossbar w := x']" and acc = "wd_accepting w1"])
      (use n w1 len in \<open>auto simp: rebuild_def set_current_def\<close>)
qed

lemma renew_ok:
  assumes "workers_ok W items closed" "objects_ok items closed w" "\<forall>t c. wd_calls w t = Some c \<longrightarrow> call_ok w c"
    "\<forall>a \<in> set (xo_lanes (current w)). ln_worker (wd_lanes w ! a) = NoThread" "\<not> wd_running w"
    "w' = (renew W w)\<lparr>wd_accepting := acc, wd_admin := Ready\<rparr>"
  shows "world_ok items closed w' \<and> books P fs items w ([], []) w'"
proof -
  let ?x = "\<lparr>xo_capacity = 1, xo_running = False, xo_lanes = []\<rparr>"
  obtain x' w1 where n: "new_lanes W False ?x w = (x', w1)" by fastforce
  show ?thesis
    by (rule new_lanes_ok [OF assms(1-4) n, where k = "length (wd_crossbars w)" and
          xs = "wd_crossbars w @ [x']" and acc = acc])
      (use n assms(5,6) in \<open>auto simp: renew_def nth_append\<close>)
qed

lemma current_stage:
  assumes "current_open closed w" "a \<in> set (xo_lanes (current w))"
  shows "serving closed (wd_lanes w ! a) \<or> unused closed (wd_lanes w ! a)"
  using assms by (auto simp: current_open_def split: if_splits)

lemma stop_begins_ok:
  assumes "world_ok items closed w" "admin_ok closed w Ready" "p = ForRoutes \<longleftrightarrow> wd_running w'"
    "w' = w\<lparr>wd_running := r\<rparr>"
  shows "world_ok items closed (stop_begins p w') \<and> books P fs items w ([], []) (stop_begins p w')"
proof -
  have cur: "current w' = current w" using assms(4) by (simp add: current_def)
  have len: "wd_crossbar w < length (wd_crossbars w)" by (rule world_okD(2) [OF assms(1)])
  have ok: "objects_ok items closed w" by (rule world_okD(4) [OF assms(1)])
  show ?thesis
  proof (cases "\<not> xo_running (current w) \<and> xo_lanes (current w) = []")
    case True
    then have e: "stop_begins p w' = w'\<lparr>wd_admin := Joining [] p\<rparr>" by (simp add: stop_begins_def Let_def cur)
    let ?v = "w'\<lparr>wd_admin := Joining [] p\<rparr>"
    have f: "wd_lanes ?v = wd_lanes w" "wd_crossbars ?v = wd_crossbars w" "wd_crossbar ?v = wd_crossbar w"
      using assms(4) by simp_all
    then have curv: "current ?v = current w" by (simp add: current_def)
    have "objects_ok items closed ?v" using ok f curv by (simp add: objects_ok_def)
    moreover have "\<forall>t c. wd_calls ?v t = Some c \<longrightarrow> call_ok ?v c"
    proof (intro allI impI)
      fix t c
      assume "wd_calls ?v t = Some c"
      then have "call_ok w c" using world_okD(1) [OF assms(1), of t c] assms(4) by simp
      then show "call_ok ?v c" by (rule call_ok_cong [rotated 2]) (use f in simp_all)
    qed
    moreover have "admin_ok closed ?v (wd_admin ?v)"
      using True assms(3) curv by simp
    moreover have "books P fs items w ([], []) ?v" by (rule books_quiet) (simp_all add: f held_def)
    ultimately show ?thesis unfolding e world_ok_def by blast
  next
    case False
    let ?x = "(current w)\<lparr>xo_running := False\<rparr>" and ?ls = "xo_lanes (current w)"
    let ?f = "\<lambda>l. l\<lparr>ln_drain := (p \<noteq> ForStop)\<rparr>"
    let ?v = "(set_current ?x w')\<lparr>wd_lanes := each_lane ?f ?ls (wd_lanes w'), wd_admin := Signalling ?ls ?ls p\<rparr>"
    have e: "stop_begins p w' = ?v" using False by (auto simp: stop_begins_def Let_def cur)
    have f: "wd_lanes ?v = each_lane ?f ?ls (wd_lanes w)" "length (wd_crossbars ?v) = length (wd_crossbars w)"
      "wd_crossbar ?v = wd_crossbar w" "wd_running ?v = wd_running w'" "wd_calls ?v = wd_calls w"
      "\<And>c. xo_lanes (wd_crossbars ?v ! c) = xo_lanes (wd_crossbars w ! c)"
      using assms(4) len by (auto simp: set_current_def nth_list_update current_def)
    have curv: "current ?v = ?x" using len assms(4) by (simp add: current_def set_current_def)
    have al: "a < length (wd_lanes w)" if "a \<in> set ?ls" for a by (rule current_lanes(2) [OF ok that])
    have open0: "current_open closed w" using assms(2) by simp
    have d: "lane_life items closed (?f (wd_lanes w ! a))"
      "lane_items items (?f (wd_lanes w ! a)) = lane_items items (wd_lanes w ! a)"
      "lane_grows (wd_lanes w ! a) (?f (wd_lanes w ! a))" if "a \<in> set ?ls" for a
      by (rule lane_life_drain [OF world_okD(3) [OF assms(1) al [OF that]] current_stage [OF open0 that] refl])+
    have "objects_ok items closed ?v"
      using ok d(1) unfolding objects_ok_def f curv by simp
    moreover have "\<forall>t c. wd_calls ?v t = Some c \<longrightarrow> call_ok ?v c"
    proof (intro allI impI)
      fix t c
      assume "wd_calls ?v t = Some c"
      then have "call_ok w c" using world_okD(1) [OF assms(1), of t c] f(5) by simp
      then show "call_ok ?v c" by (rule call_ok_cong [rotated 2]) (use f(1,2) in simp_all)
    qed
    moreover have "admin_ok closed ?v (wd_admin ?v)"
      using assms(3) curv f(4) al by (simp add: f(1))
    moreover have "books P fs items w ([], []) ?v"
      by (rule books_each [OF f(1)]) (use d in auto)
    ultimately show ?thesis unfolding e world_ok_def by blast
  qed
qed

lemma starts_ok:
  assumes "workers_ok W items closed" "world_ok items closed w" "wd_admin w = Ready"
  shows "world_ok items closed (starts W w) \<and> books P fs items w ([], []) (starts W w)"
proof -
  have open0: "current_open closed w" using world_okD(5) [OF assms(2)] assms(3) by simp
  have ok: "objects_ok items closed w" and len: "wd_crossbar w < length (wd_crossbars w)"
    by (rule world_okD [OF assms(2)])+
  let ?x = "current w"
  have cur1: "current (w\<lparr>wd_accepting := True\<rparr>) = ?x" by (simp add: current_def)
  show ?thesis
  proof (cases "wd_running w")
    case True
    then have e: "starts W w = w\<lparr>wd_accepting := True\<rparr>" by (simp add: starts_def Let_def)
    have "world_ok items closed (w\<lparr>wd_accepting := True\<rparr>)"
      using assms(2) world_ok_frame(1-3) [of "w\<lparr>wd_accepting := True\<rparr>" w] by (simp add: world_ok_def)
    then show ?thesis unfolding e by (auto intro!: books_quiet simp: held_def)
  next
    case False
    let ?v = "(set_current (?x\<lparr>xo_running := True\<rparr>) (w\<lparr>wd_accepting := True\<rparr>))
        \<lparr>wd_running := True, wd_lanes := each_lane (start_lane W (xo_capacity ?x)) (xo_lanes ?x) (wd_lanes w)\<rparr>"
    have e: "starts W w = ?v"
      using False open0 cur1 by (simp add: starts_def Let_def current_open_def cong: if_cong)
    have lanes: "wd_lanes ?v = each_lane (start_lane W (xo_capacity ?x)) (xo_lanes ?x) (wd_lanes w)" by simp
    have f: "length (wd_crossbars ?v) = length (wd_crossbars w)" "wd_crossbar ?v = wd_crossbar w"
      "wd_calls ?v = wd_calls w" "\<And>c. xo_lanes (wd_crossbars ?v ! c) = xo_lanes (wd_crossbars w ! c)"
      using len by (auto simp: set_current_def nth_list_update current_def)
    have cur: "current ?v = ?x\<lparr>xo_running := True\<rparr>" using len by (simp add: current_def set_current_def)
    have un: "unused closed (wd_lanes w ! a)" if "a \<in> set (xo_lanes ?x)" for a
      using open0 False that by (simp add: current_open_def)
    have st: "lane_life items closed (start_lane W c (wd_lanes w ! a))"
      "serving closed (start_lane W c (wd_lanes w ! a))"
      "lane_items items (start_lane W c (wd_lanes w ! a)) = lane_items items (wd_lanes w ! a)"
      "lane_grows (wd_lanes w ! a) (start_lane W c (wd_lanes w ! a))"
      if "a \<in> set (xo_lanes ?x)" for a c
    proof -
      have "a < length (wd_lanes w)" by (rule current_lanes(2) [OF ok that])
      then have "lane_life items closed (wd_lanes w ! a)" using ok by (simp add: objects_ok_def)
      from lane_life_start [OF this un [OF that]] show "lane_life items closed (start_lane W c (wd_lanes w ! a))"
        "serving closed (start_lane W c (wd_lanes w ! a))"
        "lane_items items (start_lane W c (wd_lanes w ! a)) = lane_items items (wd_lanes w ! a)"
        "lane_grows (wd_lanes w ! a) (start_lane W c (wd_lanes w ! a))" by blast+
    qed
    have "objects_ok items closed ?v"
      using ok st(1) lanes f cur unfolding objects_ok_def by (auto split: if_splits)
    moreover have "\<forall>t c. wd_calls ?v t = Some c \<longrightarrow> call_ok ?v c"
    proof (intro allI impI)
      fix t c
      assume "wd_calls ?v t = Some c"
      then have "call_ok w c" using world_okD(1) [OF assms(2), of t c] f(3) by simp
      then show "call_ok ?v c" by (rule call_ok_cong [rotated 2]) (use f(1) in simp_all)
    qed
    moreover have "admin_ok closed ?v (wd_admin ?v)"
    proof -
      have "serving closed (wd_lanes ?v ! a)" if "a \<in> set (xo_lanes ?x)" for a
        using current_lanes(2) [OF ok that] st(2) [OF that] that by simp
      then have "current_open closed ?v" unfolding current_open_def cur by simp
      then show ?thesis using assms(3) by (simp add: set_current_def)
    qed
    moreover have "books P fs items w ([], []) ?v"
      by (rule books_each [OF lanes]) (use st in auto)
    ultimately show ?thesis unfolding e world_ok_def by blast
  qed
qed

text \<open>Closing and joining one lane, as the thread that stops the crossbar goes through them.\<close>

lemma world_ok_admin:
  assumes "objects_ok items closed w" "\<forall>t c. wd_calls w t = Some c \<longrightarrow> call_ok w c"
    "a < length (wd_lanes w)" "lane_life items closed l" "ln_worker l = NoThread \<or> a \<in> set (xo_lanes (current w))"
    "admin_ok closed (set_lane a l w) ad"
  shows "world_ok items closed ((set_lane a l w)\<lparr>wd_admin := ad\<rparr>)"
proof -
  let ?v = "(set_lane a l w)\<lparr>wd_admin := ad\<rparr>"
  have f: "objects_ok items closed ?v = objects_ok items closed (set_lane a l w)"
    "admin_ok closed ?v ad = admin_ok closed (set_lane a l w) ad"
    by (rule world_ok_frame; simp)+
  have "objects_ok items closed (set_lane a l w)"
    using assms(1,3,4,5) unfolding objects_ok_def by (auto simp: nth_list_update)
  moreover have "\<forall>t c. wd_calls ?v t = Some c \<longrightarrow> call_ok ?v c"
  proof (intro allI impI)
    fix t c
    assume "wd_calls ?v t = Some c"
    then have "call_ok w c" using assms(2) by simp
    then show "call_ok ?v c" by (rule call_ok_cong [rotated 2]) simp_all
  qed
  ultimately show ?thesis using assms(6) f by (simp add: world_ok_def)
qed

lemma admin_moves:
  assumes "world_ok items closed w" "admin_ok closed w ad" "\<forall>a. written a (fst sh) = []" "snd sh = []"
    "w' = w\<lparr>wd_admin := ad\<rparr>"
  shows "world_ok items closed w' \<and> books P fs items w sh w'"
proof -
  have "world_ok items closed w'"
    using assms(1,2,5) world_ok_frame(1-3) [of w' w] by (simp add: world_ok_def)
  moreover have "books P fs items w sh w'"
    by (rule books_quiet) (use assms(3-5) in \<open>simp_all add: held_def\<close>)
  ultimately show ?thesis ..
qed

lemma frame_ok:
  assumes "world_ok items closed w" "wd_lanes w' = wd_lanes w" "wd_crossbars w' = wd_crossbars w"
    "wd_crossbar w' = wd_crossbar w" "wd_running w' = wd_running w" "wd_calls w' = wd_calls w"
    "admin_ok closed w (wd_admin w')"
  shows "world_ok items closed w' \<and> books P fs items w ([], []) w'"
proof -
  note f = world_ok_frame [OF assms(2-5)]
  have "books P fs items w ([], []) w'" by (rule books_quiet) (simp_all add: f assms(2))
  moreover have "objects_ok items closed w'" unfolding f(1) by (rule world_okD(4) [OF assms(1)])
  moreover have "admin_ok closed w' (wd_admin w')" unfolding f(2) by (rule assms(7))
  moreover have "call_ok w' c" if "wd_calls w' t = Some c" for t c
    unfolding f(3) by (rule world_okD(1) [OF assms(1)]) (use that assms(6) in simp)
  ultimately show ?thesis by (simp add: world_ok_def)
qed

lemma admin_advances_ok:
  assumes "workers_ok W items closed" "world_ok items closed w"
    "admin_advances W (wd_admin w) w = Some (sh, w')"
  shows "world_ok items closed w' \<and> books P fs items w sh w'"
proof -
  note ok = world_okD(4) [OF assms(2)] and adm = world_okD(5) [OF assms(2)]
  have calls: "\<forall>t c. wd_calls w t = Some c \<longrightarrow> call_ok w c" using world_okD(1) [OF assms(2)] by blast
  note move = admin_moves [OF assms(2)]
  show ?thesis
  proof (cases "wd_admin w")
    case Ready
    with assms(3) show ?thesis by simp
  next
    case Configuring
    with adm have open0: "current_open closed w" by simp
    show ?thesis
    proof (cases "xo_running (current w)")
      case True
      with assms(3) Configuring have w': "sh = ([], [])" "w' = stop_begins ForRoutes w" by simp_all
      have "w = w\<lparr>wd_running := wd_running w\<rparr>" by simp
      from stop_begins_ok [OF assms(2) _ _ this, of ForRoutes P fs] open0 True
      show ?thesis using w' by (simp add: current_open_def)
    next
      case False
      with assms(3) Configuring have w': "sh = ([], [])" "w' = (rebuild W False w)\<lparr>wd_admin := Ready\<rparr>" by simp_all
      have "\<forall>a \<in> set (xo_lanes (current w)). ln_worker (wd_lanes w ! a) = NoThread" "\<not> wd_running w"
        using open0 False by (auto simp: current_open_def unused_def)
      with rebuild_ok [OF assms(1) ok calls this(1) False] w' show ?thesis by simp
    qed
  next
    case Closing
    with adm have open0: "current_open closed w" by simp
    from Closing assms(3) have w': "sh = ([], [])" "w' = stop_begins ForClose (w\<lparr>wd_running := False\<rparr>)" by simp_all
    from stop_begins_ok [OF assms(2) _ _ refl, of ForClose False P fs] open0 w' show ?thesis by simp
  next
    case Stopping
    with adm have open0: "current_open closed w" by simp
    from Stopping assms(3) have w': "sh = ([], [])" "w' = stop_begins ForStop (w\<lparr>wd_running := False\<rparr>)" by simp_all
    from stop_begins_ok [OF assms(2) _ _ refl, of ForStop False P fs] open0 w' show ?thesis by simp
  next
    case (Signalling todo ls p)
    with adm have s: "\<not> xo_running (current w)" "p = ForRoutes \<longleftrightarrow> wd_running w" "ls = xo_lanes (current w)"
      "suffix todo ls" "\<forall>a \<in> set ls - set todo. lane_shut closed (wd_lanes w ! a)"
      "\<forall>a \<in> set ls. ln_drain (wd_lanes w ! a) = (p \<noteq> ForStop)"
      unfolding Signalling admin_ok.simps by blast+
    show ?thesis
    proof (cases todo)
      case Nil
      with assms(3) Signalling have "sh = ([], [])" "w' = w\<lparr>wd_admin := Joining ls p\<rparr>" by simp_all
      with s Nil show ?thesis by (intro move [where ad = "Joining ls p"]) auto
    next
      case (Cons a as)
      let ?l = "signal_stop W (p \<noteq> ForStop) (wd_lanes w ! a)"
      from Cons assms(3) Signalling have w': "sh = ([], [])"
        "w' = (set_lane a ?l w)\<lparr>wd_admin := Signalling as ls p\<rparr>" by simp_all
      have a: "a \<in> set (xo_lanes (current w))" using s(3,4) Cons by (auto dest: set_mono_suffix)
      have al: "a < length (wd_lanes w)" by (rule current_lanes(2) [OF ok a])
      have dr: "ln_drain (wd_lanes w ! a) = (p \<noteq> ForStop)" using s(3,6) a by blast
      note sig = lane_life_signal [OF assms(1) world_okD(3) [OF assms(2) al] dr]
      have suf: "suffix as ls" using s(4) Cons by (auto dest: suffix_ConsD)
      have "lane_shut closed (wd_lanes (set_lane a ?l w) ! b)" if "b \<in> set ls - set as" for b
        using sig(3) s(5) that Cons al by (cases "b = a") auto
      moreover have "ln_drain (wd_lanes (set_lane a ?l w) ! b) = (p \<noteq> ForStop)" if "b \<in> set ls" for b
        using sig(5) s(6) that al by (cases "b = a") auto
      ultimately have adm': "admin_ok closed (set_lane a ?l w) (Signalling as ls p)" using s suf by simp
      have "world_ok items closed w'"
        unfolding w'(2) by (rule world_ok_admin [OF ok calls al sig(1) disjI2 [OF a] adm'])
      moreover have "books P fs items w sh w'"
        by (rule books_lane [OF al _ sig(6), where h = "[]" and d = "[]"]) (use w' sig in simp_all)
      ultimately show ?thesis ..
    qed
  next
    case (Joining todo p)
    with adm have s: "\<not> xo_running (current w)" "p = ForRoutes \<longleftrightarrow> wd_running w" "suffix todo (xo_lanes (current w))"
      "\<forall>a \<in> set (xo_lanes (current w)). lane_shut closed (wd_lanes w ! a)"
      "\<forall>a \<in> set (xo_lanes (current w)) - set todo. ln_worker (wd_lanes w ! a) = NoThread"
      "\<forall>a \<in> set (xo_lanes (current w)). ln_drain (wd_lanes w ! a) = (p \<noteq> ForStop)" by simp_all
    show ?thesis
    proof (cases todo)
      case Nil
      with s have idle: "\<forall>a \<in> set (xo_lanes (current w)). ln_worker (wd_lanes w ! a) = NoThread" by simp
      show ?thesis
      proof (cases p)
        case ForClose
        with assms(3) Joining Nil have "sh = ([], [])" "w' = w\<lparr>wd_admin := Flushing\<rparr>" by simp_all
        with s idle ForClose show ?thesis by (intro move [where ad = Flushing]) auto
      next
        case ForStop
        with assms(3) Joining Nil have "sh = ([], [])" "w' = w\<lparr>wd_admin := Replacing (xo_lanes (current w))\<rparr>"
          by simp_all
        with s idle ForStop show ?thesis
          by (intro move [where ad = "Replacing (xo_lanes (current w))"]) (auto simp: dropped_def)
      next
        case ForRoutes
        with assms(3) Joining Nil have "sh = ([], [])" "w' = (rebuild W True w)\<lparr>wd_admin := Ready\<rparr>" by simp_all
        with rebuild_ok [OF assms(1) ok calls idle s(1)] s(2) ForRoutes show ?thesis by simp
      qed
    next
      case (Cons a as)
      have a: "a \<in> set (xo_lanes (current w))" using s(3) Cons by (auto dest: set_mono_suffix)
      have al: "a < length (wd_lanes w)" by (rule current_lanes(2) [OF ok a])
      have suf: "suffix as (xo_lanes (current w))" using s(3) Cons by (auto dest: suffix_ConsD)
      show ?thesis
      proof (cases "ln_worker (wd_lanes w ! a) = NoThread")
        case True
        with assms(3) Joining Cons have "sh = ([], [])" "w' = w\<lparr>wd_admin := Joining as p\<rparr>" by simp_all
        with s suf True Cons show ?thesis by (intro move [where ad = "Joining as p"]) auto
      next
        case False
        let ?l = "(wd_lanes w ! a)\<lparr>ln_worker := NoThread\<rparr>"
        from False assms(3) Joining Cons have fin: "ln_worker (wd_lanes w ! a) = Finished" and
          w': "sh = ([], [])" "w' = (set_lane a ?l w)\<lparr>wd_admin := Joining as p\<rparr>"
          by (auto simp: Let_def split: if_splits)
        note life = lane_life_join [OF world_okD(3) [OF assms(2) al] fin]
        have sh: "lane_shut closed ?l = lane_shut closed (wd_lanes w ! a)" by (simp add: lane_shut_def)
        have "lane_shut closed (wd_lanes (set_lane a ?l w) ! b)" if "b \<in> set (xo_lanes (current w))" for b
          using sh s(4) that al by (cases "b = a") auto
        moreover have "ln_worker (wd_lanes (set_lane a ?l w) ! b) = NoThread"
          if "b \<in> set (xo_lanes (current w)) - set as" for b
          using s(5) that Cons al by (cases "b = a") auto
        moreover have "ln_drain (wd_lanes (set_lane a ?l w) ! b) = (p \<noteq> ForStop)"
          if "b \<in> set (xo_lanes (current w))" for b using s(6) that al a by (cases "b = a") auto
        ultimately have "admin_ok closed (set_lane a ?l w) (Joining as p)" using s suf by simp
        with world_ok_admin [OF ok calls al life(1) disjI2 [OF a]] w'(2) have "world_ok items closed w'" by simp
        moreover have "books P fs items w sh w'"
          by (rule books_lane [OF al _ life(2), where h = "[]" and d = "[]"])
            (use w' in \<open>simp_all add: lane_items_def\<close>)
        ultimately show ?thesis ..
      qed
    qed
  next
    case (Replacing todo)
    with adm have s: "\<not> wd_running w" "\<not> xo_running (current w)" "suffix todo (xo_lanes (current w))"
      "\<forall>a \<in> set (xo_lanes (current w)). dropped (wd_lanes w ! a)" by simp_all
    show ?thesis
    proof (cases todo)
      case Nil
      with assms(3) Replacing have "sh = ([], [])" "w' = w\<lparr>wd_admin := Flushing\<rparr>" by simp_all
      with s show ?thesis by (intro move [where ad = Flushing]) (auto simp: dropped_def)
    next
      case (Cons a as)
      have a: "a \<in> set (xo_lanes (current w))" using s(3) Cons by (auto dest: set_mono_suffix)
      have al: "a < length (wd_lanes w)" by (rule current_lanes(2) [OF ok a])
      have suf: "suffix as (xo_lanes (current w))" using s(3) Cons by (auto dest: suffix_ConsD)
      let ?l = "fresh_queue W (xo_capacity (current w)) (wd_lanes w ! a)"
      have da: "dropped (wd_lanes w ! a)" using s(4) a by blast
      note fr = lane_life_fresh [OF assms(1) da, where c = "xo_capacity (current w)"]
      let ?n = "(wd_queue_no w)(a := Suc (wd_queue_no w a))"
      from assms(3) Replacing Cons have w': "sh = ([], [])"
        "w' = (set_lane a ?l w)\<lparr>wd_queue_no := ?n, wd_admin := Replacing as\<rparr>" by simp_all
      have "dropped (wd_lanes (set_lane a ?l w) ! b)" if "b \<in> set (xo_lanes (current w))" for b
        using fr(3) s(4) that al by (cases "b = a") auto
      then have "admin_ok closed (set_lane a ?l w) (Replacing as)" using s suf by simp
      with world_ok_admin [OF ok calls al fr(1) disjI2 [OF a]]
      have "world_ok items closed ((set_lane a ?l w)\<lparr>wd_admin := Replacing as\<rparr>)" by simp
      then have "world_ok items closed w'"
        using frame_ok [of items closed "(set_lane a ?l w)\<lparr>wd_admin := Replacing as\<rparr>" w' P fs]
          world_okD(5) w'(2) by fastforce
      moreover have "books P fs items w sh w'"
        by (rule books_lane [OF al _ fr(4), where h = "[]" and d = "lane_items items (wd_lanes w ! a)"])
          (use w' fr in simp_all)
      ultimately show ?thesis ..
    qed
  next
    case Flushing
    with adm have "admin_ok closed w Renewing" by simp
    moreover have "sh = ([(ByAdmin, flush_object w)], [])" "w' = w\<lparr>wd_admin := Renewing\<rparr>"
      using assms(3) Flushing by simp_all
    ultimately show ?thesis by (intro move [where ad = Renewing]) auto
  next
    case Renewing
    with adm have s: "\<not> wd_running w" "\<forall>a \<in> set (xo_lanes (current w)). ln_worker (wd_lanes w ! a) = NoThread"
      by simp_all
    have w': "sh = ([], [])" "w' = (renew W w)\<lparr>wd_admin := Ready\<rparr>" using assms(3) Renewing by simp_all
    have "(renew W w)\<lparr>wd_admin := Ready\<rparr> = (renew W w)\<lparr>wd_accepting := wd_accepting (renew W w), wd_admin := Ready\<rparr>"
      by simp
    from renew_ok [OF assms(1) ok calls s(2,1) this] w' show ?thesis by simp
  qed
qed

subsection \<open>Every history\<close>

lemma change_routes_ok:
  assumes "world_ok items closed w" "wd_admin w = Ready"
  shows "world_ok items closed (change_routes rs w) \<and> books P fs items w ([], []) (change_routes rs w)"
  by (rule frame_ok [OF assms(1)])
    (use world_okD(5) [OF assms(1)] assms(2) in \<open>simp_all add: change_routes_def\<close>)

lemma ov_step_ok:
  assumes "workers_ok W items closed" "world_ok items closed w" "ov_step P fs W a w = Some (sh, w')"
  shows "world_ok items closed w' \<and> books P fs items w sh w'"
proof (cases a)
  case (OvCall t e f)
  with assms(3) have "call_begins P fs t e f w = (sh, w')" by (simp split: if_splits)
  from begins_ok(1,2) [OF assms(2) this] show ?thesis ..
next
  case (OvNext t)
  with assms(3) obtain c where "wd_calls w t = Some c" "call_advances P fs W t c w = Some (sh, w')"
    by (auto split: option.splits)
  from advances_ok [OF assms(1,2) this] show ?thesis .
next
  case (OvWork b)
  with assms(3) obtain es l where "b < length (wd_lanes w)" "worker_step P fs W (wd_lanes w ! b) = (es, l)"
    "sh = ([(ByWorker b, es)], [])" "w' = set_lane b l w"
    by (auto split: if_splits prod.splits)
  with work_step_ok [OF assms(1,2)] show ?thesis by simp
next
  case (OvConfigure cfg)
  with assms(3) have sh: "sh = ([], [])" and ready: "wd_admin w = Ready"
    and w': "w' = (if wd_running w then w\<lparr>wd_cfg := cfg\<rparr> else (renew W (w\<lparr>wd_cfg := cfg\<rparr>))\<lparr>wd_accepting := True\<rparr>)"
    by (auto simp: Let_def split: if_splits)
  let ?w = "w\<lparr>wd_cfg := cfg\<rparr>"
  have f: "objects_ok items closed ?w = objects_ok items closed w" "admin_ok closed ?w ad = admin_ok closed w ad"
    "call_ok ?w c = call_ok w c" "held items ?w b = held items w b" "current ?w = current w" for ad c b
    by (rule world_ok_frame; simp)+
  show ?thesis
  proof (cases "wd_running w")
    case True
    then have "w' = ?w" using w' by simp
    then show ?thesis using assms(2) f sh by (auto simp: world_ok_def intro!: books_quiet)
  next
    case False
    have "\<forall>a \<in> set (xo_lanes (current ?w)). ln_worker (wd_lanes ?w ! a) = NoThread"
      using world_okD(5) [OF assms(2)] ready False f(5) by (auto simp: current_open_def unused_def)
    moreover have "w' = (renew W ?w)\<lparr>wd_accepting := True, wd_admin := Ready\<rparr>"
      using w' False ready by (simp add: renew_def new_lanes_def Let_def)
    moreover have "objects_ok items closed ?w" "\<forall>t c. wd_calls ?w t = Some c \<longrightarrow> call_ok ?w c"
      using assms(2) f by (simp_all add: world_ok_def)
    ultimately have "world_ok items closed w' \<and> books P fs items ?w ([], []) w'"
      using renew_ok [OF assms(1), of ?w] False by simp
    then show ?thesis using sh books_from [of ?w w] by simp
  qed
next
  case (OvGlobalFilter f)
  with assms(3) have c: "sh = ([], [])" "w' = w\<lparr>wd_global_filters := wd_global_filters w @ [f]\<rparr>" by simp_all
  show ?thesis unfolding c(1)
    by (rule frame_ok [OF assms(2)]) (use world_okD(5) [OF assms(2)] c in simp_all)
next
  case OvClearGlobalFilters
  with assms(3) have c: "sh = ([], [])" "w' = w\<lparr>wd_global_filters := []\<rparr>" by simp_all
  show ?thesis unfolding c(1)
    by (rule frame_ok [OF assms(2)]) (use world_okD(5) [OF assms(2)] c in simp_all)
next
  case (OvFlush t)
  with assms(3) have c: "sh = ([(ByCaller t, flush_object w)], [])" "w' = w" by (auto split: if_splits)
  have "books P fs items w sh w" unfolding c(1) by (rule books_quiet) simp_all
  with assms(2) c(2) show ?thesis by simp
next
  case (OvAddRoute r)
  with assms(3) have "sh = ([], [])" "w' = change_routes (wd_routes w @ [r]) w" "wd_admin w = Ready"
    by (auto split: if_splits)
  with change_routes_ok [OF assms(2)] show ?thesis by simp
next
  case OvClearRoutes
  with assms(3) have "sh = ([], [])" "w' = change_routes [] w" "wd_admin w = Ready"
    by (auto split: if_splits)
  with change_routes_ok [OF assms(2)] show ?thesis by simp
next
  case OvStart
  with assms(3) have "sh = ([], [])" "w' = starts W w" "wd_admin w = Ready"
    by (auto split: if_splits)
  with starts_ok [OF assms(1,2)] show ?thesis by simp
next
  case OvClose
  with assms(3) have c: "sh = ([], [])" "w' = w\<lparr>wd_accepting := False, wd_admin := Closing\<rparr>" "wd_admin w = Ready"
    by (auto split: if_splits)
  show ?thesis unfolding c(1)
    by (rule frame_ok [OF assms(2)]) (use world_okD(5) [OF assms(2)] c in simp_all)
next
  case OvRequestStop
  with assms(3) have c: "sh = ([], [])" "w' = w\<lparr>wd_accepting := False, wd_admin := Stopping\<rparr>" "wd_admin w = Ready"
    by (auto split: if_splits)
  show ?thesis unfolding c(1)
    by (rule frame_ok [OF assms(2)]) (use world_okD(5) [OF assms(2)] c in simp_all)
next
  case OvAdmin
  with assms(3) have "admin_advances W (wd_admin w) w = Some (sh, w')" by simp
  from admin_advances_ok [OF assms(1,2) this] show ?thesis .
qed

lemma ov_run_ok:
  assumes "workers_ok W items closed"
  shows "world_ok items closed w \<Longrightarrow> ov_run P fs W acts w = Some (sh, w') \<Longrightarrow>
    world_ok items closed w' \<and> books P fs items w sh w'"
proof (induction acts arbitrary: w sh)
  case Nil
  then show ?case by (auto intro!: books_quiet)
next
  case (Cons a acts)
  obtain os1 ns1 w1 os2 ns2 where r: "ov_step P fs W a w = Some ((os1, ns1), w1)"
    "ov_run P fs W acts w1 = Some ((os2, ns2), w')" "sh = (os1 @ os2, ns1 @ ns2)"
    using Cons.prems(2) by (auto split: option.splits prod.splits)
  from ov_step_ok [OF assms Cons.prems(1) r(1)] have 1: "world_ok items closed w1"
    "books P fs items w (os1, ns1) w1" by blast+
  from Cons.IH [OF 1(1) r(2)] books_trans [OF 1(2)] r(3) show ?case by blast
qed

lemma initial_world_ok: "world_ok items closed initial_world"
  by (simp add: initial_world_def world_ok_def objects_ok_def current_open_def current_def)

lemma ov_reachable:
  assumes "workers_ok W items closed" "ov_run P fs W acts initial_world = Some ((os, ns), w)"
  shows "world_ok items closed w"
    "a < length (wd_lanes w) \<Longrightarrow>
     \<exists>h d. written a os = concat (map (process P fs (ln_route (wd_lanes w ! a))) h) \<and>
       map snd (taken_at a ns) = h @ d @ lane_items items (wd_lanes w ! a) \<and>
       (d \<noteq> [] \<longrightarrow> dropped (wd_lanes w ! a))"
proof -
  from ov_run_ok [OF assms(1) initial_world_ok assms(2)]
  have ok: "world_ok items closed w" and b: "books P fs items initial_world (os, ns) w" by blast+
  show "world_ok items closed w" by (rule ok)
  assume a: "a < length (wd_lanes w)"
  have none: "held items initial_world a = []" by (simp add: held_def initial_world_def)
  have here: "held items w a = lane_items items (wd_lanes w ! a)" using a by (simp add: held_def)
  from b obtain h d where "account P fs items initial_world (os, ns) w a h d" unfolding books_def by blast
  then show "\<exists>h d. written a os = concat (map (process P fs (ln_route (wd_lanes w ! a))) h) \<and>
      map snd (taken_at a ns) = h @ d @ lane_items items (wd_lanes w ! a) \<and>
      (d \<noteq> [] \<longrightarrow> dropped (wd_lanes w ! a))"
    using none here by (intro exI [of _ h] exI [of _ d]) (simp add: account_def handled_def)
qed

end
