(* ===== verification/Overlap_Calls.thy ===== *)
theory Overlap_Calls
  imports Overlap
begin

section \<open>What overlapping calls can count on\<close>

text \<open>
  Consequences for histories of \<open>Overlap\<close>: what lanes do with the events they take, the order in which
  they take those of one thread, what is lost, that lifecycle calls end, and that a call nobody
  disturbs is \<open>submit\<close> of \<open>Pipeline\<close>.
\<close>

lemma ov_run_append:
  "ov_run P fs W (as @ bs) w =
     (case ov_run P fs W as w of
        None \<Rightarrow> None
      | Some ((os, ns), w1) \<Rightarrow>
          (case ov_run P fs W bs w1 of
             None \<Rightarrow> None
           | Some ((os', ns'), w2) \<Rightarrow> Some ((os @ os', ns @ ns'), w2)))"
  by (induction as arbitrary: w) (auto split: option.splits prod.splits)

subsection \<open>A lane whose worker is gone has delivered\<close>

lemma world_idle:
  assumes "world_ok items closed w" "wd_admin w = Ready" "\<not> wd_running w" "a < length (wd_lanes w)"
  shows "ln_worker (wd_lanes w ! a) = NoThread"
proof (cases "a \<in> set (xo_lanes (current w))")
  case True
  then show ?thesis using world_okD(5) [OF assms(1)] assms(2,3) by (simp add: current_open_def unused_def)
next
  case False
  then show ?thesis using world_okD(4) [OF assms(1)] assms(4) by (simp add: objects_ok_def)
qed

lemma joined_lane_delivered:
  assumes "workers_ok W items closed"
    "ov_run P fs W acts1 initial_world = Some ((os1, ns1), w1)" "a < length (wd_lanes w1)"
    "ln_worker (wd_lanes w1 ! a) \<noteq> NoThread"
    "ov_run P fs W acts2 w1 = Some ((os2, ns2), w2)"
    "ln_worker (wd_lanes w2 ! a) = NoThread \<or> wd_admin w2 = Ready \<and> \<not> wd_running w2"
  shows "\<exists>h rest. map snd (taken_at a (ns1 @ ns2)) = h @ rest \<and>
    written a (os1 @ os2) = concat (map (process P fs (ln_route (wd_lanes w1 ! a))) h) \<and>
    (ln_drain (wd_lanes w2 ! a) \<longrightarrow> rest = [])"
proof -
  from ov_run_ok [OF assms(1) initial_world_ok assms(2)] have
    1: "world_ok items closed w1" "books P fs items initial_world (os1, ns1) w1" by blast+
  from ov_run_ok [OF assms(1) 1(1) assms(5)] have
    2: "world_ok items closed w2" "books P fs items w1 (os2, ns2) w2" by blast+
  then have g: "a < length (wd_lanes w2)" "lane_grows (wd_lanes w1 ! a) (wd_lanes w2 ! a)"
    using assms(3) by (auto simp: books_def grows_def)
  have la: "launched (wd_lanes w2 ! a)" and route: "ln_route (wd_lanes w2 ! a) = ln_route (wd_lanes w1 ! a)"
    using g(2) assms(4) by (simp_all add: lane_grows_def launched_def)
  have "ov_run P fs W (acts1 @ acts2) initial_world = Some ((os1 @ os2, ns1 @ ns2), w2)"
    unfolding ov_run_append using assms(2,5) by simp
  from ov_reachable(2) [OF assms(1) this g(1)] obtain h d where
    h: "written a (os1 @ os2) = concat (map (process P fs (ln_route (wd_lanes w2 ! a))) h)"
      "map snd (taken_at a (ns1 @ ns2)) = h @ d @ lane_items items (wd_lanes w2 ! a)"
      "d \<noteq> [] \<longrightarrow> dropped (wd_lanes w2 ! a)" by blast
  have "ln_worker (wd_lanes w2 ! a) = NoThread"
    using assms(6) world_idle [OF 2(1) _ _ g(1)] by blast
  moreover from this have "ln_stop (wd_lanes w2 ! a)" using la by (simp add: launched_def)
  moreover have "lane_life items closed (wd_lanes w2 ! a)" by (rule world_okD(3) [OF 2(1) g(1)])
  ultimately have "ln_drain (wd_lanes w2 ! a) \<longrightarrow> d @ lane_items items (wd_lanes w2 ! a) = []"
    using h(3) by (auto simp: lane_life_def dropped_def)
  with h(1,2) route show ?thesis
    by (intro exI [of _ h] exI [of _ "d @ lane_items items (wd_lanes w2 ! a)"]) simp
qed

subsection \<open>The order of a thread's calls\<close>

text \<open>What a call may still push to lane object \<open>a\<close>.\<close>

fun in_flight :: "nat \<Rightarrow> call_at \<Rightarrow> event list" where
  "in_flight a (Selected e m) = [e]"
| "in_flight a (Loaded e m c) = [e]"
| "in_flight a (Checked e m c) = [e]"
| "in_flight a (Fanning e m ls i) = (if a \<in> set (drop i ls) then [e] else [])"
| "in_flight a (Waiting e m ls i n) = (if a \<in> set (drop i ls) then [e] else [])"

definition pending :: "nat \<Rightarrow> 'q world \<Rightarrow> nat \<Rightarrow> event list" where
  "pending a w t = (case wd_calls w t of None \<Rightarrow> [] | Some c \<Rightarrow> in_flight a c)"

lemma pending_initial: "pending a initial_world t = []"
  by (simp add: pending_def initial_world_def)

fun ov_call :: "ov_action \<Rightarrow> (nat \<times> event) list" where
  "ov_call (OvCall t e f) = [(t, e)]"
| "ov_call _ = []"

definition ov_calls :: "ov_action list \<Rightarrow> (nat \<times> event) list" where
  "ov_calls as = concat (map ov_call as)"

lemma ov_calls_simps [simp]:
  "ov_calls [] = []" "ov_calls (a # as) = ov_call a @ ov_calls as"
  by (simp_all add: ov_calls_def)

lemma no_news: "wd_calls w' = wd_calls w \<Longrightarrow> ns = [] \<Longrightarrow>
    subseq (by_thread t (taken_at a ns) @ pending a w' t) (pending a w t @ x)"
  by (simp add: pending_def list_emb_prefix)

lemma drop_Suc_notin: "distinct ls \<Longrightarrow> i < length ls \<Longrightarrow> ls ! i \<notin> set (drop (Suc i) ls)"
  by (metis Cons_nth_drop_Suc distinct.simps(2) distinct_drop)

lemma at_lane_order:
  assumes "workers_ok W items closed" "world_ok items closed w" "wd_calls w u = Some c"
    "c = Fanning e m ls i \<or> c = Waiting e m ls i n" "i < length ls" "call_at_lane W u e m ls i w = (sh, w')"
  shows "subseq (by_thread t (taken_at a (snd sh)) @ pending a w' t) (pending a w t)"
proof -
  have cok: "call_ok w (Fanning e m ls i)" using world_okD(1) [OF assms(2,3)] assms(4) by auto
  then have d: "distinct ls" by simp
  have now: "in_flight a c = (if a \<in> set (drop i ls) then [e] else [])" using assms(4) by auto
  from at_lane_ok [OF assms(1,2) cok assms(5,6), of P fs] have
    c: "\<forall>b. taken_at b (snd sh) = [] \<or> b = ls ! i \<and> taken_at b (snd sh) = [(u, e)]"
      "(\<exists>n. wd_calls w' = (wd_calls w)(u \<mapsto> Waiting e m ls i n)) \<and> snd sh = [] \<or>
       wd_calls w' = (wd_calls w)(u \<mapsto> Fanning e m ls (Suc i))"
    by blast+
  from c(2) show ?thesis
  proof
    assume "(\<exists>n. wd_calls w' = (wd_calls w)(u \<mapsto> Waiting e m ls i n)) \<and> snd sh = []"
    then show ?thesis using now assms(3) by (auto simp: pending_def)
  next
    assume n: "wd_calls w' = (wd_calls w)(u \<mapsto> Fanning e m ls (Suc i))"
    have dr: "drop i ls = ls ! i # drop (Suc i) ls" using assms(5) by (simp add: Cons_nth_drop_Suc)
    show ?thesis
    proof (cases "t = u")
      case True
      then show ?thesis using c(1) [rule_format, of a] assms(3) n now dr drop_Suc_notin [OF d assms(5)]
        by (auto simp: pending_def)
    next
      case False
      then have "by_thread t (taken_at a (snd sh)) = []" using c(1) [rule_format, of a] by auto
      then show ?thesis using False n by (simp add: pending_def)
    qed
  qed
qed

lemma step_order:
  assumes "workers_ok W items closed" "world_ok items closed w" "ov_step P fs W b w = Some (sh, w')"
  shows "subseq (by_thread t (taken_at a (snd sh)) @ pending a w' t) (pending a w t @ by_thread t (ov_call b))"
proof (cases b)
  case (OvCall u e f)
  with assms(3) have c: "wd_calls w u = None" "call_begins P fs u e f w = (sh, w')" by (auto split: if_splits)
  from begins_ok(3,4) [OF assms(2) c(2)] show ?thesis
    using c(1) OvCall by (auto simp: pending_def set_call_def)
next
  case (OvNext u)
  with assms(3) obtain c where c: "wd_calls w u = Some c" "call_advances P fs W u c w = Some (sh, w')"
    by (auto split: option.splits)
  show ?thesis
  proof (cases c)
    case (Fanning e m ls i)
    show ?thesis
    proof (cases "i < length ls \<and> i < 64")
      case True
      with c(2) Fanning have "call_at_lane W u e m ls i w = (sh, w')" by simp
      from at_lane_order [OF assms(1,2) c(1) _ _ this, of 0 t a] True OvNext Fanning
      show ?thesis by simp
    next
      case False
      with c Fanning OvNext show ?thesis by (auto simp: pending_def)
    qed
  next
    case (Waiting e m ls i n)
    with c(2) have "call_at_lane W u e m ls i w = (sh, w')" by (simp split: if_splits)
    moreover have "i < length ls" using world_okD(1) [OF assms(2) c(1)] Waiting by simp
    ultimately show ?thesis using at_lane_order [OF assms(1,2) c(1), of e m ls i n sh w' t a] OvNext Waiting
      by simp
  qed (use c OvNext in \<open>auto simp: pending_def split: if_splits\<close>)
next
  case OvAdmin
  with assms(3) have "admin_advances W (wd_admin w) w = Some (sh, w')" by simp
  then have "wd_calls w' = wd_calls w \<and> snd sh = []"
    by (cases "(W, wd_admin w, w)" rule: admin_advances.cases)
      (auto simp: stop_begins_def rebuild_def renew_def new_lanes_def Let_def set_current_def set_lane_def
        split: if_splits)
  then show ?thesis by (intro no_news) simp_all
qed (use assms(3) in \<open>auto simp: pending_def change_routes_def starts_def renew_def new_lanes_def
      set_current_def Let_def split: if_splits prod.splits\<close>)

lemma subseq_chain:
  assumes "subseq (x1 @ p1) (p0 @ c1)" "subseq (x2 @ p2) (p1 @ c2)"
  shows "subseq ((x1 @ x2) @ p2) (p0 @ c1 @ c2)"
proof -
  have "subseq (x1 @ x2 @ p2) (x1 @ p1 @ c2)"
    by (rule list_emb_append_mono [OF _ assms(2)]) simp
  moreover have "subseq ((x1 @ p1) @ c2) ((p0 @ c1) @ c2)"
    using assms(1) by (rule list_emb_append_mono) simp
  ultimately show ?thesis by (simp add: subseq_order.order_trans)
qed

lemma run_order:
  assumes "workers_ok W items closed"
  shows "world_ok items closed w \<Longrightarrow> ov_run P fs W acts w = Some ((os, ns), w') \<Longrightarrow>
    subseq (by_thread t (taken_at a ns) @ pending a w' t) (pending a w t @ by_thread t (ov_calls acts))"
proof (induction acts arbitrary: w os ns)
  case Nil
  then show ?case by simp
next
  case (Cons b acts)
  obtain os1 ns1 w1 os2 ns2 where r: "ov_step P fs W b w = Some ((os1, ns1), w1)"
    "ov_run P fs W acts w1 = Some ((os2, ns2), w')" "ns = ns1 @ ns2"
    using Cons.prems(2) by (auto split: option.splits prod.splits)
  from ov_step_ok [OF assms Cons.prems(1) r(1)] have ok: "world_ok items closed w1" by blast
  have "subseq (by_thread t (taken_at a ns1) @ pending a w1 t) (pending a w t @ by_thread t (ov_call b))"
    using step_order [OF assms Cons.prems(1) r(1), of t a] by simp
  from subseq_chain [OF this Cons.IH [OF ok r(2)]] r(3) show ?case by simp
qed


text \<open>
  A history: a thread logs; another has copied the lanes' pointers when the pipeline is closed, and
  finds its lane shut.
\<close>

definition overtaken_opening :: "ov_action list" where
  "overtaken_opening =
     [OvConfigure (asynchronous 2), OvAddRoute plain_route, OvAdmin, OvStart,
      OvCall 0 sample_event False, OvNext 0, OvNext 0, OvNext 0, OvNext 0, OvNext 0]"

definition overtaken_closing :: "ov_action list" where
  "overtaken_closing =
     [OvCall 1 second_event False, OvNext 1, OvNext 1, OvNext 1, OvClose, OvAdmin, OvAdmin, OvNext 1,
      OvWork 0, OvWork 0, OvWork 0, OvAdmin, OvAdmin, OvAdmin, OvAdmin, OvAdmin]"

lemma overtaken_history:
  obtains os1 ns1 w1 os2 ns2 w2 where
    "ov_run plain_platform info_store list_workers overtaken_opening initial_world = Some ((os1, ns1), w1)"
    "0 < length (wd_lanes w1)" "ln_worker (wd_lanes w1 ! 0) \<noteq> NoThread"
    "ov_run plain_platform info_store list_workers overtaken_closing w1 = Some ((os2, ns2), w2)"
    "wd_admin w2 = Ready \<and> \<not> wd_running w2 \<and> ln_drain (wd_lanes w2 ! 0)" "ns1 @ ns2 = [Took 0 sample_event 0, Declined 1 second_event 0]"
    "written 0 (os1 @ os2) = [SinkWrite 0 (''hi'' @ [newline])]"
proof -
  have "case ov_run plain_platform info_store list_workers overtaken_opening initial_world of None \<Rightarrow> False
      | Some ((os1, ns1), w1) \<Rightarrow>
          0 < length (wd_lanes w1) \<and> ln_worker (wd_lanes w1 ! 0) \<noteq> NoThread \<and>
          (case ov_run plain_platform info_store list_workers overtaken_closing w1 of None \<Rightarrow> False
           | Some ((os2, ns2), w2) \<Rightarrow> wd_admin w2 = Ready \<and> \<not> wd_running w2 \<and> ln_drain (wd_lanes w2 ! 0) \<and>
               ns1 @ ns2 = [Took 0 sample_event 0, Declined 1 second_event 0] \<and>
               written 0 (os1 @ os2) = [SinkWrite 0 (''hi'' @ [newline])])"
    by code_simp
  then show ?thesis using that by (auto split: option.splits)
qed

text \<open>
  C4. Whatever logging calls overlap a lifecycle call: once a lane that had a worker has none any
  more, or the pipeline has been closed or stopped, what the worker has written is the output for the
  first of the events the lane has ever taken, in the order it took them, and for all of them unless
  \<open>request_stop\<close> has told the lane not to drain. So with \<open>close\<close> and changes of the routes no event
  that a call was told is queued is lost, and none is written twice.
\<close>

theorem overlapping_calls_deliver:
  assumes "workers_ok W items closed"
    "ov_run P fs W acts1 initial_world = Some ((os1, ns1), w1)" "a < length (wd_lanes w1)"
    "ln_worker (wd_lanes w1 ! a) \<noteq> NoThread"
    "ov_run P fs W acts2 w1 = Some ((os2, ns2), w2)"
    "ln_worker (wd_lanes w2 ! a) = NoThread \<or> wd_admin w2 = Ready \<and> \<not> wd_running w2"
  shows "\<exists>h rest. map snd (taken_at a (ns1 @ ns2)) = h @ rest \<and>
    written a (os1 @ os2) = concat (map (process P fs (ln_route (wd_lanes w1 ! a))) h) \<and>
    (ln_drain (wd_lanes w2 ! a) \<longrightarrow> rest = [])"
  by (rule joined_lane_delivered [OF assms])

theorem overlapping_calls_deliver_witness:
  "\<exists>os1 ns1 w1 os2 ns2 w2.
    ov_run plain_platform info_store list_workers overtaken_opening initial_world = Some ((os1, ns1), w1) \<and>
    ov_run plain_platform info_store list_workers overtaken_closing w1 = Some ((os2, ns2), w2) \<and>
    written 0 (os1 @ os2) = [SinkWrite 0 (''hi'' @ [newline])] \<and>
    written 0 (os1 @ os2) = process plain_platform info_store (ln_route (wd_lanes w1 ! 0)) sample_event"
proof -
  obtain os1 ns1 w1 os2 ns2 w2 where r:
    "ov_run plain_platform info_store list_workers overtaken_opening initial_world = Some ((os1, ns1), w1)"
    "0 < length (wd_lanes w1)" "ln_worker (wd_lanes w1 ! 0) \<noteq> NoThread"
    "ov_run plain_platform info_store list_workers overtaken_closing w1 = Some ((os2, ns2), w2)"
    "wd_admin w2 = Ready \<and> \<not> wd_running w2 \<and> ln_drain (wd_lanes w2 ! 0)" "ns1 @ ns2 = [Took 0 sample_event 0, Declined 1 second_event 0]"
    "written 0 (os1 @ os2) = [SinkWrite 0 (''hi'' @ [newline])]"
    by (rule overtaken_history)
  from overlapping_calls_deliver [OF list_workers_ok r(1-4)] r(5,6)
  have "written 0 (os1 @ os2) = process plain_platform info_store (ln_route (wd_lanes w1 ! 0)) sample_event" by simp
  with r(1,4,7) show ?thesis by blast
qed

text \<open>
  C10. Every lane takes the events of one thread in the order of its calls, and each call at most
  once, however the calls overlap each other, the workers and lifecycle calls that close the
  lane, replace it or replace its crossbar.
\<close>

theorem overlapping_calls_in_order:
  assumes "workers_ok W items closed" "ov_run P fs W acts initial_world = Some ((os, ns), w)"
  shows "subseq (by_thread t (taken_at a ns)) (by_thread t (ov_calls acts))"
proof -
  from run_order [OF assms(1) initial_world_ok assms(2), of t a]
  have "subseq (by_thread t (taken_at a ns) @ pending a w t) (by_thread t (ov_calls acts))"
    by (simp add: pending_initial)
  moreover have "subseq (by_thread t (taken_at a ns)) (by_thread t (taken_at a ns) @ pending a w t)"
    by (simp add: list_emb_prefix)
  ultimately show ?thesis by (rule subseq_order.order_trans [rotated])
qed

theorem overlapping_calls_in_order_witness:
  "\<exists>os ns w. ov_run plain_platform info_store list_workers overtaken_opening initial_world = Some ((os, ns), w) \<and>
    subseq (by_thread 0 (taken_at 0 ns)) [sample_event]"
proof -
  obtain os ns w where r:
    "ov_run plain_platform info_store list_workers overtaken_opening initial_world = Some ((os, ns), w)"
    by (rule overtaken_history)
  from overlapping_calls_in_order [OF list_workers_ok r, of 0 0] r show ?thesis
    by (simp add: overtaken_opening_def)
qed


subsection \<open>Lifecycle calls end\<close>

fun background :: "ov_action \<Rightarrow> bool" where
  "background OvAdmin = True"
| "background (OvWork a) = True"
| "background _ = False"

definition ends :: "platform \<Rightarrow> filter_store \<Rightarrow> 'q workers \<Rightarrow> 'q world \<Rightarrow> bool" where
  "ends P fs W w \<longleftrightarrow> (\<exists>acts sh w'. list_all background acts \<and> ov_run P fs W acts w = Some (sh, w') \<and>
     wd_admin w' = Ready \<and> wd_calls w' = wd_calls w)"

lemma admin_advances_calls:
  "admin_advances W (wd_admin w) w = Some (sh, w') \<Longrightarrow> wd_calls w' = wd_calls w \<and> snd sh = []"
  by (cases "(W, wd_admin w, w)" rule: admin_advances.cases)
    (auto simp: stop_begins_def rebuild_def renew_def new_lanes_def Let_def set_current_def set_lane_def
      split: if_splits)

lemma background_calls: "background b \<Longrightarrow> ov_step P fs W b w = Some (sh, w') \<Longrightarrow> wd_calls w' = wd_calls w"
  by (cases b) (auto dest: admin_advances_calls split: if_splits prod.splits)

lemma ends_step:
  assumes "background b" "ov_step P fs W b w = Some (sh, w1)" "ends P fs W w1"
  shows "ends P fs W w"
proof -
  from assms(3) obtain acts os ns w' where r: "list_all background acts"
    "ov_run P fs W acts w1 = Some ((os, ns), w')" "wd_admin w' = Ready" "wd_calls w' = wd_calls w1"
    by (auto simp: ends_def)
  have "ov_run P fs W (b # acts) w = Some ((fst sh @ os, snd sh @ ns), w')"
    using assms(2) r(2) by (cases sh) simp
  moreover have "list_all background (b # acts)" using assms(1) r(1) by simp
  moreover have "wd_calls w' = wd_calls w" using background_calls [OF assms(1,2)] r(4) by simp
  ultimately show ?thesis unfolding ends_def using r(3) by blast
qed

lemma ends_admin:
  "admin_advances W (wd_admin w) w = Some (sh, w1) \<Longrightarrow> ends P fs W w1 \<Longrightarrow> ends P fs W w"
  by (rule ends_step [of OvAdmin]) simp_all

lemma ends_ready: "wd_admin w = Ready \<Longrightarrow> ends P fs W w"
  unfolding ends_def by (intro exI [of _ "[]"]) simp

lemma ends_replacing: "(\<And>w. wd_admin w = Flushing \<Longrightarrow> ends P fs W w) \<Longrightarrow> wd_admin w = Replacing todo \<Longrightarrow> ends P fs W w"
proof (induction todo arbitrary: w)
  case Nil
  show ?case by (rule ends_admin [of W w "([], [])" "w\<lparr>wd_admin := Flushing\<rparr>"]) (use Nil in simp_all)
next
  case (Cons a todo)
  let ?w = "(set_lane a (fresh_queue W (xo_capacity (current w)) (wd_lanes w ! a)) w)
       \<lparr>wd_queue_no := (wd_queue_no w)(a := Suc (wd_queue_no w a)), wd_admin := Replacing todo\<rparr>"
  have "ends P fs W ?w" by (rule Cons.IH [OF Cons.prems(1)]) simp_all
  then show ?case by (rule ends_admin [rotated]) (use Cons.prems(2) in simp)
qed

lemma ends_tail:
  "wd_admin w = Renewing \<Longrightarrow> ends P fs W w"
  "wd_admin w = Flushing \<Longrightarrow> ends P fs W w"
  "wd_admin w = Joining [] p \<Longrightarrow> ends P fs W w"
  "wd_admin w = Replacing ls \<Longrightarrow> ends P fs W w"
proof -
  show renewing: "ends P fs W w" if "wd_admin w = Renewing" for w
    by (rule ends_admin) (use that in \<open>auto intro: ends_ready\<close>)
  show flushing: "ends P fs W w" if "wd_admin w = Flushing" for w
    by (rule ends_admin) (use that in \<open>auto intro: renewing\<close>)
  show replacing: "ends P fs W w" if "wd_admin w = Replacing ls" for w ls
    using flushing that by (rule ends_replacing)
  show "ends P fs W w" if "wd_admin w = Joining [] p"
    by (cases p; rule ends_admin) (use that in \<open>auto intro: ends_ready flushing replacing\<close>)
qed

lemma ends_joining:
  assumes "workers_ok W items closed"
  shows "world_ok items closed w \<Longrightarrow> wd_admin w = Joining todo p \<Longrightarrow> ends P fs W w"
proof (induction todo arbitrary: w)
  case Nil
  from ends_tail(3) [OF Nil.prems(2)] show ?case .
next
  case (Cons a todo)
  note outer = Cons.IH
  from Cons.prems show ?case
  proof (induction "rank items (wd_lanes w ! a)" arbitrary: w rule: less_induct)
    case less
    have "admin_ok closed w (Joining (a # todo) p)" using world_okD(5) [OF less.prems(1)] less.prems(2) by simp
    then have a: "a \<in> set (xo_lanes (current w))" "lane_shut closed (wd_lanes w ! a)"
      by (auto dest: set_mono_suffix)
    have al: "a < length (wd_lanes w)" by (rule current_lanes(2) [OF world_okD(4) [OF less.prems(1)] a(1)])
    have goes: "ends P fs W w" if adv: "admin_advances W (wd_admin w) w = Some (sh, w1)"
      "wd_admin w1 = Joining todo p" for sh w1
    proof (rule ends_admin [OF adv(1)])
      from admin_advances_ok [OF assms less.prems(1) adv(1)] have "world_ok items closed w1" by blast
      then show "ends P fs W w1" using adv(2) by (rule outer)
    qed
    consider (gone) "ln_worker (wd_lanes w ! a) \<in> {NoThread, Finished}"
      | (works) "ln_worker (wd_lanes w ! a) \<in> {Popping, Draining}"
      by (cases "ln_worker (wd_lanes w ! a)") auto
    then show ?case
    proof cases
      case gone
      then show ?thesis using goes less.prems(2) by (auto simp: Let_def)
    next
      case works
      obtain es l where l: "worker_step P fs W (wd_lanes w ! a) = (es, l)" by fastforce
      let ?w = "set_lane a l w"
      have ok: "world_ok items closed ?w" using work_step_ok [OF assms less.prems(1) al l] by blast
      from lane_life_work [OF assms world_okD(3) [OF less.prems(1) al] l]
      have "rank items l < rank items (wd_lanes w ! a)" using works a(2) by blast
      then have "ends P fs W ?w" using al less.prems(2) by (intro less.hyps [OF _ ok]) simp_all
      then show ?thesis by (rule ends_step [of "OvWork a", rotated 2]) (use al l in simp_all)
    qed
  qed
qed

lemma ends_signalling:
  assumes "workers_ok W items closed"
  shows "world_ok items closed w \<Longrightarrow> wd_admin w = Signalling todo ls p \<Longrightarrow> ends P fs W w"
proof (induction todo arbitrary: w)
  case Nil
  then have adv: "admin_advances W (wd_admin w) w = Some (([], []), w\<lparr>wd_admin := Joining ls p\<rparr>)" by simp
  from admin_advances_ok [OF assms Nil.prems(1) adv]
  have "world_ok items closed (w\<lparr>wd_admin := Joining ls p\<rparr>)" by blast
  then show ?case by (intro ends_admin [OF adv] ends_joining [OF assms]) simp_all
next
  case (Cons a todo)
  let ?w = "(set_lane a (signal_stop W (p \<noteq> ForStop) (wd_lanes w ! a)) w)\<lparr>wd_admin := Signalling todo ls p\<rparr>"
  have adv: "admin_advances W (wd_admin w) w = Some (([], []), ?w)" using Cons.prems(2) by simp
  from admin_advances_ok [OF assms Cons.prems(1) adv] have "world_ok items closed ?w" by blast
  then show ?case by (intro ends_admin [OF adv] Cons.IH) simp_all
qed

lemma world_ends:
  assumes "workers_ok W items closed" "world_ok items closed w"
  shows "ends P fs W w"
proof -
  have stops: "ends P fs W w"
    if adv: "admin_advances W (wd_admin w) w = Some (sh, stop_begins p v)" for sh p v
  proof (rule ends_admin [OF adv])
    have ok: "world_ok items closed (stop_begins p v)"
      using admin_advances_ok [OF assms adv] by blast
    have "wd_admin (stop_begins p v) = Joining [] p \<or>
        (\<exists>ls. wd_admin (stop_begins p v) = Signalling ls ls p)"
      by (simp add: stop_begins_def Let_def)
    then show "ends P fs W (stop_begins p v)"
      using ends_tail(3) ends_signalling [OF assms(1) ok] by blast
  qed
  show ?thesis
  proof (cases "wd_admin w")
    case Configuring
    show ?thesis
    proof (cases "xo_running (current w)")
      case True
      with Configuring show ?thesis by (intro stops [of "([], [])" ForRoutes w]) simp
    next
      case False
      with Configuring show ?thesis by (intro ends_admin [of W w "([], [])" "(rebuild W False w)\<lparr>wd_admin := Ready\<rparr>"] ends_ready) simp_all
    qed
  next
    case Closing
    then show ?thesis by (intro stops) simp
  next
    case Stopping
    then show ?thesis by (intro stops) simp
  qed (simp_all add: ends_ready ends_tail ends_joining [OF assms] ends_signalling [OF assms])
qed

text \<open>
  C13. A lifecycle call ends: from every state that any overlapping of calls can reach, steps of the
  thread that makes the call and of the workers alone complete it, whatever the calling threads
  are in the middle of; their calls stay as they are.
\<close>

theorem lifecycle_call_completes:
  assumes "workers_ok W items closed" "ov_run P fs W acts initial_world = Some (sh, w)"
  shows "\<exists>acts' sh' w'. list_all background acts' \<and> ov_run P fs W acts' w = Some (sh', w') \<and>
    wd_admin w' = Ready \<and> wd_calls w' = wd_calls w"
proof -
  from ov_run_ok [OF assms(1) initial_world_ok assms(2)] have "world_ok items closed w" by blast
  from world_ends [OF assms(1) this, of P fs] show ?thesis by (simp add: ends_def)
qed

lemma closing_halfway:
  obtains sh w where "ov_run plain_platform info_store list_workers (overtaken_opening @ take 6 overtaken_closing)
      initial_world = Some (sh, w)" "wd_admin w \<noteq> Ready" "wd_calls w 1 \<noteq> None"
proof -
  have "case ov_run plain_platform info_store list_workers (overtaken_opening @ take 6 overtaken_closing)
      initial_world of None \<Rightarrow> False | Some (sh, w) \<Rightarrow> wd_admin w \<noteq> Ready \<and> wd_calls w 1 \<noteq> None"
    by code_simp
  then show ?thesis using that by (auto split: option.splits)
qed

theorem lifecycle_call_completes_witness:
  "\<exists>sh w acts' sh' w'. ov_run plain_platform info_store list_workers
      (overtaken_opening @ take 6 overtaken_closing) initial_world = Some (sh, w) \<and> wd_admin w \<noteq> Ready \<and>
    ov_run plain_platform info_store list_workers acts' w = Some (sh', w') \<and> wd_admin w' = Ready \<and>
    wd_calls w' 1 \<noteq> None"
proof -
  obtain sh w where r: "ov_run plain_platform info_store list_workers
      (overtaken_opening @ take 6 overtaken_closing) initial_world = Some (sh, w)" "wd_admin w \<noteq> Ready"
      "wd_calls w 1 \<noteq> None"
    by (rule closing_halfway)
  from lifecycle_call_completes [OF list_workers_ok r(1)] r show ?thesis by metis
qed

subsection \<open>An event lost to a new route\<close>

definition losing :: "ov_action list" where
  "losing =
     [OvConfigure (asynchronous 2), OvAddRoute plain_route, OvAdmin, OvStart,
      OvCall 1 second_event False, OvNext 1, OvNext 1, OvNext 1,
      OvAddRoute plain_route, OvAdmin, OvAdmin, OvAdmin, OvWork 0, OvWork 0, OvAdmin, OvAdmin,
      OvNext 1, OvNext 1]"

text \<open>
  C33. Adding a route to a running pipeline can lose an event that is being logged: a call that has copied the
  pointers to the lanes before \<open>add_route\<close> rebuilds them finds its lane closed and returns,
  although its route blocks when full, the lane's queue is empty, and the pipeline accepts events and runs all
  the time. No lane has the event, and nothing is written anywhere.
\<close>

theorem add_route_loses_event:
  "\<exists>os ns w. ov_run plain_platform info_store list_workers losing initial_world = Some ((os, ns), w) \<and>
    OvClose \<notin> set losing \<and> wd_accepting w \<and> wd_running w \<and> wd_admin w = Ready \<and> wd_calls w 1 = None \<and>
    map rt_strategy (wd_routes w) = [Some BlockWhenFull, Some BlockWhenFull] \<and>
    ns = [Declined 1 second_event 0] \<and> map (lane_items fst) (wd_lanes w) = [[], [], []] \<and>
    concat (map snd os) = []"
proof -
  have "case ov_run plain_platform info_store list_workers losing initial_world of None \<Rightarrow> False
      | Some ((os, ns), w) \<Rightarrow> wd_accepting w \<and> wd_running w \<and> wd_admin w = Ready \<and> wd_calls w 1 = None \<and>
          map rt_strategy (wd_routes w) = [Some BlockWhenFull, Some BlockWhenFull] \<and>
          ns = [Declined 1 second_event 0] \<and> map (lane_items fst) (wd_lanes w) = [[], [], []] \<and>
          concat (map snd os) = []"
    by code_simp
  moreover have "OvClose \<notin> set losing" by (simp add: losing_def)
  ultimately show ?thesis by (auto split: option.splits)
qed


subsection \<open>A call that nothing overlaps\<close>

text \<open>The pipeline of \<open>Pipeline\<close> that a state stands for: the lanes of the current crossbar, by value.\<close>

definition pipeline_of :: "'q world \<Rightarrow> 'q pipeline" where
  "pipeline_of w =
     \<lparr>pl_cfg = wd_cfg w, pl_global_filters = wd_global_filters w, pl_routes = wd_routes w,
      pl_running = wd_running w, pl_accepting = wd_accepting w,
      pl_crossbar = Some \<lparr>xb_capacity = xo_capacity (current w), xb_running = xo_running (current w),
                          xb_lanes = map ((!) (wd_lanes w)) (xo_lanes (current w))\<rparr>,
      pl_cache = wd_cache w\<rparr>"

lemma map_nth_update:
  assumes "distinct ls" "i < length ls" "\<forall>a \<in> set ls. a < length xs"
  shows "map ((!) (xs[ls ! i := l])) ls = (map ((!) xs) ls)[i := l]"
  using assms by (intro nth_equalityI) (auto simp: nth_list_update nth_eq_iff_index_eq)

lemma take_Suc_update: "i < length xs \<Longrightarrow> take (Suc i) (xs[i := l]) = take i xs @ [l]"
  by (simp add: take_Suc_conv_app_nth)

definition fans_out ::
  "platform \<Rightarrow> filter_store \<Rightarrow> 'q workers \<Rightarrow> nat \<Rightarrow> event \<Rightarrow> u64 \<Rightarrow> nat list \<Rightarrow> 'q world \<Rightarrow>
   submit_result \<Rightarrow> 'q lane list \<Rightarrow> bool" where
  "fans_out P fs W t e m ls w r lanes \<longleftrightarrow>
     (\<exists>k ns L c. ov_run P fs W (replicate k (OvNext t)) w =
        Some (([], ns), w\<lparr>wd_lanes := L, wd_calls := (wd_calls w)(t := c)\<rparr>) \<and>
      map ((!) L) ls = lanes \<and>
      (case r of Submitted d \<Rightarrow> c = None | BlockedAt j d \<Rightarrow> \<exists>n. c = Some (Waiting e m ls j n)))"

lemma fans_out_last:
  assumes "ov_step P fs W (OvNext t) w = Some (([], ns), w\<lparr>wd_lanes := L, wd_calls := (wd_calls w)(t := c)\<rparr>)"
    "map ((!) L) ls = lanes" "case r of Submitted d \<Rightarrow> c = None | BlockedAt j d \<Rightarrow> \<exists>n. c = Some (Waiting e m ls j n)"
  shows "fans_out P fs W t e m ls w r lanes"
  unfolding fans_out_def using assms
  by (intro exI [of _ "Suc 0"] exI [of _ ns] exI [of _ L] exI [of _ c]) simp

lemma fans_out_step:
  assumes "ov_step P fs W (OvNext t) w = Some (([], ns), w1)" "fans_out P fs W t e m ls w1 r lanes"
    "w1 = w\<lparr>wd_lanes := L, wd_calls := (wd_calls w)(t := c)\<rparr>"
  shows "fans_out P fs W t e m ls w r lanes"
proof -
  from assms(2) obtain k ns' L' c' where "ov_run P fs W (replicate k (OvNext t)) w1 =
      Some (([], ns'), w1\<lparr>wd_lanes := L', wd_calls := (wd_calls w1)(t := c')\<rparr>)" "map ((!) L') ls = lanes"
    "case r of Submitted d \<Rightarrow> c' = None | BlockedAt j d \<Rightarrow> \<exists>n. c' = Some (Waiting e m ls j n)"
    by (auto simp: fans_out_def)
  with assms(1,3) show ?thesis unfolding fans_out_def
    by (intro exI [of _ "Suc k"] exI [of _ "ns @ ns'"] exI [of _ L'] exI [of _ c']) simp
qed

lemma fan_out_is_submit_loop:
  assumes "distinct ls"
  shows "wd_calls w t = Some (Fanning e m ls i) \<Longrightarrow> i \<le> length ls \<Longrightarrow> \<forall>a \<in> set ls. a < length (wd_lanes w) \<Longrightarrow>
    submit_loop W e m (wd_accepting w) i d (drop i (map ((!) (wd_lanes w)) ls)) = (r, lanes) \<Longrightarrow>
    fans_out P fs W t e m ls w r (take i (map ((!) (wd_lanes w)) ls) @ lanes)"
proof (induction "length ls - i" arbitrary: i w d lanes)
  case 0
  then show ?case by (intro fans_out_last [where ns = "[]" and L = "wd_lanes w" and c = None]) (auto simp: set_call_def)
next
  case (Suc n)
  let ?xs = "map ((!) (wd_lanes w)) ls" and ?l = "wd_lanes w ! (ls ! i)"
  let ?go = "\<lambda>L. w\<lparr>wd_lanes := L, wd_calls := (wd_calls w)(t := Some (Fanning e m ls (Suc i)))\<rparr>"
  have i: "i < length ls" using Suc.hyps(2) by simp
  have dr: "drop i ?xs = ?l # drop (Suc i) ?xs" using i by (simp add: Cons_nth_drop_Suc [symmetric])
  have tk: "take (Suc i) ?xs = take i ?xs @ [?l]" using i by (simp add: take_Suc_conv_app_nth)
  have step: "ov_step P fs W (OvNext t) w = Some (if i < 64 then call_at_lane W t e m ls i w
      else (([], []), set_call t None w))"
    using Suc.prems(1) i by simp
  show ?case
  proof (cases "i < 64")
    case False
    with Suc.prems(4) dr have "r = Submitted d" "lanes = drop i ?xs" by auto
    then show ?thesis using step False
      by (intro fans_out_last [where ns = "[]" and L = "wd_lanes w" and c = None]) (auto simp: set_call_def)
  next
    case True
    note step' = step [unfolded if_P [OF True]]
    show ?thesis
    proof (cases "\<not> mask_has m i \<or> ln_queue ?l = None")
      case True
      then have here: "call_at_lane W t e m ls i w = (([], []), ?go (wd_lanes w))"
        by (auto simp: call_at_lane_def set_call_def Let_def)
      obtain r' lanes' where l': "submit_loop W e m (wd_accepting w) (Suc i) d (drop (Suc i) ?xs) = (r', lanes')"
        by fastforce
      have "submit_loop W e m (wd_accepting w) i d (drop i ?xs) = (r', ?l # lanes')"
        unfolding dr using True \<open>i < 64\<close> l' by (cases "mask_has m i") simp_all
      with Suc.prems(4) l' have
        l: "submit_loop W e m (wd_accepting w) (Suc i) d (drop (Suc i) ?xs) = (r, lanes')" "lanes = ?l # lanes'"
        by simp_all
      have "fans_out P fs W t e m ls (?go (wd_lanes w)) r (take (Suc i) ?xs @ lanes')"
        using Suc.hyps(1) [of "Suc i" "?go (wd_lanes w)" d lanes'] Suc.hyps(2) Suc.prems(3) l(1) i by simp
      then have "fans_out P fs W t e m ls (?go (wd_lanes w)) r (take i ?xs @ lanes)" using tk l(2) by simp
      then show ?thesis by (rule fans_out_step [OF step' [unfolded here] _ refl])
    next
      case False
      then obtain q where q: "mask_has m i" "ln_queue ?l = Some q" by auto
      obtain u q' where o: "offer W e (wd_accepting w) (ln_route ?l) q = (u, q')" by fastforce
      let ?l' = "?l\<lparr>ln_queue := Some q'\<rparr>"
      let ?L = "(wd_lanes w)[ls ! i := ?l']"
      have up: "map ((!) ?L) ls = ?xs[i := ?l']" using map_nth_update [OF assms i Suc.prems(3)] by simp
      show ?thesis
      proof (cases "u = Waits")
        case True
        with Suc.prems(4) dr q o \<open>i < 64\<close> have r: "r = BlockedAt i d" "lanes = ?l' # drop (Suc i) ?xs" by auto
        have "?xs[i := ?l'] = take i ?xs @ ?l' # drop (Suc i) ?xs" using i by (simp add: upd_conv_take_nth_drop)
        moreover have "ov_step P fs W (OvNext t) w = Some (([], []), w\<lparr>wd_lanes := ?L,
            wd_calls := (wd_calls w)(t := Some (Waiting e m ls i (wd_queue_no w (ls ! i))))\<rparr>)"
          unfolding step' using True q o by (simp add: call_at_lane_def Let_def set_call_def)
        ultimately show ?thesis using r up by (intro fans_out_last) auto
      next
        case False
        then obtain ns where here: "call_at_lane W t e m ls i w = (([], ns), ?go ?L)"
          using q o by (cases u) (auto simp: call_at_lane_def Let_def set_call_def)
        from False Suc.prems(4) dr q o \<open>i < 64\<close> obtain lanes' d' where
          l: "submit_loop W e m (wd_accepting w) (Suc i) d' (drop (Suc i) ?xs) = (r, lanes')" "lanes = ?l' # lanes'"
          by (cases u) (auto split: prod.splits)
        have "drop (Suc i) (map ((!) ?L) ls) = drop (Suc i) ?xs" unfolding up by simp
        then have "fans_out P fs W t e m ls (?go ?L) r (take (Suc i) (map ((!) ?L) ls) @ lanes')"
          using Suc.hyps(1) [of "Suc i" "?go ?L" d' lanes'] Suc.hyps(2) Suc.prems(3) l(1) i by simp
        moreover have "take (Suc i) (map ((!) ?L) ls) = take i ?xs @ [?l']"
          unfolding up using i by (simp add: take_Suc_update)
        ultimately have "fans_out P fs W t e m ls (?go ?L) r (take i ?xs @ lanes)" using l(2) by simp
        then show ?thesis by (rule fans_out_step [OF step' [unfolded here] _ refl])
      qed
    qed
  qed
qed


lemma calm_call:
  assumes "distinct (xo_lanes (current w))" "\<forall>a \<in> set (xo_lanes (current w)). a < length (wd_lanes w)"
    "wd_calls w t = None" "\<not> holds_worker_m (wd_admin w)"
    "submit P fs W e force_sync (pipeline_of w) = (r, es, p')"
  shows "\<exists>k os ns w'. ov_run P fs W (OvCall t e force_sync # replicate k (OvNext t)) w = Some ((os, ns), w') \<and>
    concat (map snd os) = es \<and> pipeline_of w' = p' \<and> wd_admin w' = wd_admin w \<and>
    (case r of Returned \<Rightarrow> wd_calls w' t = None
     | WaitingAt j d m \<Rightarrow> \<exists>n. wd_calls w' t = Some (Waiting e m (xo_lanes (current w)) j n))"
proof -
  obtain ce c where ce: "cached_route_mask fs (wd_routes w) (ev_endpoint e) (wd_cache w) = (ce, c)" by fastforce
  let ?m = "ce_route_mask ce" and ?w1 = "w\<lparr>wd_cache := c\<rparr>" and ?ls = "xo_lanes (current w)"
  let ?at = "\<lambda>c'. w\<lparr>wd_cache := c, wd_calls := (wd_calls w)(t := c')\<rparr>"
  have cur: "current (w\<lparr>wd_cache := c\<rparr>) = current w"
    "current (w\<lparr>wd_cache := c, wd_calls := f\<rparr>) = current w"
    "current (w\<lparr>wd_cache := c, wd_lanes := L, wd_calls := f\<rparr>) = current w" for f L
    by (simp_all add: current_def)
  note simps = pipeline_of_def submit_def call_begins_def ce cur set_call_def dispatch_sync_def Let_def
  show ?thesis
  proof (cases "?m = 0 \<or> \<not> filters_pass fs (wd_global_filters w) e \<or> \<not> async_mode (wd_cfg w) e force_sync")
    case True
    then obtain os where b: "call_begins P fs t e force_sync w = ((os, []), ?w1)" "concat (map snd os) = es"
      "r = Returned" "p' = pipeline_of ?w1"
      using assms(5) by (auto simp: simps split: if_splits)
    then show ?thesis using assms(3)
      by (intro exI [of _ 0] exI [of _ os] exI [of _ "[]"] exI [of _ ?w1]) simp
  next
    case False
    then have b: "ov_step P fs W (OvCall t e force_sync) w = Some (([], []), ?at (Some (Selected e ?m)))"
      using assms(3) by (auto simp: simps)
    have l: "ov_step P fs W (OvNext t) (?at (Some (Selected e ?m))) =
        Some (([], []), ?at (Some (Loaded e ?m (wd_crossbar w))))"
      using assms(4) by (simp add: set_call_def)
    show ?thesis
    proof (cases "wd_accepting w")
      case False
      let ?os = "[(ByCaller t, dispatch_loop P fs e ?m 0 (wd_routes w))]"
      have n: "ov_step P fs W (OvNext t) (?at (Some (Loaded e ?m (wd_crossbar w)))) = Some ((?os, []), ?at None)"
        using False by (simp add: set_call_def)
      have "r = Returned \<and> es = concat (map snd ?os) \<and> p' = pipeline_of (?at None)"
        using assms(5) False \<open>\<not> (?m = 0 \<or> _)\<close> by (auto simp: simps)
      then show ?thesis using b l n
        by (intro exI [of _ 2] exI [of _ ?os] exI [of _ "[]"] exI [of _ "?at None"]) (simp add: numeral_2_eq_2)
    next
      case True
      let ?w3 = "?at (Some (Fanning e ?m ?ls 0))"
      have n: "ov_step P fs W (OvNext t) (?at (Some (Loaded e ?m (wd_crossbar w)))) =
          Some (([], []), ?at (Some (Checked e ?m (wd_crossbar w))))"
        "ov_step P fs W (OvNext t) (?at (Some (Checked e ?m (wd_crossbar w)))) = Some (([], []), ?w3)"
        using True by (simp_all add: set_call_def current_def)
      obtain r' lanes where s: "submit_loop W e ?m True 0 False (map ((!) (wd_lanes w)) ?ls) = (r', lanes)" by fastforce
      have out: "r = (case r' of Submitted d \<Rightarrow> Returned | BlockedAt j d \<Rightarrow> WaitingAt j d ?m)" "es = []"
        "p' = (pipeline_of ?w1)\<lparr>pl_crossbar := Some \<lparr>xb_capacity = xo_capacity (current w),
           xb_running = xo_running (current w), xb_lanes = lanes\<rparr>\<rparr>"
        using assms(5) True s \<open>\<not> (?m = 0 \<or> _)\<close>
        by (auto simp: simps crossbar_submit_def crossbar_resume_def split: submit_result.splits)
      have "fans_out P fs W t e ?m ?ls ?w3 r' (take 0 (map ((!) (wd_lanes ?w3)) ?ls) @ lanes)"
        by (rule fan_out_is_submit_loop [OF assms(1), where d = False]) (use assms(2) s True in simp_all)
      then obtain k ns L c' where f: "ov_run P fs W (replicate k (OvNext t)) ?w3 =
          Some (([], ns), ?w3\<lparr>wd_lanes := L, wd_calls := (wd_calls ?w3)(t := c')\<rparr>)" "map ((!) L) ?ls = lanes"
        "case r' of Submitted d \<Rightarrow> c' = None | BlockedAt j d \<Rightarrow> \<exists>n. c' = Some (Waiting e ?m ?ls j n)"
        by (auto simp: fans_out_def)
      let ?w4 = "?w3\<lparr>wd_lanes := L, wd_calls := (wd_calls ?w3)(t := c')\<rparr>"
      have "pipeline_of ?w4 = p'" unfolding out(3) using f(2) by (simp add: pipeline_of_def current_def)
      moreover have "case r of Returned \<Rightarrow> wd_calls ?w4 t = None
          | WaitingAt j d m \<Rightarrow> \<exists>n. wd_calls ?w4 t = Some (Waiting e m ?ls j n)"
        using f(3) out(1) by (cases r') simp_all
      moreover have "ov_run P fs W (OvCall t e force_sync # replicate (Suc (Suc (Suc k))) (OvNext t)) w =
          Some (([], ns), ?w4)"
        using b l n f(1) by (simp del: ov_step.simps)
      ultimately show ?thesis using out(2)
        by (intro exI [of _ "Suc (Suc (Suc k))"] exI [of _ "[]"] exI [of _ ns] exI [of _ ?w4]) simp
    qed
  qed
qed

text \<open>
  C11. A call that nothing overlaps is \<open>Pipeline::submit\<close> as one step: in every state that any
  overlapping of calls can reach, the actions of a single call, done in a row while no lifecycle call holds
  \<open>worker_m\<close>, give the output, the pipeline and the result of \<open>submit\<close>; the call waits at the same lane,
  or has returned.
\<close>

theorem uninterrupted_call_is_submit:
  assumes "workers_ok W items closed" "ov_run P fs W acts initial_world = Some (sh, w)"
    "wd_calls w t = None" "\<not> holds_worker_m (wd_admin w)"
    "submit P fs W e force_sync (pipeline_of w) = (r, es, p')"
  shows "\<exists>k os ns w'. ov_run P fs W (OvCall t e force_sync # replicate k (OvNext t)) w = Some ((os, ns), w') \<and>
    concat (map snd os) = es \<and> pipeline_of w' = p' \<and> wd_admin w' = wd_admin w \<and>
    (case r of Returned \<Rightarrow> wd_calls w' t = None
     | WaitingAt j d m \<Rightarrow> \<exists>n. wd_calls w' t = Some (Waiting e m (xo_lanes (current w)) j n))"
proof -
  from ov_run_ok [OF assms(1) initial_world_ok assms(2)] have "world_ok items closed w" by blast
  then have "objects_ok items closed w" by (rule world_okD(4))
  from calm_call [OF current_lanes(1) [OF this] _ assms(3-5)] current_lanes(2) [OF this]
  show ?thesis by blast
qed

theorem uninterrupted_call_is_submit_witness:
  "\<exists>sh w r es p' k os ns w'. ov_run plain_platform info_store list_workers overtaken_opening initial_world = Some (sh, w) \<and>
    submit plain_platform info_store list_workers second_event False (pipeline_of w) = (r, es, p') \<and>
    ov_run plain_platform info_store list_workers (OvCall 1 second_event False # replicate k (OvNext 1)) w =
      Some ((os, ns), w') \<and> pipeline_of w' = p'"
proof -
  have "case ov_run plain_platform info_store list_workers overtaken_opening initial_world of None \<Rightarrow> False
      | Some (sh, w) \<Rightarrow> wd_calls w 1 = None \<and> \<not> holds_worker_m (wd_admin w)"
    by code_simp
  then obtain sh w where w: "ov_run plain_platform info_store list_workers overtaken_opening initial_world = Some (sh, w)"
    "wd_calls w 1 = None" "\<not> holds_worker_m (wd_admin w)" by (auto split: option.splits)
  obtain r es p' where s: "submit plain_platform info_store list_workers second_event False (pipeline_of w) = (r, es, p')"
    by (metis prod_cases3)
  from uninterrupted_call_is_submit [OF list_workers_ok w s] obtain k os ns w' where
    "ov_run plain_platform info_store list_workers (OvCall 1 second_event False # replicate k (OvNext 1)) w =
      Some ((os, ns), w')" "pipeline_of w' = p'" by blast
  with w(1) s show ?thesis by blast
qed

end
