(* ===== verification/Overlap_Stop.thy ===== *)
theory Overlap_Stop
  imports Overlap_Calls
begin

section \<open>Calls that \<open>request_stop\<close> overtakes\<close>

text \<open>
  \<open>request_stop\<close> gives the lanes of its crossbar new queues (the end of \<open>stop_lanes_\<close>), while calls may be
  inside the old ones or still have the lanes before them: what can happen to such calls and to the
  events they log, and that nothing else does it.
\<close>

text \<open>A call waits for room in the only lane; \<open>request_stop\<close> is called and returns.\<close>

definition freeing :: "ov_action list" where
  "freeing =
     [OvConfigure (asynchronous 1), OvAddRoute plain_route, OvAdmin, OvStart,
      OvCall 0 sample_event False, OvNext 0, OvNext 0, OvNext 0, OvNext 0, OvNext 0,
      OvCall 1 second_event False, OvNext 1, OvNext 1, OvNext 1, OvNext 1,
      OvRequestStop, OvAdmin, OvAdmin, OvAdmin, OvWork 0, OvWork 0, OvWork 0, OvAdmin, OvAdmin, OvAdmin,
      OvAdmin, OvAdmin, OvAdmin]"

text \<open>
  C34. \<open>request_stop\<close> can free a queue that a call is using: a call waits for room in a lane while another thread
  calls \<open>request_stop\<close>, which gives the lane a new queue and returns; the call is still inside
  \<open>push_blocking\<close> of the old one, to which it has only a reference, and which nothing owns any more.
\<close>

theorem request_stop_frees_queue_in_use:
  "\<exists>os ns w. ov_run plain_platform info_store list_workers freeing initial_world = Some ((os, ns), w) \<and>
    wd_admin w = Ready \<and> dangling w 1 \<and> ov_step plain_platform info_store list_workers (OvNext 1) w = None"
proof -
  have "case ov_run plain_platform info_store list_workers freeing initial_world of None \<Rightarrow> False
      | Some ((os, ns), w) \<Rightarrow> wd_admin w = Ready \<and> dangling w 1"
    by code_simp
  then obtain os ns w where w: "ov_run plain_platform info_store list_workers freeing initial_world = Some ((os, ns), w)"
    "wd_admin w = Ready" "dangling w 1" by (auto split: option.splits)
  from w(3) have "ov_step plain_platform info_store list_workers (OvNext 1) w = None"
    by (auto simp: dangling_def split: option.splits call_at.splits)
  with w show ?thesis by blast
qed

text \<open>Nothing else does: without \<open>request_stop\<close> lanes keep their queues.\<close>

fun stops :: "admin \<Rightarrow> bool" where
  "stops Stopping = True"
| "stops (Signalling todo ls p) = (p = ForStop)"
| "stops (Joining todo p) = (p = ForStop)"
| "stops (Replacing todo) = True"
| "stops _ = False"

fun waits_in_first :: "call_at \<Rightarrow> bool" where
  "waits_in_first (Waiting e m ls i n) = (n = 0)"
| "waits_in_first _ = True"

definition first_queues :: "'q world \<Rightarrow> bool" where
  "first_queues w \<longleftrightarrow> (\<forall>a. wd_queue_no w a = 0) \<and> \<not> stops (wd_admin w) \<and>
     (\<forall>t c. wd_calls w t = Some c \<longrightarrow> waits_in_first c)"

definition call_changes :: "nat \<Rightarrow> 'q world \<Rightarrow> 'q world \<Rightarrow> bool" where
  "call_changes t w w' \<longleftrightarrow> wd_queue_no w' = wd_queue_no w \<and> wd_admin w' = wd_admin w \<and>
     (\<exists>c. wd_calls w' = (wd_calls w)(t := c) \<and> (\<forall>c'. c = Some c' \<longrightarrow> waits_in_first c'))"

lemma first_queues_call: "first_queues w \<Longrightarrow> call_changes t w w' \<Longrightarrow> first_queues w'"
  by (auto simp: first_queues_def call_changes_def split: if_splits)

lemma call_changes_set: "(\<forall>c'. c = Some c' \<longrightarrow> waits_in_first c') \<Longrightarrow> call_changes t w (set_call t c w)"
  by (auto simp: call_changes_def set_call_def)

lemma call_changes_lane:
  assumes "first_queues w" "call_at_lane W t e m ls i w = (sh, w')"
  shows "call_changes t w w'"
proof -
  obtain lanes c where "w' = set_call t (Some c) (w\<lparr>wd_lanes := lanes\<rparr>)"
    "c = Fanning e m ls (Suc i) \<or> c = Waiting e m ls i (wd_queue_no w (ls ! i))"
  proof (cases "mask_has m i")
    case False
    then have "w' = set_call t (Some (Fanning e m ls (Suc i))) (w\<lparr>wd_lanes := wd_lanes w\<rparr>)"
      using assms(2) by (simp add: call_at_lane_def)
    then show ?thesis using that by blast
  next
    case True
    show ?thesis
    proof (cases "ln_queue (wd_lanes w ! (ls ! i))")
      case None
      then have "w' = set_call t (Some (Fanning e m ls (Suc i))) (w\<lparr>wd_lanes := wd_lanes w\<rparr>)"
        using assms(2) True by (simp add: call_at_lane_def)
      then show ?thesis using that by blast
    next
      case (Some q)
      obtain r q' where "offer W e (wd_accepting w) (ln_route (wd_lanes w ! (ls ! i))) q = (r, q')" by fastforce
      with that show ?thesis using assms(2) True Some by (cases r) (auto simp: call_at_lane_def Let_def)
    qed
  qed
  then show ?thesis using assms(1) by (auto simp: call_changes_def set_call_def first_queues_def)
qed

lemma call_begins_state:
  assumes "wd_calls w t = None" "call_begins P fs t e f w = (sh, w')"
  shows "\<exists>ca c. w' = set_call t c (w\<lparr>wd_cache := ca\<rparr>) \<and> (c = None \<or> (\<exists>m. c = Some (Selected e m)))"
proof -
  obtain ce ca where ce: "cached_route_mask fs (wd_routes w) (ev_endpoint e) (wd_cache w) = (ce, ca)" by fastforce
  let ?w = "w\<lparr>wd_cache := ca\<rparr>"
  have none: "set_call t None ?w = ?w" using assms(1) by (simp add: set_call_def fun_upd_idem)
  have "w' = ?w \<or> w' = set_call t (Some (Selected e (ce_route_mask ce))) ?w"
    using assms(2) ce by (auto simp: call_begins_def Let_def split: if_splits)
  then show ?thesis using none by metis
qed

lemma first_queues_admin:
  assumes "first_queues w" "admin_advances W (wd_admin w) w = Some (sh, w')"
  shows "wd_queue_no w' = wd_queue_no w \<and> \<not> stops (wd_admin w')"
  using assms
  by (cases "(W, wd_admin w, w)" rule: admin_advances.cases)
    (auto simp: first_queues_def stop_begins_def rebuild_def renew_def new_lanes_def Let_def set_current_def
      set_lane_def split: if_splits)

lemma first_queues_step:
  assumes "first_queues w" "ov_step P fs W b w = Some (sh, w')" "b \<noteq> OvRequestStop"
  shows "first_queues w'"
proof (cases b)
  case (OvCall t e f)
  with assms(2) have n: "wd_calls w t = None" and c: "call_begins P fs t e f w = (sh, w')" by (auto split: if_splits)
  obtain ca c' where "w' = set_call t c' (w\<lparr>wd_cache := ca\<rparr>)" "c' = None \<or> (\<exists>m. c' = Some (Selected e m))"
    using call_begins_state [OF n c] by blast
  then have "call_changes t w w'" by (auto simp: call_changes_def set_call_def)
  with assms(1) show ?thesis by (rule first_queues_call)
next
  case (OvNext t)
  with assms(2) obtain c where c: "wd_calls w t = Some c" "call_advances P fs W t c w = Some (sh, w')"
    by (auto split: option.splits)
  have "call_changes t w w'"
    by (cases c; use c(2) in \<open>auto simp: call_changes_set dest: call_changes_lane [OF assms(1)] split: if_splits\<close>)
  with assms(1) show ?thesis by (rule first_queues_call)
next
  case OvAdmin
  with assms(2) have "admin_advances W (wd_admin w) w = Some (sh, w')" by simp
  from first_queues_admin [OF assms(1) this] admin_advances_calls [OF this] assms(1) show ?thesis
    by (simp add: first_queues_def)
qed (use assms in \<open>auto simp: first_queues_def change_routes_def starts_def renew_def new_lanes_def
      set_current_def set_lane_def Let_def split: if_splits prod.splits\<close>)

lemma first_queues_run:
  "first_queues w \<Longrightarrow> ov_run P fs W acts w = Some (sh, w') \<Longrightarrow> OvRequestStop \<notin> set acts \<Longrightarrow> first_queues w'"
proof (induction acts arbitrary: w sh)
  case Nil
  then show ?case by simp
next
  case (Cons b acts)
  then obtain sh1 w1 sh2 where "ov_step P fs W b w = Some (sh1, w1)" "ov_run P fs W acts w1 = Some (sh2, w')"
    by (auto split: option.splits prod.splits)
  with Cons first_queues_step show ?case by fastforce
qed

lemma dangling_needs_stop:
  assumes "ov_run P fs W acts initial_world = Some (sh, w)" "dangling w t"
  shows "OvRequestStop \<in> set acts"
proof (rule ccontr)
  assume no: "OvRequestStop \<notin> set acts"
  have "first_queues initial_world" by (simp add: first_queues_def initial_world_def)
  from first_queues_run [OF this assms(1) no] have "first_queues w" .
  moreover obtain e m ls i n where "wd_calls w t = Some (Waiting e m ls i n)" "n \<noteq> wd_queue_no w (ls ! i)"
    using assms(2) by (auto simp: dangling_def split: option.splits call_at.splits)
  moreover from this(1) \<open>first_queues w\<close> have "waits_in_first (Waiting e m ls i n)"
    unfolding first_queues_def by blast
  ultimately show False by (simp add: first_queues_def)
qed

text \<open>
  Only \<open>request_stop\<close> can free a queue in use: with \<open>close\<close>, \<open>start\<close>, \<open>configure\<close> and changes of the routes,
  every queue that a waiting call refers to is still the queue of its lane, however they overlap.
\<close>

theorem only_request_stop_frees:
  assumes "ov_run P fs W acts initial_world = Some (sh, w)" "dangling w t"
  shows "OvRequestStop \<in> set acts"
  by (rule dangling_needs_stop [OF assms])

lemma freeing_dangles:
  obtains sh w where "ov_run plain_platform info_store list_workers freeing initial_world = Some (sh, w)"
    "dangling w 1"
proof -
  have "case ov_run plain_platform info_store list_workers freeing initial_world of None \<Rightarrow> False
      | Some (sh, w) \<Rightarrow> dangling w 1"
    by code_simp
  then show ?thesis using that by (auto split: option.splits)
qed

theorem only_request_stop_frees_witness: "OvRequestStop \<in> set freeing"
proof -
  obtain sh w where "ov_run plain_platform info_store list_workers freeing initial_world = Some (sh, w)" "dangling w 1"
    by (rule freeing_dangles)
  from only_request_stop_frees [OF this] show ?thesis .
qed

text \<open>
  A call that has copied the pointers to the lanes before \<open>request_stop\<close> gives them new queues, and goes
  on after the pipeline was started again.
\<close>

definition late :: "ov_action list" where
  "late =
     [OvConfigure (asynchronous 2), OvAddRoute plain_route, OvAdmin, OvStart,
      OvCall 1 second_event False, OvNext 1, OvNext 1, OvNext 1,
      OvRequestStop, OvAdmin, OvAdmin, OvAdmin, OvWork 0, OvWork 0, OvAdmin, OvAdmin, OvAdmin,
      OvAdmin, OvAdmin, OvAdmin, OvStart, OvNext 1, OvNext 1]"

lemma dropped_is_silent:
  assumes "workers_ok W items closed" "ov_run P fs W acts1 initial_world = Some (sh, w1)"
    "a < length (wd_lanes w1)" "dropped (wd_lanes w1 ! a)" "ov_run P fs W acts2 w1 = Some ((os, ns), w2)"
  shows "written a os = []"
proof -
  from ov_run_ok [OF assms(1) initial_world_ok assms(2)] have "world_ok items closed w1" by blast
  from ov_run_ok [OF assms(1) this assms(5)] have "books P fs items w1 (os, ns) w2" by blast
  then obtain h d where "account P fs items w1 (os, ns) w2 a h d" unfolding books_def by blast
  then show ?thesis using assms(3,4) by (simp add: account_def)
qed

lemma late_history:
  obtains os ns w where "ov_run plain_platform info_store list_workers late initial_world = Some ((os, ns), w)"
    "wd_running w" "wd_accepting w" "wd_admin w = Ready" "wd_calls w 1 = None" "ns = [Took 1 second_event 0]"
    "0 < length (wd_lanes w)" "dropped (wd_lanes w ! 0)" "concat (map snd os) = [SinkFlush 0]"
proof -
  have "case ov_run plain_platform info_store list_workers late initial_world of None \<Rightarrow> False
      | Some ((os, ns), w) \<Rightarrow> wd_running w \<and> wd_accepting w \<and> wd_admin w = Ready \<and> wd_calls w 1 = None \<and>
          ns = [Took 1 second_event 0] \<and> 0 < length (wd_lanes w) \<and> dropped (wd_lanes w ! 0) \<and>
          concat (map snd os) = [SinkFlush 0]"
    by code_simp
  then show ?thesis using that by (auto split: option.splits)
qed

text \<open>
  An event can be taken by a lane that nobody serves: the call's push succeeds, in a pipeline that
  runs and accepts, at a lane whose queue \<open>request_stop\<close> has replaced; whatever happens afterwards, that
  lane writes nothing. Until then the only output is a flush.
\<close>

theorem late_event_never_written:
  assumes "ov_run plain_platform info_store list_workers late initial_world = Some ((os, ns), w)"
    "ov_run plain_platform info_store list_workers acts w = Some ((os', ns'), w')"
  shows "wd_running w \<and> wd_accepting w \<and> wd_admin w = Ready \<and> ns = [Took 1 second_event 0] \<and>
    concat (map snd os) = [SinkFlush 0] \<and> written 0 os' = []"
proof -
  obtain os1 ns1 w1 where l: "ov_run plain_platform info_store list_workers late initial_world = Some ((os1, ns1), w1)"
    "wd_running w1" "wd_accepting w1" "wd_admin w1 = Ready" "wd_calls w1 1 = None" "ns1 = [Took 1 second_event 0]"
    "0 < length (wd_lanes w1)" "dropped (wd_lanes w1 ! 0)" "concat (map snd os1) = [SinkFlush 0]"
    by (rule late_history)
  with assms(1) have "os1 = os" "ns1 = ns" "w1 = w" by simp_all
  with l dropped_is_silent [OF list_workers_ok assms(1) _ _ assms(2), of 0] show ?thesis by simp
qed

definition after_late :: "ov_action list" where
  "after_late = [OvWork 0, OvWork 1, OvClose, OvAdmin]"

theorem late_event_never_written_witness:
  "\<exists>os ns w os' ns' w'. ov_run plain_platform info_store list_workers late initial_world = Some ((os, ns), w) \<and>
    ov_run plain_platform info_store list_workers after_late w = Some ((os', ns'), w') \<and>
    ns = [Took 1 second_event 0] \<and> written 0 os' = []"
proof -
  have "case ov_run plain_platform info_store list_workers late initial_world of None \<Rightarrow> False
      | Some (sh, w) \<Rightarrow> ov_run plain_platform info_store list_workers after_late w \<noteq> None"
    by code_simp
  then obtain os ns w os' ns' w' where
    r: "ov_run plain_platform info_store list_workers late initial_world = Some ((os, ns), w)"
    "ov_run plain_platform info_store list_workers after_late w = Some ((os', ns'), w')"
    by (auto split: option.splits)
  from late_event_never_written [OF r] r show ?thesis by blast
qed

end
