(* ===== verification/Overlap_Calm.thy ===== *)
theory Overlap_Calm
  imports Overlap_Stop
begin

section \<open>Lifecycle calls that nothing disturbs\<close>

text \<open>
  \<open>Overlap\<close> takes the lifecycle calls apart, \<open>Pipeline\<close> has them in one step: a call whose actions only the
  workers interleave with does what the operation of \<open>Pipeline\<close> does under the workers' schedule.
  One lemma per phase of a call, put together by \<open>leads_trans\<close>.
\<close>

subsection \<open>Runs of the lifecycle thread and the workers\<close>

definition leads ::
  "platform \<Rightarrow> filter_store \<Rightarrow> 'q workers \<Rightarrow> 'q world \<Rightarrow> effect list \<Rightarrow> 'q world \<Rightarrow> bool" where
  "leads P fs W w es w' \<longleftrightarrow> (\<exists>acts os. list_all background acts \<and> ov_run P fs W acts w = Some ((os, []), w') \<and>
     concat (map snd os) = es)"

lemma leads_refl: "leads P fs W w [] w"
  unfolding leads_def by (intro exI [of _ "[]"]) simp

lemma leads_step:
  "background b \<Longrightarrow> ov_step P fs W b w = Some ((os, []), w1) \<Longrightarrow> es = concat (map snd os) \<Longrightarrow> leads P fs W w es w1"
  unfolding leads_def by (intro exI [of _ "[b]"]) simp

lemma leads_trans:
  assumes "leads P fs W w es w1" "leads P fs W w1 es' w2"
  shows "leads P fs W w (es @ es') w2"
proof -
  from assms obtain acts os acts' os' where
    "list_all background acts" "ov_run P fs W acts w = Some ((os, []), w1)" "concat (map snd os) = es"
    "list_all background acts'" "ov_run P fs W acts' w1 = Some ((os', []), w2)" "concat (map snd os') = es'"
    unfolding leads_def by blast
  then show ?thesis unfolding leads_def
    by (intro exI [of _ "acts @ acts'"] exI [of _ "os @ os'"]) (simp add: ov_run_append)
qed

lemma leads_quietly: "leads P fs W w [] w1 \<Longrightarrow> leads P fs W w1 es w2 \<Longrightarrow> leads P fs W w es w2"
  using leads_trans by fastforce

lemma leads_admin: "admin_advances W (wd_admin w) w = Some (([], []), w1) \<Longrightarrow> leads P fs W w [] w1"
  by (rule leads_step [of OvAdmin P fs W w "[]"]) simp_all

lemma leads_work:
  "a < length (wd_lanes w) \<Longrightarrow> worker_step P fs W (wd_lanes w ! a) = (es, l) \<Longrightarrow> leads P fs W w es (set_lane a l w)"
  by (rule leads_step [of "OvWork a" P fs W w "[(ByWorker a, es)]"]) simp_all

subsection \<open>Phases of \<open>stop_lanes_\<close>\<close>

lemma each_lane_Nil [simp]: "each_lane f [] lanes = lanes"
  by (rule nth_equalityI) simp_all

lemma each_lane_Cons:
  "a \<notin> set ls \<Longrightarrow> each_lane f (a # ls) lanes = each_lane f ls (lanes[a := f (lanes ! a)])"
  by (rule nth_equalityI) (auto simp: nth_list_update)

lemma each_lane_twice: "each_lane g ls (each_lane f ls lanes) = each_lane (g \<circ> f) ls lanes"
  by (rule nth_equalityI) auto

lemma map_each_lane:
  "\<forall>a \<in> set ls. a < length lanes \<Longrightarrow> map ((!) (each_lane f ls lanes)) ls = map f (map ((!) lanes) ls)"
  by simp

lemma signalling_leads:
  "wd_admin w = Signalling todo ls p \<Longrightarrow> distinct todo \<Longrightarrow> \<forall>a \<in> set todo. a < length (wd_lanes w) \<Longrightarrow>
   leads P fs W w []
     (w\<lparr>wd_lanes := each_lane (signal_stop W (p \<noteq> ForStop)) todo (wd_lanes w), wd_admin := Joining ls p\<rparr>)"
proof (induction todo arbitrary: w)
  case Nil
  then show ?case by (intro leads_admin) simp_all
next
  case (Cons a todo)
  let ?w = "(set_lane a (signal_stop W (p \<noteq> ForStop) (wd_lanes w ! a)) w)\<lparr>wd_admin := Signalling todo ls p\<rparr>"
  have "leads P fs W w [] ?w" using Cons.prems by (intro leads_admin) simp_all
  moreover have "leads P fs W ?w []
      (?w\<lparr>wd_lanes := each_lane (signal_stop W (p \<noteq> ForStop)) todo (wd_lanes ?w), wd_admin := Joining ls p\<rparr>)"
    by (rule Cons.IH) (use Cons.prems in simp_all)
  ultimately show ?case using Cons.prems(2) leads_quietly by (fastforce simp: each_lane_Cons set_lane_def)
qed

lemma replacing_leads:
  "wd_admin w = Replacing todo \<Longrightarrow> distinct todo \<Longrightarrow> \<forall>a \<in> set todo. a < length (wd_lanes w) \<Longrightarrow>
   \<exists>n. leads P fs W w []
     (w\<lparr>wd_lanes := each_lane (fresh_queue W (xo_capacity (current w))) todo (wd_lanes w),
        wd_queue_no := n, wd_admin := Flushing\<rparr>)"
proof (induction todo arbitrary: w)
  case Nil
  then have "leads P fs W w [] (w\<lparr>wd_admin := Flushing\<rparr>)"
    by (intro leads_admin) simp_all
  moreover have "w\<lparr>wd_lanes := wd_lanes w, wd_queue_no := wd_queue_no w, wd_admin := Flushing\<rparr> = w\<lparr>wd_admin := Flushing\<rparr>"
    by (cases w) simp
  ultimately show ?case unfolding each_lane_Nil by metis
next
  case (Cons a todo)
  let ?f = "fresh_queue W (xo_capacity (current w))"
  let ?w = "(set_lane a (?f (wd_lanes w ! a)) w)
    \<lparr>wd_queue_no := (wd_queue_no w)(a := Suc (wd_queue_no w a)), wd_admin := Replacing todo\<rparr>"
  have cur: "current ?w = current w" by (simp add: current_def set_lane_def)
  have "leads P fs W w [] ?w" using Cons.prems by (intro leads_admin) simp_all
  moreover obtain n where "leads P fs W ?w []
      (?w\<lparr>wd_lanes := each_lane (fresh_queue W (xo_capacity (current ?w))) todo (wd_lanes ?w),
          wd_queue_no := n, wd_admin := Flushing\<rparr>)"
    using Cons.IH [of ?w] Cons.prems by auto
  ultimately show ?case using Cons.prems(2) leads_quietly unfolding cur
    by (fastforce simp: each_lane_Cons set_lane_def)
qed

lemma workers_lead:
  assumes "distinct ls"
  shows "\<forall>a \<in> set ls. a < length (wd_lanes w) \<Longrightarrow> run_workers P fs W sched (map ((!) (wd_lanes w)) ls) = (es, lanes) \<Longrightarrow>
   \<exists>L. leads P fs W w es (w\<lparr>wd_lanes := L\<rparr>) \<and> length L = length (wd_lanes w) \<and> map ((!) L) ls = lanes"
proof (induction sched arbitrary: w es)
  case Nil
  then show ?case using leads_refl [of P fs W w] by (intro exI [of _ "wd_lanes w"]) auto
next
  case (Cons i sched)
  obtain es1 lanes1 where w: "work_at P fs W i (map ((!) (wd_lanes w)) ls) = (es1, lanes1)" by fastforce
  obtain es2 where r: "run_workers P fs W sched lanes1 = (es2, lanes)" "es = es1 @ es2"
    using Cons.prems(2) w by (auto split: prod.splits)
  show ?case
  proof (cases "i < length ls")
    case False
    with w have "es1 = []" "lanes1 = map ((!) (wd_lanes w)) ls" by (simp_all add: work_at_def)
    with r Cons.IH [OF Cons.prems(1)] show ?thesis by simp
  next
    case True
    obtain l where l: "worker_step P fs W (wd_lanes w ! (ls ! i)) = (es1, l)" "lanes1 = (map ((!) (wd_lanes w)) ls)[i := l]"
      using w True by (auto simp: work_at_def split: prod.splits)
    let ?w = "set_lane (ls ! i) l w"
    have "leads P fs W w es1 ?w" using True Cons.prems(1) l(1) by (intro leads_work) simp_all
    moreover have "map ((!) (wd_lanes ?w)) ls = lanes1"
      using map_nth_update [OF assms True Cons.prems(1)] l(2) by simp
    with Cons.IH [of ?w es2] Cons.prems(1) r(1) obtain L where
      "leads P fs W ?w es2 (?w\<lparr>wd_lanes := L\<rparr>)" "length L = length (wd_lanes w)" "map ((!) L) ls = lanes"
      by auto
    ultimately show ?thesis using leads_trans r(2)
      by (intro exI [of _ L]) (fastforce simp: set_lane_def)
  qed
qed

lemma join_lane_induct [consumes 1, case_names gone over works]:
  assumes "join_lane P fs W l = Some r"
    "\<And>l. ln_worker l = NoThread \<Longrightarrow> Q l ([], l)"
    "\<And>l. ln_worker l = Finished \<Longrightarrow> Q l ([], l\<lparr>ln_worker := NoThread\<rparr>)"
    "\<And>l es l1 r. ln_worker l \<noteq> NoThread \<Longrightarrow> ln_worker l \<noteq> Finished \<Longrightarrow> worker_step P fs W l = (es, l1) \<Longrightarrow>
      Q l1 r \<Longrightarrow> Q l (es @ fst r, snd r)"
  shows "Q l r"
proof -
  have "(\<lambda>a r. case a of (((P', fs'), W'), l) \<Rightarrow> P' = P \<longrightarrow> fs' = fs \<longrightarrow> W' = W \<longrightarrow> Q l r) (((P, fs), W), l) r"
  proof (rule join_lane.raw_induct [OF _ assms(1)], goal_cases)
    case (1 join P' fs' W' l r)
    show ?case
    proof (clarsimp)
      assume same: "P' = P" "fs' = fs" "W' = W"
      obtain es l1 where s: "worker_step P fs W l = (es, l1)" by fastforce
      show "Q l r"
        using 1(2) 1(1) [of P fs W l1] assms(2-4) s same by (auto split: if_splits bind_splits)
    qed
  qed
  then show ?thesis by simp
qed

lemma join_lane_leads:
  "join_lane P fs W l = Some r \<Longrightarrow> wd_lanes w ! a = l \<Longrightarrow> a < length (wd_lanes w) \<Longrightarrow>
   wd_admin w = Joining (a # todo) p \<Longrightarrow>
   leads P fs W w (fst r) (w\<lparr>wd_lanes := (wd_lanes w)[a := snd r], wd_admin := Joining todo p\<rparr>)"
proof (induction arbitrary: w rule: join_lane_induct)
  case (gone l)
  then have "(wd_lanes w)[a := l] = wd_lanes w" by auto
  moreover have "leads P fs W w [] (w\<lparr>wd_admin := Joining todo p\<rparr>)"
    using gone by (intro leads_admin) (simp add: Let_def)
  ultimately show ?case by simp
next
  case (over l)
  then have "leads P fs W w [] (w\<lparr>wd_lanes := (wd_lanes w)[a := l\<lparr>ln_worker := NoThread\<rparr>], wd_admin := Joining todo p\<rparr>)"
    by (intro leads_admin) (simp add: Let_def set_lane_def)
  then show ?case by simp
next
  case (works l es l1 r)
  let ?w = "set_lane a l1 w"
  have "leads P fs W w es ?w" using works.hyps(3) works.prems by (intro leads_work) simp_all
  moreover have "leads P fs W ?w (fst r) (?w\<lparr>wd_lanes := (wd_lanes ?w)[a := snd r], wd_admin := Joining todo p\<rparr>)"
    using works.prems by (intro works.IH) simp_all
  ultimately have "leads P fs W w (es @ fst r) (?w\<lparr>wd_lanes := (wd_lanes ?w)[a := snd r], wd_admin := Joining todo p\<rparr>)"
    by (rule leads_trans)
  then show ?case by (simp add: set_lane_def)
qed

lemma joining_leads:
  "wd_admin w = Joining todo p \<Longrightarrow> distinct todo \<Longrightarrow> \<forall>a \<in> set todo. a < length (wd_lanes w) \<Longrightarrow>
   join_lanes P fs W (map ((!) (wd_lanes w)) todo) = Some (es, lanes) \<Longrightarrow>
   \<exists>L. leads P fs W w es (w\<lparr>wd_lanes := L, wd_admin := Joining [] p\<rparr>) \<and> length L = length (wd_lanes w) \<and>
     map ((!) L) todo = lanes \<and> (\<forall>a. a \<notin> set todo \<longrightarrow> L ! a = wd_lanes w ! a)"
proof (induction todo arbitrary: w es lanes)
  case Nil
  have "w\<lparr>wd_lanes := wd_lanes w, wd_admin := Joining [] p\<rparr> = w" using Nil.prems(1) by (cases w) simp
  then have "leads P fs W w [] (w\<lparr>wd_lanes := wd_lanes w, wd_admin := Joining [] p\<rparr>)" by (simp only: leads_refl)
  with Nil.prems(4) show ?case by (intro exI [of _ "wd_lanes w"]) simp
next
  case (Cons a todo)
  from Cons.prems(4) obtain es1 l es2 ls where
    j: "join_lane P fs W (wd_lanes w ! a) = Some (es1, l)" "lanes = l # ls" "es = es1 @ es2"
    "join_lanes P fs W (map ((!) (wd_lanes w)) todo) = Some (es2, ls)"
    by (auto split: option.splits prod.splits)
  let ?w = "w\<lparr>wd_lanes := (wd_lanes w)[a := l], wd_admin := Joining todo p\<rparr>"
  have a: "a < length (wd_lanes w)" "a \<notin> set todo" using Cons.prems by simp_all
  from join_lane_leads [OF j(1)] a(1) Cons.prems(1) have first: "leads P fs W w es1 ?w" by simp
  have view: "map ((!) (wd_lanes ?w)) todo = map ((!) (wd_lanes w)) todo"
    using a(2) by (auto intro!: nth_list_update_neq)
  have "join_lanes P fs W (map ((!) (wd_lanes ?w)) todo) = Some (es2, ls)" unfolding view by (rule j(4))
  from Cons.IH [OF _ _ _ this] Cons.prems(2,3) obtain L where
    L: "leads P fs W ?w es2 (?w\<lparr>wd_lanes := L, wd_admin := Joining [] p\<rparr>)" "length L = length (wd_lanes w)"
    "map ((!) L) todo = ls" "\<forall>b. b \<notin> set todo \<longrightarrow> L ! b = (wd_lanes w)[a := l] ! b"
    by auto
  from leads_trans [OF first L(1)] have "leads P fs W w es (w\<lparr>wd_lanes := L, wd_admin := Joining [] p\<rparr>)"
    by (simp add: j(3))
  moreover have "map ((!) L) (a # todo) = lanes" using L(3,4) a j(2) by simp
  moreover have "\<forall>b. b \<notin> set (a # todo) \<longrightarrow> L ! b = wd_lanes w ! b" using L(4) by simp
  ultimately show ?case using L(2) by blast
qed

subsection \<open>Stopping the lanes\<close>

definition crossbar_of :: "'q world \<Rightarrow> 'q crossbar" where
  "crossbar_of w = \<lparr>xb_capacity = xo_capacity (current w), xb_running = xo_running (current w),
     xb_lanes = map ((!) (wd_lanes w)) (xo_lanes (current w))\<rparr>"

lemma pipeline_of_crossbar: "pl_crossbar (pipeline_of w) = Some (crossbar_of w)"
  by (simp add: pipeline_of_def crossbar_of_def)

lemma pipeline_of_running [simp]: "pl_running (pipeline_of w) = wd_running w"
  by (simp add: pipeline_of_def)

text \<open>What the phases need of the current crossbar.\<close>

definition addresses_ok :: "'q world \<Rightarrow> bool" where
  "addresses_ok w \<longleftrightarrow> wd_crossbar w < length (wd_crossbars w) \<and> distinct (xo_lanes (current w)) \<and>
     (\<forall>a \<in> set (xo_lanes (current w)). a < length (wd_lanes w))"

definition halted :: "'q world \<Rightarrow> 'q world" where
  "halted w = set_current ((current w)\<lparr>xo_running := False\<rparr>) w"

lemma halted_simps [simp]:
  "wd_lanes (halted w) = wd_lanes w"
  "addresses_ok w \<Longrightarrow> current (halted w) = (current w)\<lparr>xo_running := False\<rparr>"
  by (simp_all add: halted_def addresses_ok_def)

lemma current_cong:
  "current (w\<lparr>wd_lanes := L\<rparr>) = current w" "current (w\<lparr>wd_admin := a\<rparr>) = current w"
  "current (w\<lparr>wd_queue_no := n\<rparr>) = current w" "current (w\<lparr>wd_accepting := b\<rparr>) = current w"
  "current (w\<lparr>wd_running := b\<rparr>) = current w" "current (w\<lparr>wd_cfg := c\<rparr>) = current w"
  "current (w\<lparr>wd_routes := rs\<rparr>) = current w" "current (w\<lparr>wd_cache := ca\<rparr>) = current w"
  by (simp_all add: current_def)

lemma join_lane_joined: "join_lane P fs W l = Some r \<Longrightarrow> ln_worker (snd r) = NoThread"
  by (induction rule: join_lane_induct) simp_all

lemma join_lanes_joined: "join_lanes P fs W ls = Some (es, ls') \<Longrightarrow> \<forall>l \<in> set ls'. ln_worker l = NoThread"
proof (induction ls arbitrary: es ls')
  case Nil
  then show ?case by simp
next
  case (Cons l ls)
  then show ?case by (fastforce dest: join_lane_joined split: option.splits prod.splits)
qed

lemma stopping_leads:
  assumes "addresses_ok w" "stop_lanes P fs W sched (p \<noteq> ForStop) (crossbar_of w) = Some (es, x')"
  shows "\<exists>L n. leads P fs W (stop_begins p w) es ((halted w)\<lparr>wd_lanes := L, wd_queue_no := n,
      wd_admin := (if p = ForRoutes then Joining [] ForRoutes else Flushing)\<rparr>) \<and> length L = length (wd_lanes w) \<and>
    x' = \<lparr>xb_capacity = xo_capacity (current w), xb_running = False, xb_lanes = map ((!) L) (xo_lanes (current w))\<rparr>"
proof -
  let ?ls = "xo_lanes (current w)"
  have ls: "distinct ?ls" "\<forall>a \<in> set ?ls. a < length (wd_lanes w)" using assms(1) by (simp_all add: addresses_ok_def)
  define joined_by where "joined_by L = (halted w)\<lparr>wd_lanes := L, wd_admin := Joining [] p\<rparr>" for L
  obtain L lanes where L: "leads P fs W (stop_begins p w) es (joined_by L)" "length L = length (wd_lanes w)"
    "map ((!) L) ?ls = lanes" "x' = \<lparr>xb_capacity = xo_capacity (current w), xb_running = False,
      xb_lanes = (if p = ForStop then map (fresh_queue W (xo_capacity (current w))) lanes else lanes)\<rparr>"
  proof (cases "\<not> xo_running (current w) \<and> ?ls = []")
    case True
    then have "(current w)\<lparr>xo_running := False\<rparr> = current w" by (cases "current w") simp
    then have "halted w = w" by (simp add: halted_def set_current_def current_def)
    with True assms(2) leads_refl [of P fs W "w\<lparr>wd_admin := Joining [] p\<rparr>"] show ?thesis
      by (intro that [of "wd_lanes w" "[]"])
        (auto simp: stop_lanes_def crossbar_of_def stop_begins_def Let_def joined_by_def)
  next
    case False
    let ?drain = "p \<noteq> ForStop"
    let ?sig = "each_lane (signal_stop W ?drain) ?ls (wd_lanes w)"
    have v: "map ((!) ?sig) ?ls = map (signal_stop W ?drain) (map ((!) (wd_lanes w)) ?ls)"
      using map_each_lane [OF ls(2)] .
    obtain es1 lanes1 where r: "run_workers P fs W sched (map ((!) ?sig) ?ls) = (es1, lanes1)" by fastforce
    obtain es2 lanes2 where j: "join_lanes P fs W lanes1 = Some (es2, lanes2)" "es = es1 @ es2"
      "x' = \<lparr>xb_capacity = xo_capacity (current w), xb_running = False,
        xb_lanes = (if p = ForStop then map (fresh_queue W (xo_capacity (current w))) lanes2 else lanes2)\<rparr>"
      using assms(2) False r unfolding v by (auto simp: stop_lanes_def crossbar_of_def split: option.splits)
    let ?w1 = "(halted w)\<lparr>wd_lanes := ?sig, wd_admin := Joining ?ls p\<rparr>"
    let ?marked = "each_lane (\<lambda>l. l\<lparr>ln_drain := ?drain\<rparr>) ?ls (wd_lanes w)"
    let ?w0 = "(halted w)\<lparr>wd_lanes := ?marked, wd_admin := Signalling ?ls ?ls p\<rparr>"
    have "signal_stop W ?drain \<circ> (\<lambda>l. l\<lparr>ln_drain := ?drain\<rparr>) = signal_stop W ?drain"
      by (auto simp: signal_stop_def joinable_def)
    then have m: "each_lane (signal_stop W ?drain) ?ls ?marked = ?sig" by (simp only: each_lane_twice)
    have begins: "stop_begins p w = ?w0" using False by (auto simp: stop_begins_def Let_def halted_def set_current_def)
    have sig: "leads P fs W ?w0 [] ?w1"
      using signalling_leads [of ?w0 ?ls ?ls p P fs W] ls by (simp add: m)
    obtain L1 where L1: "leads P fs W ?w1 es1 (?w1\<lparr>wd_lanes := L1\<rparr>)" "length L1 = length (wd_lanes w)"
      "map ((!) L1) ?ls = lanes1"
      using workers_lead [OF ls(1), of ?w1 P fs W sched es1 lanes1] ls(2) r by auto
    obtain L2 where L2: "leads P fs W (?w1\<lparr>wd_lanes := L1\<rparr>) es2 (joined_by L2)" "length L2 = length (wd_lanes w)"
      "map ((!) L2) ?ls = lanes2"
      using joining_leads [of "?w1\<lparr>wd_lanes := L1\<rparr>" ?ls p P fs W es2 lanes2] ls j(1) L1(2,3)
      by (auto simp: joined_by_def)
    show ?thesis
      using leads_trans [OF leads_quietly [OF sig L1(1)] L2(1)] L2(2,3) j(2,3) begins by (intro that [of L2 lanes2]) simp_all
  qed
  show ?thesis
  proof (cases p)
    case ForClose
    then have "leads P fs W (joined_by L) [] ((joined_by L)\<lparr>wd_admin := Flushing\<rparr>)"
      by (intro leads_admin) (simp add: joined_by_def)
    with leads_trans [OF L(1) this] L(2-4) ForClose show ?thesis
      by (intro exI [of _ L] exI [of _ "wd_queue_no (halted w)"]) (simp add: joined_by_def)
  next
    case ForRoutes
    with L show ?thesis
      by (intro exI [of _ L] exI [of _ "wd_queue_no (halted w)"]) (simp add: joined_by_def)
  next
    case ForStop
    let ?L = "each_lane (fresh_queue W (xo_capacity (current w))) ?ls L"
    let ?r = "(joined_by L)\<lparr>wd_admin := Replacing ?ls\<rparr>"
    have cur: "current (joined_by L) = (current w)\<lparr>xo_running := False\<rparr>"
      using assms(1) by (simp add: joined_by_def current_cong)
    have rep: "leads P fs W (joined_by L) [] ?r"
      by (rule leads_admin) (use ForStop cur in \<open>simp add: joined_by_def\<close>)
    obtain n where new: "leads P fs W ?r [] (?r\<lparr>wd_lanes := ?L, wd_queue_no := n, wd_admin := Flushing\<rparr>)"
      using replacing_leads [of ?r ?ls P fs W] ls L(2) cur by (auto simp: joined_by_def current_cong)
    from leads_trans [OF L(1) leads_quietly [OF rep new]]
    have "leads P fs W (stop_begins p w) es (?r\<lparr>wd_lanes := ?L, wd_queue_no := n, wd_admin := Flushing\<rparr>)" by simp
    moreover have "map ((!) ?L) ?ls = map (fresh_queue W (xo_capacity (current w))) lanes"
      using ls(2) L(2,3) by auto
    ultimately show ?thesis using L(2,4) ForStop
      by (intro exI [of _ ?L] exI [of _ n]) (simp add: joined_by_def)
  qed
qed

subsection \<open>The operations\<close>

lemma pipeline_of_frame [simp]:
  "pipeline_of (w\<lparr>wd_admin := a\<rparr>) = pipeline_of w" "crossbar_of (w\<lparr>wd_admin := a\<rparr>) = crossbar_of w"
  "pipeline_of (w\<lparr>wd_accepting := b\<rparr>) = (pipeline_of w)\<lparr>pl_accepting := b\<rparr>"
  "pipeline_of (w\<lparr>wd_running := b\<rparr>) = (pipeline_of w)\<lparr>pl_running := b\<rparr>"
  "pipeline_of (w\<lparr>wd_cfg := c\<rparr>) = (pipeline_of w)\<lparr>pl_cfg := c\<rparr>"
  "crossbar_of (w\<lparr>wd_accepting := b\<rparr>) = crossbar_of w" "crossbar_of (w\<lparr>wd_running := b\<rparr>) = crossbar_of w"
  "crossbar_of (w\<lparr>wd_cfg := c\<rparr>) = crossbar_of w"
  by (simp_all add: pipeline_of_def crossbar_of_def current_cong)

lemma addresses_ok_frame [simp]:
  "addresses_ok (w\<lparr>wd_admin := a\<rparr>) = addresses_ok w" "addresses_ok (w\<lparr>wd_accepting := b\<rparr>) = addresses_ok w"
  "addresses_ok (w\<lparr>wd_running := b\<rparr>) = addresses_ok w"
  by (simp_all add: addresses_ok_def current_cong)

definition new_crossbar :: "'q workers \<Rightarrow> bool \<Rightarrow> size_t \<Rightarrow> route list \<Rightarrow> 'q crossbar" where
  "new_crossbar W up capacity routes =
     \<lparr>xb_capacity = max capacity 1, xb_running = up,
      xb_lanes = (let made = map (new_lane W (max capacity 1)) routes in if up then map launch made else made)\<rparr>"

lemma renew_crossbar_idle:
  assumes "pl_crossbar p = Some x" "\<forall>l \<in> set (xb_lanes x). ln_worker l = NoThread"
  shows "renew_crossbar P fs W sched p =
    Some ([], p\<lparr>pl_crossbar := Some (new_crossbar W False (cfg_queue_capacity (pl_cfg p)) (pl_routes p))\<rparr>)"
  using stop_lanes_idle [OF assms(2), of P fs W sched False] assms(1)
  by (auto simp: renew_crossbar_def crossbar_request_stop_def crossbar_configure_def crossbar_new_def
      new_crossbar_def Let_def)

lemma map_appended: "map ((!) (xs @ ys)) [length xs ..< length xs + length ys] = ys"
  by (intro nth_equalityI) simp_all

lemma pipeline_of_renew:
  "pipeline_of (renew W w) =
     (pipeline_of w)\<lparr>pl_crossbar := Some (new_crossbar W False (cfg_queue_capacity (wd_cfg w)) (wd_routes w))\<rparr>"
  using map_appended [of "wd_lanes w" "map (new_lane W (max (cfg_queue_capacity (wd_cfg w)) 1)) (wd_routes w)"]
  by (simp add: pipeline_of_def renew_def new_lanes_def current_def new_crossbar_def Let_def)

lemma pipeline_of_rebuild:
  assumes "addresses_ok w" "\<not> xo_running (current w)"
  shows "pipeline_of (rebuild W up w) =
    (pipeline_of w)\<lparr>pl_crossbar := Some (new_crossbar W up (cfg_queue_capacity (wd_cfg w)) (wd_routes w))\<rparr>"
  using map_appended [of "wd_lanes w" "map (new_lane W (max (cfg_queue_capacity (wd_cfg w)) 1)) (wd_routes w)"]
    map_appended [of "wd_lanes w" "map launch (map (new_lane W (max (cfg_queue_capacity (wd_cfg w)) 1)) (wd_routes w))"]
    assms
  by (auto simp: pipeline_of_def rebuild_def new_lanes_def current_def new_crossbar_def set_current_def
      addresses_ok_def Let_def)

lemma pipeline_of_halted:
  assumes "addresses_ok w"
  shows "pipeline_of ((halted w)\<lparr>wd_lanes := L, wd_queue_no := n, wd_admin := a\<rparr>) =
    (pipeline_of w)\<lparr>pl_crossbar := Some \<lparr>xb_capacity = xo_capacity (current w), xb_running = False,
       xb_lanes = map ((!) L) (xo_lanes (current w))\<rparr>\<rparr>"
  using assms by (simp add: pipeline_of_def current_cong) (simp add: halted_def set_current_def)

lemma stop_lanes_joined:
  assumes "stop_lanes P fs W sched drain x = Some (es, x')"
  shows "\<forall>l \<in> set (xb_lanes x'). ln_worker l = NoThread"
  using assms join_lanes_joined
  by (fastforce simp: stop_lanes_def fresh_queue_def split: if_splits option.splits prod.splits)

lemma shutdown_leads:
  assumes "addresses_ok w" "p \<noteq> ForRoutes" "stop_lanes P fs W sched (p \<noteq> ForStop) (crossbar_of w) = Some (es, x')"
  shows "\<exists>w'. leads P fs W (stop_begins p w) (es @ crossbar_flush x') w' \<and> wd_admin w' = Ready \<and>
    pipeline_of w' = (pipeline_of w)\<lparr>pl_crossbar := Some (new_crossbar W False (cfg_queue_capacity (wd_cfg w)) (wd_routes w))\<rparr>"
proof -
  from stopping_leads [OF assms(1,3)] assms(2) obtain L n where
    L: "leads P fs W (stop_begins p w) es ((halted w)\<lparr>wd_lanes := L, wd_queue_no := n, wd_admin := Flushing\<rparr>)"
    "x' = \<lparr>xb_capacity = xo_capacity (current w), xb_running = False, xb_lanes = map ((!) L) (xo_lanes (current w))\<rparr>"
    by auto
  let ?w = "(halted w)\<lparr>wd_lanes := L, wd_queue_no := n, wd_admin := Flushing\<rparr>"
  let ?w' = "(renew W (?w\<lparr>wd_admin := Renewing\<rparr>))\<lparr>wd_admin := Ready\<rparr>"
  have "crossbar_flush x' = flush_object ?w"
    using assms(1) by (simp add: crossbar_flush_def flush_object_def L(2) current_cong o_def)
  then have "leads P fs W ?w (crossbar_flush x') (?w\<lparr>wd_admin := Renewing\<rparr>)"
    by (intro leads_step [of OvAdmin P fs W ?w "[(ByAdmin, flush_object ?w)]"]) simp_all
  moreover have "leads P fs W (?w\<lparr>wd_admin := Renewing\<rparr>) [] ?w'" by (rule leads_admin) simp
  ultimately have "leads P fs W (stop_begins p w) (es @ crossbar_flush x') ?w'"
    using leads_trans [OF L(1)] leads_trans by fastforce
  moreover have "wd_cfg (halted w) = wd_cfg w" "wd_routes (halted w) = wd_routes w"
    by (simp_all add: halted_def set_current_def)
  ultimately show ?thesis using pipeline_of_halted [OF assms(1)]
    by (intro exI [of _ ?w']) (simp add: pipeline_of_renew)
qed

lemma reconfigure_leads:
  assumes "addresses_ok w" "wd_admin w = Configuring"
    "crossbar_configure P fs W sched (wd_routes w) (cfg_queue_capacity (wd_cfg w)) (crossbar_of w) = Some (es, x')"
  shows "\<exists>w'. leads P fs W w es w' \<and> wd_admin w' = Ready \<and>
    pipeline_of w' = (pipeline_of w)\<lparr>pl_crossbar := Some x'\<rparr>"
proof (cases "xo_running (current w)")
  case False
  let ?w = "(rebuild W False w)\<lparr>wd_admin := Ready\<rparr>"
  have "leads P fs W w [] ?w" by (rule leads_admin) (simp add: assms(2) False)
  moreover have "es = []" "x' = new_crossbar W False (cfg_queue_capacity (wd_cfg w)) (wd_routes w)"
    using assms(3) False by (auto simp: crossbar_configure_def crossbar_of_def new_crossbar_def Let_def)
  ultimately show ?thesis using pipeline_of_rebuild [OF assms(1) False] by auto
next
  case True
  from assms(3) True obtain x1 where x1: "stop_lanes P fs W sched (ForRoutes \<noteq> ForStop) (crossbar_of w) = Some (es, x1)"
    "x' = new_crossbar W True (cfg_queue_capacity (wd_cfg w)) (wd_routes w)"
    by (cases "stop_lanes P fs W sched True (crossbar_of w)")
      (auto simp: crossbar_configure_def crossbar_of_def new_crossbar_def Let_def)
  from stopping_leads [OF assms(1) x1(1)] obtain L n where
    L: "leads P fs W (stop_begins ForRoutes w) es
      ((halted w)\<lparr>wd_lanes := L, wd_queue_no := n, wd_admin := Joining [] ForRoutes\<rparr>)" "length L = length (wd_lanes w)"
    by auto
  let ?w = "(halted w)\<lparr>wd_lanes := L, wd_queue_no := n, wd_admin := Joining [] ForRoutes\<rparr>"
  let ?w' = "(rebuild W True ?w)\<lparr>wd_admin := Ready\<rparr>"
  have begins: "leads P fs W w [] (stop_begins ForRoutes w)"
    by (rule leads_admin) (simp add: assms(2) True)
  have ends: "leads P fs W ?w [] ?w'" by (rule leads_admin) simp
  from leads_trans [OF leads_quietly [OF begins L(1)] ends] have "leads P fs W w es ?w'" by simp
  moreover have "addresses_ok ?w" "\<not> xo_running (current ?w)"
    using assms(1) L(2) by (simp_all add: addresses_ok_def current_cong) (simp add: halted_def set_current_def)
  moreover have "wd_cfg ?w = wd_cfg w" "wd_routes ?w = wd_routes w"
    by (simp_all add: halted_def set_current_def)
  ultimately show ?thesis using pipeline_of_rebuild [of ?w W True] pipeline_of_halted [OF assms(1)] x1(2)
    by (intro exI [of _ ?w']) simp
qed

lemma admin_kept [simp]: "wd_admin (renew W w) = wd_admin w" "wd_admin (starts W w) = wd_admin w"
  by (simp_all add: renew_def new_lanes_def starts_def set_current_def Let_def)

lemma start_calm:
  assumes "addresses_ok w"
  shows "pipeline_of (starts W w) = start W (pipeline_of w)"
proof -
  have ls: "\<forall>a \<in> set (xo_lanes (current w)). a < length (wd_lanes w)" using assms by (simp add: addresses_ok_def)
  show ?thesis
  proof (cases "wd_running w \<or> xo_running (current w)")
    case True
    then show ?thesis
      by (auto simp: starts_def start_def Let_def current_cong pipeline_of_def crossbar_start_def)
  next
    case False
    with assms map_each_lane [OF ls] show ?thesis
      by (simp add: starts_def start_def Let_def current_cong pipeline_of_def crossbar_start_def addresses_ok_def)
        (simp add: set_current_def current_def)
  qed
qed

text \<open>The action that begins an operation; the rest of it is up to \<open>OvAdmin\<close> and the workers.\<close>

fun action_of :: "nat \<Rightarrow> pl_op \<Rightarrow> ov_action option" where
  "action_of t (OpConfigure cfg) = Some (OvConfigure cfg)"
| "action_of t (OpAddGlobalFilter f) = Some (OvGlobalFilter f)"
| "action_of t OpClearGlobalFilters = Some OvClearGlobalFilters"
| "action_of t (OpAddRoute r) = Some (OvAddRoute r)"
| "action_of t OpClearRoutes = Some OvClearRoutes"
| "action_of t OpStart = Some OvStart"
| "action_of t OpClosePipeline = Some OvClose"
| "action_of t OpRequestStop = Some OvRequestStop"
| "action_of t OpFlush = Some (OvFlush t)"
| "action_of t _ = None"

definition calmly ::
  "platform \<Rightarrow> filter_store \<Rightarrow> 'q workers \<Rightarrow> ov_action \<Rightarrow> 'q world \<Rightarrow> effect list \<Rightarrow> 'q pipeline \<Rightarrow> bool" where
  "calmly P fs W a w es p \<longleftrightarrow> (\<exists>os w1 es' w'. ov_step P fs W a w = Some ((os, []), w1) \<and> leads P fs W w1 es' w' \<and>
     es = concat (map snd os) @ es' \<and> wd_admin w' = Ready \<and> pipeline_of w' = p)"

lemma calmly_at_once:
  "ov_step P fs W a w = Some ((os, []), w1) \<Longrightarrow> wd_admin w1 = Ready \<Longrightarrow>
   calmly P fs W a w (concat (map snd os)) (pipeline_of w1)"
  unfolding calmly_def using leads_refl by fastforce

lemma shutdown_calm:
  assumes "addresses_ok w" "wd_admin w = Ready"
    "(a, p) \<in> {(OvClose, ForClose), (OvRequestStop, ForStop)}"
    "stop_lanes P fs W sched (p \<noteq> ForStop) (crossbar_of w) = Some (es, x')"
  shows "calmly P fs W a w (es @ crossbar_flush x') ((pipeline_of w)\<lparr>pl_accepting := False, pl_running := False,
    pl_crossbar := Some (new_crossbar W False (cfg_queue_capacity (wd_cfg w)) (wd_routes w))\<rparr>)"
proof -
  let ?entered = "w\<lparr>wd_accepting := False, wd_admin := (if a = OvClose then Closing else Stopping)\<rparr>"
  let ?halting = "?entered\<lparr>wd_running := False\<rparr>"
  have step: "ov_step P fs W a w = Some (([], []), ?entered)" using assms(2,3) by auto
  have begins: "leads P fs W ?entered [] (stop_begins p ?halting)"
    by (rule leads_admin) (use assms(3) in auto)
  have p: "p \<noteq> ForRoutes" using assms(3) by auto
  have ok: "addresses_ok ?halting" "stop_lanes P fs W sched (p \<noteq> ForStop) (crossbar_of ?halting) = Some (es, x')"
    using assms(1,4) by simp_all
  from shutdown_leads [OF ok(1) p ok(2)] obtain w' where
    w': "leads P fs W (stop_begins p ?halting) (es @ crossbar_flush x') w'" "wd_admin w' = Ready"
    "pipeline_of w' = (pipeline_of ?halting)\<lparr>pl_crossbar := Some (new_crossbar W False (cfg_queue_capacity (wd_cfg w)) (wd_routes w))\<rparr>"
    by auto
  from step leads_quietly [OF begins w'(1)] w'(2,3) show ?thesis
    unfolding calmly_def by (intro exI [of _ "[]"] exI [of _ ?entered] exI [of _ "es @ crossbar_flush x'"] exI [of _ w']) simp
qed

lemma operation_calm:
  assumes "addresses_ok w" "wd_admin w = Ready" "\<not> wd_running w \<longrightarrow> (\<forall>l \<in> set (xb_lanes (crossbar_of w)). ln_worker l = NoThread)"
    "action_of t oper = Some a" "pl_step P fs W sched oper (pipeline_of w) = Some (es, p)"
  shows "calmly P fs W a w es p"
proof -
  note fields = pipeline_of_def [where w = w]
  have stopped: "renew_crossbar P fs W [] (q\<lparr>pl_crossbar := Some x'\<rparr>) = Some ([], q\<lparr>pl_crossbar :=
      Some (new_crossbar W False (cfg_queue_capacity (pl_cfg q)) (pl_routes q))\<rparr>)"
    if "stop_lanes P fs W sched drain x = Some (es', x')" for drain x es' x' q
    using renew_crossbar_idle [of "q\<lparr>pl_crossbar := Some x'\<rparr>" x'] stop_lanes_joined [OF that] by simp
  have route: "calmly P fs W a w es p"
    if "a = b" "ov_step P fs W b w = Some (([], []), change_routes rs w)"
      "reconfigure_crossbar P fs W sched rs (pipeline_of (change_routes rs w)) = Some (es, p)" for b rs
  proof -
    let ?w = "change_routes rs w"
    have w: "addresses_ok ?w" "wd_admin ?w = Configuring" "wd_routes ?w = rs"
      using assms(1) by (simp_all add: change_routes_def addresses_ok_def current_def)
    from that(3) obtain x where
      "crossbar_configure P fs W sched (wd_routes ?w) (cfg_queue_capacity (wd_cfg ?w)) (crossbar_of ?w) = Some (es, x)"
      "p = (pipeline_of ?w)\<lparr>pl_crossbar := Some x\<rparr>"
      by (auto simp: reconfigure_crossbar_def pipeline_of_crossbar w(3) split: bind_splits) (simp add: pipeline_of_def)
    with reconfigure_leads [OF w(1,2)] that(1,2) show ?thesis unfolding calmly_def by fastforce
  qed
  show ?thesis
  proof (cases oper)
    case (OpConfigure cfg)
    have "renew_crossbar P fs W sched ((pipeline_of w)\<lparr>pl_cfg := cfg\<rparr>) = Some ([], ((pipeline_of w)\<lparr>pl_cfg := cfg\<rparr>)
        \<lparr>pl_crossbar := Some (new_crossbar W False (cfg_queue_capacity cfg) (wd_routes w))\<rparr>)" if "\<not> wd_running w"
      using renew_crossbar_idle [of "(pipeline_of w)\<lparr>pl_cfg := cfg\<rparr>" "crossbar_of w"] assms(3) that
      by (simp add: pipeline_of_crossbar) (simp add: fields)
    moreover have "a = OvConfigure cfg" using OpConfigure assms(4) by simp
    ultimately show ?thesis using OpConfigure assms(2,5)
        calmly_at_once [of P fs W "OvConfigure cfg" w "[]" "if wd_running w then w\<lparr>wd_cfg := cfg\<rparr>
          else (renew W (w\<lparr>wd_cfg := cfg\<rparr>))\<lparr>wd_accepting := True\<rparr>"]
      by (cases "wd_running w") (simp_all add: configure_def pipeline_of_renew fields)
  next
    case OpClosePipeline
    with assms(5) obtain es1 x1 where x1: "stop_lanes P fs W sched (ForClose \<noteq> ForStop) (crossbar_of w) = Some (es1, x1)"
      by (auto simp: close_def crossbar_close_def pipeline_of_crossbar Let_def split: bind_splits)
    from shutdown_calm [OF assms(1,2) _ x1, of OvClose] stopped [OF x1] x1 OpClosePipeline assms(4,5)
    show ?thesis
      by (auto simp: close_def crossbar_close_def pipeline_of_crossbar flush_def Let_def) (simp add: fields)
  next
    case OpRequestStop
    with assms(5) obtain es1 x1 where x1: "stop_lanes P fs W sched (ForStop \<noteq> ForStop) (crossbar_of w) = Some (es1, x1)"
      by (auto simp: request_stop_def crossbar_request_stop_def pipeline_of_crossbar Let_def split: bind_splits)
    from shutdown_calm [OF assms(1,2) _ x1, of OvRequestStop] stopped [OF x1] x1 OpRequestStop assms(4,5)
    show ?thesis
      by (auto simp: request_stop_def crossbar_request_stop_def pipeline_of_crossbar flush_def Let_def) (simp add: fields)
  next
    case (OpAddRoute r)
    with assms(2,4,5) show ?thesis
      by (intro route [of "OvAddRoute r" "wd_routes w @ [r]"])
        (auto simp: add_route_def Let_def pipeline_of_def change_routes_def current_def)
  next
    case OpClearRoutes
    with assms(2,4,5) show ?thesis
      by (intro route [of OvClearRoutes "[]"])
        (auto simp: clear_routes_def Let_def pipeline_of_def change_routes_def current_def)
  next
    case OpStart
    with assms(2,4,5) start_calm [OF assms(1), of W] calmly_at_once [of P fs W OvStart w "[]" "starts W w"]
    show ?thesis by auto
  next
    case OpFlush
    have "flush (pipeline_of w) = flush_object w"
      by (simp add: flush_def pipeline_of_crossbar crossbar_flush_def flush_object_def crossbar_of_def o_def)
    with OpFlush assms(2,4,5) calmly_at_once [of P fs W "OvFlush t" w "[(ByCaller t, flush_object w)]" w]
    show ?thesis by auto
  next
    case (OpAddGlobalFilter f)
    with assms(2,4,5) calmly_at_once [of P fs W a w "[]" "w\<lparr>wd_global_filters := wd_global_filters w @ [f]\<rparr>"]
    show ?thesis by (auto simp: add_global_filter_def pipeline_of_def current_def)
  next
    case OpClearGlobalFilters
    with assms(2,4,5) calmly_at_once [of P fs W a w "[]" "w\<lparr>wd_global_filters := []\<rparr>"]
    show ?thesis by (auto simp: clear_global_filters_def pipeline_of_def current_def)
  qed (use assms(4) in simp_all)
qed

text \<open>The operations return.\<close>

lemma stop_lanes_serving:
  assumes "workers_ok W items closed"
    "\<forall>l \<in> set (xb_lanes x). lane_ok items l \<and> (ln_worker l = NoThread \<or> ln_worker l = Popping)"
  shows "\<exists>r. stop_lanes P fs W sched drain x = Some r"
proof -
  have "stopping items closed (signal_stop W drain l)" if "l \<in> set (xb_lanes x)" for l
  proof -
    have l: "lane_ok items l" "ln_worker l = NoThread \<or> ln_worker l = Popping" using assms(2) that by simp_all
    then obtain q where q: "ln_queue l = Some q" "queue_inv items q" "lane_items items l = items (eq_queue q)"
      by (auto elim: lane_okE)
    from close_queue_spec [OF assms(1) q(2)] q l show ?thesis
      by (auto simp: stopping_def signal_stop_def lane_simps)
  qed
  then have stp: "\<forall>l \<in> set (map (signal_stop W drain) (xb_lanes x)). stopping items closed l" by simp
  obtain es lanes where r: "run_workers P fs W sched (map (signal_stop W drain) (xb_lanes x)) = (es, lanes)" by fastforce
  from run_and_join [OF assms(1) stp r] r show ?thesis by (auto simp: stop_lanes_def)
qed

lemma operation_returns:
  assumes "workers_ok W items closed" "world_ok items closed w" "wd_admin w = Ready" "action_of t oper = Some a"
  shows "\<exists>es p. pl_step P fs W sched oper (pipeline_of w) = Some (es, p)"
proof -
  let ?ls = "xb_lanes (crossbar_of w)"
  have lane: "lane_ok items l \<and> (ln_worker l = NoThread \<or> ln_worker l = Popping)" if here: "l \<in> set ?ls" for l
  proof -
    obtain b where b: "b \<in> set (xo_lanes (current w))" "l = wd_lanes w ! b" using here by (auto simp: crossbar_of_def)
    have "current_open closed w" using world_okD(5) [OF assms(2)] assms(3) by simp
    from current_stage [OF this b(1)] world_okD(3) [OF assms(2)] current_lanes(2) [OF world_okD(4) [OF assms(2)] b(1)]
    show ?thesis by (auto simp: b(2) serving_def unused_def lane_life_def)
  qed
  have stops: "\<exists>es x'. stop_lanes P fs W sched drain (crossbar_of w) = Some (es, x')" for drain
    using stop_lanes_serving [OF assms(1), of "crossbar_of w"] lane by fastforce
  have renews: "\<exists>r. renew_crossbar P fs W s q = Some r"
    if "pl_crossbar q = Some x" "\<forall>l \<in> set (xb_lanes x). ln_worker l = NoThread" for q x s
    using renew_crossbar_idle [OF that] by blast
  define stopped where "stopped = (pipeline_of w)\<lparr>pl_accepting := False, pl_running := False\<rparr>"
  have stopped_renews: "\<exists>r. renew_crossbar P fs W [] (stopped\<lparr>pl_crossbar := Some x'\<rparr>) = Some r"
    if "stop_lanes P fs W sched drain x = Some (es, x')" for drain x es x'
    using renews [OF _ stop_lanes_joined [OF that]] by simp
  have configures: "\<exists>r. crossbar_configure P fs W sched rs c (crossbar_of w) = Some r" for rs c
    using stops [of True] by (auto simp: crossbar_configure_def Let_def)
  have down: "ln_worker l = NoThread" if "\<not> wd_running w" "l \<in> set ?ls" for l
    using world_idle [OF assms(2,3) that(1)] that(2) current_lanes(2) [OF world_okD(4) [OF assms(2)]]
    by (auto simp: crossbar_of_def)
  show ?thesis
  proof (cases oper)
    case (OpConfigure cfg)
    with renews [of "(pipeline_of w)\<lparr>pl_cfg := cfg\<rparr>" "crossbar_of w" sched] down show ?thesis
      by (cases "wd_running w") (auto simp: configure_def Let_def pipeline_of_crossbar)
  next
    case (OpAddRoute r)
    obtain r' where "crossbar_configure P fs W sched (pl_routes (pipeline_of w) @ [r])
        (cfg_queue_capacity (pl_cfg (pipeline_of w))) (crossbar_of w) = Some r'" using configures by blast
    with OpAddRoute show ?thesis
      by (simp add: add_route_def reconfigure_crossbar_def pipeline_of_crossbar Let_def)
  next
    case OpClearRoutes
    obtain r' where "crossbar_configure P fs W sched [] (cfg_queue_capacity (pl_cfg (pipeline_of w))) (crossbar_of w) =
        Some r'" using configures by blast
    with OpClearRoutes show ?thesis
      by (simp add: clear_routes_def reconfigure_crossbar_def pipeline_of_crossbar Let_def)
  next
    case OpClosePipeline
    obtain es x' where x': "stop_lanes P fs W sched True (crossbar_of w) = Some (es, x')" using stops by blast
    from stopped_renews [OF x'] obtain r where
      "renew_crossbar P fs W [] (stopped\<lparr>pl_crossbar := Some x'\<rparr>) = Some r" by blast
    with x' OpClosePipeline show ?thesis
      by (simp add: close_def crossbar_close_def pipeline_of_crossbar Let_def stopped_def)
  next
    case OpRequestStop
    obtain es x' where x': "stop_lanes P fs W sched False (crossbar_of w) = Some (es, x')" using stops by blast
    from stopped_renews [OF x'] obtain r where
      "renew_crossbar P fs W [] (stopped\<lparr>pl_crossbar := Some x'\<rparr>) = Some r" by blast
    with x' OpRequestStop show ?thesis
      by (simp add: request_stop_def crossbar_request_stop_def pipeline_of_crossbar Let_def stopped_def)
  qed (use assms(4) in simp_all)
qed

lemma leads_calls:
  assumes "leads P fs W w es w'"
  shows "wd_calls w' = wd_calls w"
proof -
  have "list_all background acts \<Longrightarrow> ov_run P fs W acts w = Some (sh, w') \<Longrightarrow> wd_calls w' = wd_calls w" for acts sh
  proof (induction acts arbitrary: w sh)
    case Nil
    then show ?case by simp
  next
    case (Cons b acts)
    from Cons.prems(2) obtain sh1 w1 sh2 where
      r: "ov_step P fs W b w = Some (sh1, w1)" "ov_run P fs W acts w1 = Some (sh2, w')"
      by (auto split: option.splits prod.splits)
    have "background b" "list_all background acts" using Cons.prems(1) by simp_all
    with Cons.IH [OF _ r(2)] background_calls [OF _ r(1)] show ?case by simp
  qed
  with assms show ?thesis unfolding leads_def by blast
qed

lemma calm_run:
  assumes "workers_ok W items closed" "ov_run P fs W acts initial_world = Some (sh, w)" "wd_admin w = Ready"
    "action_of t oper = Some a"
  shows "\<exists>es p more os w'. pl_step P fs W sched oper (pipeline_of w) = Some (es, p) \<and>
    list_all background more \<and> ov_run P fs W (a # more) w = Some ((os, []), w') \<and> concat (map snd os) = es \<and>
    pipeline_of w' = p \<and> wd_admin w' = Ready \<and> wd_calls w' = wd_calls w"
proof -
  have ok: "world_ok items closed w" using ov_run_ok [OF assms(1) initial_world_ok assms(2)] by blast
  then have addr: "addresses_ok w"
    using current_lanes [OF world_okD(4) [OF ok]] world_okD(4) [OF ok] by (simp add: addresses_ok_def objects_ok_def)
  have down: "\<not> wd_running w \<longrightarrow> (\<forall>l \<in> set (xb_lanes (crossbar_of w)). ln_worker l = NoThread)"
    using world_idle [OF ok assms(3)] addr by (auto simp: crossbar_of_def addresses_ok_def)
  obtain es p where s: "pl_step P fs W sched oper (pipeline_of w) = Some (es, p)"
    using operation_returns [OF assms(1) ok assms(3,4)] by blast
  from operation_calm [OF addr assms(3) down assms(4) s] obtain os w1 es' w' where
    c: "ov_step P fs W a w = Some ((os, []), w1)" "leads P fs W w1 es' w'" "es = concat (map snd os) @ es'"
      "wd_admin w' = Ready" "pipeline_of w' = p"
    unfolding calmly_def by blast
  from c(2) obtain more os' where "list_all background more" "ov_run P fs W more w1 = Some ((os', []), w')"
    "concat (map snd os') = es'" unfolding leads_def by blast
  moreover have "wd_calls w1 = wd_calls w"
    using c(1) assms(4) by (cases oper) (auto simp: change_routes_def renew_def new_lanes_def starts_def set_current_def
      Let_def split: if_splits)
  ultimately show ?thesis using s c leads_calls [OF c(2)]
    by (intro exI [of _ es] exI [of _ p] exI [of _ more] exI [of _ "os @ os'"] exI [of _ w']) simp
qed

subsection \<open>Properties\<close>

text \<open>
  C12. A lifecycle call that nothing but the workers overlaps is the operation of \<open>Pipeline\<close>: in every state that
  any overlapping of calls can reach in which the lifecycle thread is idle, for each of its operations and every
  schedule of the workers, the operation of \<open>Pipeline\<close> returns, and the actions of the call, with
  steps of the workers between them, give the same output and the same pipeline; the thread is idle again, and
  all logging calls stay where they are.
\<close>

theorem calm_operation_is_pipeline_operation:
  assumes "workers_ok W items closed" "ov_run P fs W acts initial_world = Some (sh, w)" "wd_admin w = Ready"
    "action_of t oper = Some a"
  shows "\<exists>es p more os w'. pl_step P fs W sched oper (pipeline_of w) = Some (es, p) \<and>
    list_all background more \<and> ov_run P fs W (a # more) w = Some ((os, []), w') \<and> concat (map snd os) = es \<and>
    pipeline_of w' = p \<and> wd_admin w' = Ready \<and> wd_calls w' = wd_calls w"
  by (rule calm_run [OF assms])

text \<open>A route, a running worker and an event queued for it.\<close>

definition loaded :: "ov_action list" where
  "loaded = [OvConfigure (asynchronous 2), OvAddRoute plain_route, OvAdmin, OvStart,
     OvCall 0 second_event False, OvNext 0, OvNext 0, OvNext 0, OvNext 0, OvNext 0]"

theorem calm_operation_is_pipeline_operation_witness:
  "\<exists>sh w es p more os w'. ov_run plain_platform info_store list_workers loaded initial_world = Some (sh, w) \<and>
    close plain_platform info_store list_workers [0] (pipeline_of w) = Some (es, p) \<and>
    sink_bytes 0 es = ''up'' @ [newline] \<and>
    ov_run plain_platform info_store list_workers (OvClose # more) w = Some ((os, []), w') \<and>
    sink_bytes 0 (concat (map snd os)) = ''up'' @ [newline] \<and> pipeline_of w' = p"
proof -
  have "case ov_run plain_platform info_store list_workers loaded initial_world of None \<Rightarrow> False
      | Some (sh, w) \<Rightarrow> wd_admin w = Ready \<and>
          (case close plain_platform info_store list_workers [0] (pipeline_of w) of None \<Rightarrow> False
           | Some (es, p) \<Rightarrow> sink_bytes 0 es = ''up'' @ [newline])"
    by code_simp
  then obtain sh w es p where w: "ov_run plain_platform info_store list_workers loaded initial_world = Some (sh, w)"
    "wd_admin w = Ready" "close plain_platform info_store list_workers [0] (pipeline_of w) = Some (es, p)"
    "sink_bytes 0 es = ''up'' @ [newline]" by (auto split: option.splits)
  from calm_operation_is_pipeline_operation [OF list_workers_ok w(1,2), of 0 OpClosePipeline OvClose "[0]"] w(3)
  obtain more os w' where
    "ov_run plain_platform info_store list_workers (OvClose # more) w = Some ((os, []), w')"
    "concat (map snd os) = es" "pipeline_of w' = p" by auto
  with w(1,3,4) show ?thesis by blast
qed

end
