(* ===== verification/Lifecycle_Threads.thy ===== *)
theory Lifecycle_Threads
  imports Lifecycle
begin

section \<open>Lifecycle calls of several threads\<close>

text \<open>
  The operations of \<open>Pipeline\<close> that take more than one lock are not atomic: between their sections
  under \<open>state_m\<close> and \<open>worker_m\<close> other threads can do anything, other lifecycle calls included. Here
  every section is one step on the record of \<open>Pipeline\<close>, and a thread between two sections is described
  by what it holds: \<open>add_route\<close> and \<open>clear_routes\<close> the routes for the lanes, \<open>configure\<close> and the tail of
  \<open>close\<close> and \<open>request_stop\<close> a copy of the routes. Operations of one section are one step, a submission
  too (\<open>Overlap\<close> takes it apart, for one thread with lifecycle calls); one that has to wait stays waiting, since
  the lanes it would go on with may be gone.
\<close>

subsection \<open>Sections\<close>

datatype lifecycle_at =
    LanesDue "route list" \<comment> \<open>routes changed; lanes to be rebuilt for this copy\<close>
  | ConfigSet
  | ConfigIdle \<comment> \<open>found not running\<close>
  | ConfigCopied "route list"
  | StopEntered bool \<comment> \<open>\<open>accepting\<close> cleared; whether to drain\<close>
  | StopFlush
  | StopFlushed
  | StopCopied "route list"

definition renew_with ::
  "platform \<Rightarrow> filter_store \<Rightarrow> 'q workers \<Rightarrow> nat list \<Rightarrow> route list \<Rightarrow> 'q pipeline \<Rightarrow>
   (effect list \<times> 'q pipeline) option" where
  "renew_with P fs W sched routes p =
     map_option (\<lambda>(es, p'). (es, p'\<lparr>pl_routes := pl_routes p\<rparr>))
       (renew_crossbar P fs W sched (p\<lparr>pl_routes := routes\<rparr>))"

definition stop_crossbar ::
  "platform \<Rightarrow> filter_store \<Rightarrow> 'q workers \<Rightarrow> nat list \<Rightarrow> bool \<Rightarrow> 'q pipeline \<Rightarrow>
   (effect list \<times> 'q pipeline) option" where
  "stop_crossbar P fs W sched drain p =
     (let p1 = p\<lparr>pl_running := False\<rparr>
      in case pl_crossbar p1 of
           None \<Rightarrow> Some ([], p1)
         | Some x \<Rightarrow> map_option (\<lambda>(es, x'). (es, p1\<lparr>pl_crossbar := Some x'\<rparr>))
             (if drain then crossbar_close P fs W sched x else crossbar_request_stop P fs W sched x))"

text \<open>The first section of an operation, for those that have more than one.\<close>

fun begins :: "pl_op \<Rightarrow> 'q pipeline \<Rightarrow> (lifecycle_at \<times> 'q pipeline) option" where
  "begins (OpAddRoute r) p =
     (let p1 = p\<lparr>pl_routes := pl_routes p @ [r], pl_cache := invalidate_cache (pl_cache p)\<rparr>
      in Some (LanesDue (pl_routes p1), p1))"
| "begins OpClearRoutes p =
     Some (LanesDue [], p\<lparr>pl_routes := [], pl_cache := invalidate_cache (pl_cache p)\<rparr>)"
| "begins (OpConfigure cfg) p = Some (ConfigSet, p\<lparr>pl_cfg := cfg\<rparr>)"
| "begins OpClosePipeline p = Some (StopEntered True, p\<lparr>pl_accepting := False\<rparr>)"
| "begins OpRequestStop p = Some (StopEntered False, p\<lparr>pl_accepting := False\<rparr>)"
| "begins _ p = None"

primrec continues ::
  "platform \<Rightarrow> filter_store \<Rightarrow> 'q workers \<Rightarrow> nat list \<Rightarrow> lifecycle_at \<Rightarrow> 'q pipeline \<Rightarrow>
   (effect list \<times> lifecycle_at option \<times> 'q pipeline) option" where
  "continues P fs W sched (LanesDue routes) p =
     map_option (\<lambda>(es, p'). (es, None, p')) (reconfigure_crossbar P fs W sched routes p)"
| "continues P fs W sched ConfigSet p = Some ([], if pl_running p then None else Some ConfigIdle, p)"
| "continues P fs W sched ConfigIdle p = Some ([], Some (ConfigCopied (pl_routes p)), p)"
| "continues P fs W sched (ConfigCopied routes) p =
     map_option (\<lambda>(es, p'). (es, None, p'\<lparr>pl_accepting := True\<rparr>)) (renew_with P fs W sched routes p)"
| "continues P fs W sched (StopEntered drain) p =
     map_option (\<lambda>(es, p'). (es, Some StopFlush, p')) (stop_crossbar P fs W sched drain p)"
| "continues P fs W sched StopFlush p = Some (flush p, Some StopFlushed, p)"
| "continues P fs W sched StopFlushed p = Some ([], Some (StopCopied (pl_routes p)), p)"
| "continues P fs W sched (StopCopied routes) p =
     map_option (\<lambda>(es, p'). (es, None, p')) (renew_with P fs W sched routes p)"

subsection \<open>Threads\<close>

record 'q contended =
  ct_pipeline :: "'q pipeline"
  ct_at :: "nat \<Rightarrow> lifecycle_at option"

datatype ct_action =
    CtBegin nat pl_op
  | CtNext nat "nat list"
  | CtWhole nat pl_op

fun whole :: "pl_op \<Rightarrow> bool" where
  "whole (OpAddGlobalFilter f) = True"
| "whole OpClearGlobalFilters = True"
| "whole OpStart = True"
| "whole OpFlush = True"
| "whole (OpCachedMinPriority ep) = True"
| "whole (OpSubmit e force_sync) = True"
| "whole (OpWork i) = True"
| "whole _ = False"

fun ct_step ::
  "platform \<Rightarrow> filter_store \<Rightarrow> 'q workers \<Rightarrow> ct_action \<Rightarrow> 'q contended \<Rightarrow> (effect list \<times> 'q contended) option" where
  "ct_step P fs W (CtBegin t oper) s =
     (if ct_at s t \<noteq> None then None
      else case begins oper (ct_pipeline s) of
             None \<Rightarrow> None
           | Some (a, p) \<Rightarrow> Some ([], s\<lparr>ct_pipeline := p, ct_at := (ct_at s)(t := Some a)\<rparr>))"
| "ct_step P fs W (CtNext t sched) s =
     (case ct_at s t of
        None \<Rightarrow> None
      | Some a \<Rightarrow>
          (case continues P fs W sched a (ct_pipeline s) of
             None \<Rightarrow> None
           | Some (es, a', p) \<Rightarrow> Some (es, s\<lparr>ct_pipeline := p, ct_at := (ct_at s)(t := a')\<rparr>)))"
| "ct_step P fs W (CtWhole t oper) s =
     (if ct_at s t \<noteq> None \<or> \<not> whole oper then None
      else map_option (\<lambda>(es, p). (es, s\<lparr>ct_pipeline := p\<rparr>)) (pl_step P fs W [] oper (ct_pipeline s)))"

fun ct_run ::
  "platform \<Rightarrow> filter_store \<Rightarrow> 'q workers \<Rightarrow> ct_action list \<Rightarrow> 'q contended \<Rightarrow> (effect list \<times> 'q contended) option" where
  "ct_run P fs W [] s = Some ([], s)"
| "ct_run P fs W (a # as) s =
     (case ct_step P fs W a s of
        None \<Rightarrow> None
      | Some (es, s1) \<Rightarrow> map_option (\<lambda>(es', s2). (es @ es', s2)) (ct_run P fs W as s1))"

definition initial_contended :: "'q contended" where
  "initial_contended = \<lparr>ct_pipeline = initial_pipeline, ct_at = (\<lambda>_. None)\<rparr>"

subsection \<open>One thread alone\<close>

lemma undisturbed:
  assumes "begins oper p \<noteq> None" "pl_step P fs W sched oper p = Some (es, p')" "ct_at s t = None" "ct_pipeline s = p"
  shows "\<exists>ns. length ns \<le> 4 \<and> ct_run P fs W (CtBegin t oper # map (CtNext t) ns) s = Some (es, s\<lparr>ct_pipeline := p'\<rparr>)"
proof -
  have idle: "(ct_at s)(t := None) = ct_at s" using assms(3) by auto
  note simps = assms(3,4) idle Let_def renew_with_def renew_crossbar_def stop_crossbar_def
  show ?thesis
  proof (cases oper)
    case (OpConfigure cfg)
    show ?thesis
    proof (cases "pl_running p")
      case True
      with OpConfigure assms(2) show ?thesis
        by (intro exI [of _ "[[]]"]) (auto simp: simps configure_def)
    next
      case False
      with OpConfigure assms(2) show ?thesis
        by (intro exI [of _ "[[], [], sched]"])
          (auto simp: simps configure_def split: bind_splits option.splits)
    qed
  next
    case (OpAddRoute r)
    with assms(2) show ?thesis
      by (intro exI [of _ "[sched]"]) (simp add: simps add_route_def)
  next
    case OpClearRoutes
    with assms(2) show ?thesis
      by (intro exI [of _ "[sched]"]) (simp add: simps clear_routes_def)
  next
    case OpClosePipeline
    with assms(2) show ?thesis
      by (intro exI [of _ "[sched, [], [], []]"])
        (auto simp: simps close_def flush_def split: bind_splits option.splits)
  next
    case OpRequestStop
    with assms(2) show ?thesis
      by (intro exI [of _ "[sched, [], [], []]"])
        (auto simp: simps request_stop_def flush_def split: bind_splits option.splits)
  qed (use assms(1) in simp_all)
qed

subsection \<open>Any overlapping\<close>

text \<open>
  What holds of a lane however lifecycle calls overlap. A closed lane can get a worker again, so a worker
  in its first loop may have a closed queue; but whoever has been told to stop has one, and a
  worker that has left its first loop has drained, or will.
\<close>

definition lane_fine :: "('q \<Rightarrow> event list) \<Rightarrow> ('q \<Rightarrow> bool) \<Rightarrow> 'q lane \<Rightarrow> bool" where
  "lane_fine items closed l \<longleftrightarrow> lane_ok items l \<and>
     (ln_worker l \<noteq> NoThread \<longrightarrow> ln_drain l \<and> (ln_stop l \<longrightarrow> lane_shut closed l) \<and>
        (ln_worker l \<noteq> Popping \<longrightarrow> stopping items closed l))"

definition crossbar_fine :: "('q \<Rightarrow> event list) \<Rightarrow> ('q \<Rightarrow> bool) \<Rightarrow> 'q crossbar \<Rightarrow> bool" where
  "crossbar_fine items closed x \<longleftrightarrow>
     (\<forall>l \<in> set (xb_lanes x). lane_fine items closed l \<and> (\<not> xb_running x \<longrightarrow> ln_worker l = NoThread))"

definition pipeline_fine :: "('q \<Rightarrow> event list) \<Rightarrow> ('q \<Rightarrow> bool) \<Rightarrow> 'q pipeline \<Rightarrow> bool" where
  "pipeline_fine items closed p \<longleftrightarrow> (\<exists>x. pl_crossbar p = Some x \<and> crossbar_fine items closed x)"

lemma pipeline_fine_cong: "pl_crossbar p = pl_crossbar q \<Longrightarrow> pipeline_fine items closed p = pipeline_fine items closed q"
  by (simp add: pipeline_fine_def)

lemma lane_fine_idle: "lane_ok items l \<Longrightarrow> ln_worker l = NoThread \<Longrightarrow> lane_fine items closed l"
  by (simp add: lane_fine_def)

lemma lane_fine_start: "lane_ok items l \<Longrightarrow> lane_fine items closed (start_lane W c l)"
  by (auto simp: lane_fine_def lane_ok_def start_lane_def launch_def Let_def)

lemma lane_fine_live: "live items closed l \<Longrightarrow> lane_fine items closed l"
  by (simp add: live_def lane_fine_def)

lemma lane_fine_signal:
  assumes "workers_ok W items closed" "lane_fine items closed l"
  shows "stopping items closed (signal_stop W drain l)"
proof -
  obtain q where q: "ln_queue l = Some q" "queue_inv items q" "lane_items items l = items (eq_queue q)"
    using assms(2) by (auto simp: lane_fine_def elim: lane_okE)
  from close_queue_spec [OF assms(1) q(2)] q assms(2) show ?thesis
    by (auto simp: lane_fine_def stopping_def signal_stop_def lane_simps)
qed

lemma lane_fine_work:
  assumes "workers_ok W items closed" "lane_fine items closed l" "worker_step P fs W l = (es, l')"
  shows "lane_fine items closed l'" "ln_worker l = NoThread \<Longrightarrow> ln_worker l' = NoThread"
proof -
  have ok: "lane_ok items l" using assms(2) by (simp add: lane_fine_def)
  from worker_step_spec [OF assms(1) ok assms(3)] have
    h: "lane_ok items l'" "same_lane l l'" "lane_shut closed l' = lane_shut closed l"
      "ln_worker l = Popping \<longrightarrow> ln_worker l' \<noteq> Popping \<longrightarrow> lane_shut closed l \<or> ln_stop l"
      "stopping items closed l \<longrightarrow> stopping items closed l'" by blast+
  have "stopping items closed l" if "ln_worker l = Popping" "lane_shut closed l"
    using ok that by (simp add: stopping_def)
  with h assms(2) show "lane_fine items closed l'"
    by (cases "ln_worker l = Popping") (auto simp: lane_fine_def same_lane_def)
  show "ln_worker l = NoThread \<Longrightarrow> ln_worker l' = NoThread" using h(2) by (simp add: same_lane_def)
qed

lemma lane_fine_offered:
  assumes "workers_ok W items closed" "lane_fine items closed l"
  shows "lane_fine items closed (lane_offered W e accepting l)"
proof -
  have ok: "lane_ok items l" using assms(2) by (simp add: lane_fine_def)
  have "\<not> admits items closed accepting l" if "lane_shut closed l"
    using that by (auto simp: admits_def lane_shut_def)
  with lane_offered_spec [OF assms(1) ok, where e = e and accepting = accepting] assms(2) show ?thesis
    by (auto simp: lane_fine_def stopping_def)
qed

text \<open>Stopping always returns, and leaves a crossbar without workers.\<close>

lemma stop_lanes_returns:
  assumes "workers_ok W items closed" "crossbar_fine items closed x"
  shows "\<exists>es x'. stop_lanes P fs W sched drain x = Some (es, x') \<and> \<not> xb_running x' \<and>
    crossbar_fine items closed x'"
proof (cases "\<not> xb_running x \<and> xb_lanes x = []")
  case True
  then show ?thesis using assms(2) by (simp add: stop_lanes_def)
next
  case False
  let ?sig = "map (signal_stop W drain) (xb_lanes x)"
  have stp: "\<forall>l \<in> set ?sig. stopping items closed l"
    using lane_fine_signal [OF assms(1)] assms(2) by (auto simp: crossbar_fine_def)
  obtain es1 lanes1 where r: "run_workers P fs W sched ?sig = (es1, lanes1)" by fastforce
  from run_and_join [OF assms(1) stp r] obtain d es2 lanes2 where
    j: "join_lanes P fs W lanes1 = Some (es2, lanes2)" "all_joined items ?sig d lanes2" by blast
  have ok: "\<forall>l \<in> set lanes2. lane_ok items l \<and> ln_worker l = NoThread"
    using j(2) by (auto simp: all_joined_def joined_def in_set_conv_nth)
  let ?x' = "x\<lparr>xb_running := False, xb_lanes :=
    (if \<not> drain then map (fresh_queue W (xb_capacity x)) lanes2 else lanes2)\<rparr>"
  have "stop_lanes P fs W sched drain x = Some (es1 @ es2, ?x')"
    using False r j(1) by (auto simp: stop_lanes_def)
  moreover have "crossbar_fine items closed ?x'"
    using ok fresh_queue_spec [OF assms(1)] by (auto simp: crossbar_fine_def intro!: lane_fine_idle)
  ultimately show ?thesis by auto
qed

lemma crossbar_configure_returns:
  assumes "workers_ok W items closed" "crossbar_fine items closed x"
  shows "\<exists>es x'. crossbar_configure P fs W sched routes c x = Some (es, x') \<and> crossbar_fine items closed x' \<and>
    xb_running x' = xb_running x"
proof -
  note new = new_lane_spec [OF assms(1)]
  have lanes: "lane_fine items closed (launch (new_lane W c r))" "lane_fine items closed (new_lane W c r)" for c r
    using new by (simp_all add: lane_fine_live lane_fine_idle)
  show ?thesis
  proof (cases "xb_running x")
    case False
    with lanes new show ?thesis by (auto simp: crossbar_configure_def crossbar_fine_def Let_def)
  next
    case True
    with stop_lanes_returns [OF assms, of P fs sched True] lanes show ?thesis
      by (auto simp: crossbar_configure_def crossbar_fine_def Let_def)
  qed
qed

lemma crossbar_fine_start: "crossbar_fine items closed x \<Longrightarrow> crossbar_fine items closed (crossbar_start W x)"
  by (auto simp: crossbar_fine_def crossbar_start_def lane_fine_def intro!: lane_fine_start [unfolded lane_fine_def])

lemma crossbar_fine_resume:
  assumes "workers_ok W items closed" "crossbar_fine items closed x"
    "crossbar_resume W e m accepting i d x = (r, x')"
  shows "crossbar_fine items closed x'"
  unfolding crossbar_fine_def
proof
  note res = crossbar_resume_lanes [OF assms(3)]
  fix l'
  assume "l' \<in> set (xb_lanes x')"
  then obtain j where j: "j < length (xb_lanes x)" "l' = xb_lanes x' ! j"
    using res(1) by (auto simp: in_set_conv_nth)
  have "xb_lanes x ! j \<in> set (xb_lanes x)" using j(1) by simp
  with assms(2) res(2,4) j lane_fine_offered [OF assms(1)]
  show "lane_fine items closed l' \<and> (\<not> xb_running x' \<longrightarrow> ln_worker l' = NoThread)"
    by (auto simp: crossbar_fine_def)
qed

lemma crossbar_fine_work:
  assumes "workers_ok W items closed" "crossbar_fine items closed x" "work_at P fs W i (xb_lanes x) = (es, lanes)"
  shows "crossbar_fine items closed (x\<lparr>xb_lanes := lanes\<rparr>)"
proof (cases "i < length (xb_lanes x)")
  case False
  with assms(3) have "lanes = xb_lanes x" by (simp add: work_at_def)
  with assms(2) show ?thesis by simp
next
  case True
  obtain es0 l where st: "worker_step P fs W (xb_lanes x ! i) = (es0, l)" by fastforce
  have "xb_lanes x ! i \<in> set (xb_lanes x)" using True by simp
  then have "lane_fine items closed (xb_lanes x ! i)" "\<not> xb_running x \<longrightarrow> ln_worker (xb_lanes x ! i) = NoThread"
    using assms(2) by (simp_all add: crossbar_fine_def)
  with lane_fine_work [OF assms(1) _ st] assms(2,3) st True show ?thesis
    by (auto simp: crossbar_fine_def work_at_def dest!: set_update_subset_insert [THEN subsetD])
qed

lemma renew_with_returns:
  assumes "workers_ok W items closed" "pipeline_fine items closed p"
  shows "\<exists>es p'. renew_with P fs W sched routes p = Some (es, p') \<and> pipeline_fine items closed p'"
proof -
  obtain x where x: "pl_crossbar p = Some x" "crossbar_fine items closed x"
    using assms(2) by (auto simp: pipeline_fine_def)
  have "crossbar_fine items closed (crossbar_new c)" for c
    by (simp add: crossbar_fine_def crossbar_new_def)
  from crossbar_configure_returns [OF assms(1) this] stop_lanes_returns [OF assms(1) x(2), of P fs sched False]
  obtain es x1 es' x' where
    "crossbar_request_stop P fs W sched x = Some (es, x1)"
    "crossbar_configure P fs W [] routes (cfg_queue_capacity (pl_cfg p))
       (crossbar_new (cfg_queue_capacity (pl_cfg p))) = Some (es', x')" "crossbar_fine items closed x'"
    unfolding crossbar_request_stop_def by metis
  then show ?thesis using x(1) by (simp add: renew_with_def renew_crossbar_def Let_def pipeline_fine_def)
qed

lemma stop_crossbar_returns:
  assumes "workers_ok W items closed" "pipeline_fine items closed p"
  shows "\<exists>es p'. stop_crossbar P fs W sched drain p = Some (es, p') \<and> pipeline_fine items closed p'"
proof -
  obtain x where x: "pl_crossbar p = Some x" "crossbar_fine items closed x"
    using assms(2) by (auto simp: pipeline_fine_def)
  from stop_lanes_returns [OF assms(1) x(2), of P fs sched drain] x(1) show ?thesis
    by (auto simp: stop_crossbar_def crossbar_close_def crossbar_request_stop_def pipeline_fine_def)
qed

lemma reconfigure_returns:
  assumes "workers_ok W items closed" "pipeline_fine items closed p"
  shows "\<exists>es p'. reconfigure_crossbar P fs W sched routes p = Some (es, p') \<and> pipeline_fine items closed p'"
proof -
  obtain x where x: "pl_crossbar p = Some x" "crossbar_fine items closed x"
    using assms(2) by (auto simp: pipeline_fine_def)
  from crossbar_configure_returns [OF assms(1) x(2), of P fs sched routes "cfg_queue_capacity (pl_cfg p)"] obtain es x'
    where "crossbar_configure P fs W sched routes (cfg_queue_capacity (pl_cfg p)) x = Some (es, x')"
      "crossbar_fine items closed x'" by blast
  with x(1) show ?thesis by (simp add: reconfigure_crossbar_def pipeline_fine_def)
qed

primrec sections_left :: "lifecycle_at \<Rightarrow> nat" where
  "sections_left (LanesDue routes) = 1"
| "sections_left ConfigSet = 3"
| "sections_left ConfigIdle = 2"
| "sections_left (ConfigCopied routes) = 1"
| "sections_left (StopEntered drain) = 4"
| "sections_left StopFlush = 3"
| "sections_left StopFlushed = 2"
| "sections_left (StopCopied routes) = 1"

lemma continues_returns:
  assumes "workers_ok W items closed" "pipeline_fine items closed p"
  shows "\<exists>es a' p'. continues P fs W sched a p = Some (es, a', p') \<and> pipeline_fine items closed p' \<and>
    (case a' of None \<Rightarrow> True | Some a1 \<Rightarrow> sections_left a1 < sections_left a)"
proof (cases a)
  case (LanesDue routes)
  with reconfigure_returns [OF assms, of P fs sched routes] show ?thesis by auto
next
  case (ConfigCopied routes)
  with renew_with_returns [OF assms, of P fs sched routes] show ?thesis by (auto simp: pipeline_fine_def)
next
  case (StopEntered drain)
  with stop_crossbar_returns [OF assms, of P fs sched drain] show ?thesis by auto
next
  case (StopCopied routes)
  with renew_with_returns [OF assms, of P fs sched routes] show ?thesis by auto
qed (use assms(2) in auto)

lemma whole_fine:
  assumes "workers_ok W items closed" "pipeline_fine items closed p" "whole oper"
  shows "\<exists>es p'. pl_step P fs W sched oper p = Some (es, p') \<and> pipeline_fine items closed p'"
proof -
  obtain x where x: "pl_crossbar p = Some x" "crossbar_fine items closed x"
    using assms(2) by (auto simp: pipeline_fine_def)
  show ?thesis
  proof (cases oper)
    case (OpSubmit e f)
    obtain r es p' where s: "submit P fs W e f p = (r, es, p')" by (metis prod_cases3)
    obtain ce c where c: "cached_route_mask fs (pl_routes p) (ev_endpoint e) (pl_cache p) = (ce, c)" by fastforce
    obtain r' x' where q: "crossbar_submit W e (ce_route_mask ce) (pl_accepting p) x = (r', x')" by fastforce
    then have "crossbar_fine items closed x'"
      using crossbar_fine_resume [OF assms(1) x(2)] by (simp add: crossbar_submit_def)
    then have "pipeline_fine items closed p'"
      using s c q x by (auto simp: submit_def Let_def pipeline_fine_def split: if_splits)
    with OpSubmit s show ?thesis by simp
  next
    case (OpWork i)
    obtain es lanes where w: "work_at P fs W i (xb_lanes x) = (es, lanes)" by fastforce
    from crossbar_fine_work [OF assms(1) x(2) w] OpWork w x(1) show ?thesis
      by (simp add: work_def pipeline_fine_def)
  next
    case OpStart
    with x show ?thesis by (auto simp: start_def Let_def pipeline_fine_def crossbar_fine_start)
  qed (use assms(3) x in
      \<open>simp_all add: pipeline_fine_def add_global_filter_def clear_global_filters_def split: prod.split\<close>)
qed

lemma begins_fine:
  "begins oper p = Some (a, p') \<Longrightarrow> pl_crossbar p' = pl_crossbar p \<and> sections_left a \<le> 4"
  by (cases oper) (auto simp: Let_def)

definition contended_ok :: "('q \<Rightarrow> event list) \<Rightarrow> ('q \<Rightarrow> bool) \<Rightarrow> 'q contended \<Rightarrow> bool" where
  "contended_ok items closed s \<longleftrightarrow> pipeline_fine items closed (ct_pipeline s) \<and>
     (\<forall>t a. ct_at s t = Some a \<longrightarrow> sections_left a \<le> 4)"

lemma ct_step_ok:
  assumes "workers_ok W items closed" "contended_ok items closed s" "ct_step P fs W a s = Some (es, s')"
  shows "contended_ok items closed s'"
proof -
  have fine: "pipeline_fine items closed (ct_pipeline s)" using assms(2) by (simp add: contended_ok_def)
  show ?thesis
  proof (cases a)
    case (CtBegin t oper)
    with assms(3) obtain b p where b: "begins oper (ct_pipeline s) = Some (b, p)"
      "s' = s\<lparr>ct_pipeline := p, ct_at := (ct_at s)(t := Some b)\<rparr>"
      by (auto split: if_splits option.splits)
    with begins_fine [OF b(1)] assms(2) pipeline_fine_cong [of p "ct_pipeline s"] show ?thesis
      by (simp add: contended_ok_def)
  next
    case (CtNext t sched)
    with assms(3) obtain b b' p where b: "ct_at s t = Some b"
      "continues P fs W sched b (ct_pipeline s) = Some (es, b', p)"
      "s' = s\<lparr>ct_pipeline := p, ct_at := (ct_at s)(t := b')\<rparr>"
      by (auto split: option.splits)
    have "sections_left b \<le> 4" using assms(2) b(1) by (simp add: contended_ok_def)
    moreover from continues_returns [OF assms(1) fine, of P fs sched b] b(2) have
      "pipeline_fine items closed p" "\<forall>b1. b' = Some b1 \<longrightarrow> sections_left b1 < sections_left b"
      by auto
    ultimately have "pipeline_fine items closed p" "\<forall>b1. b' = Some b1 \<longrightarrow> sections_left b1 \<le> 4"
      by (blast, fastforce)
    with b(3) assms(2) show ?thesis by (simp add: contended_ok_def)
  next
    case (CtWhole t oper)
    with assms(3) obtain p where w: "whole oper" "pl_step P fs W [] oper (ct_pipeline s) = Some (es, p)"
      "s' = s\<lparr>ct_pipeline := p\<rparr>" by (auto split: if_splits)
    with whole_fine [OF assms(1) fine w(1), of P fs "[]"] assms(2) show ?thesis
      by (auto simp: contended_ok_def)
  qed
qed

lemma ct_run_ok:
  assumes "workers_ok W items closed"
  shows "contended_ok items closed s \<Longrightarrow> ct_run P fs W acts s = Some (es, s') \<Longrightarrow> contended_ok items closed s'"
proof (induction acts arbitrary: s es)
  case Nil
  then show ?case by simp
next
  case (Cons a acts)
  then obtain es1 s1 es2 where "ct_step P fs W a s = Some (es1, s1)" "ct_run P fs W acts s1 = Some (es2, s')"
    by (auto split: option.splits)
  with Cons ct_step_ok [OF assms] show ?case by blast
qed

lemma initial_contended_ok: "contended_ok items closed initial_contended"
  by (simp add: contended_ok_def initial_contended_def pipeline_fine_def crossbar_fine_def initial_pipeline_def
      crossbar_new_def)

lemma sections_return:
  assumes "workers_ok W items closed" "ct_run P fs W acts initial_contended = Some (es, s)" "ct_at s t = Some a"
  shows "\<exists>es' s'. ct_step P fs W (CtNext t sched) s = Some (es', s') \<and> sections_left a \<le> 4 \<and>
    (ct_at s' t = None \<or> (\<exists>a'. ct_at s' t = Some a' \<and> sections_left a' < sections_left a))"
proof -
  from ct_run_ok [OF assms(1) initial_contended_ok assms(2)] have
    s: "pipeline_fine items closed (ct_pipeline s)" "sections_left a \<le> 4"
    using assms(3) by (auto simp: contended_ok_def)
  from continues_returns [OF assms(1) s(1), of P fs sched a] obtain es' a' p' where
    "continues P fs W sched a (ct_pipeline s) = Some (es', a', p')"
    "case a' of None \<Rightarrow> True | Some a1 \<Rightarrow> sections_left a1 < sections_left a" by blast
  with assms(3) s(2) show ?thesis by (auto split: option.splits)
qed

subsection \<open>A pipeline that runs without workers\<close>

definition dead :: "'q pipeline \<Rightarrow> bool" where
  "dead p \<longleftrightarrow> pl_running p \<and> (\<exists>x. pl_crossbar p = Some x \<and> \<not> xb_running x \<and>
     (\<forall>l \<in> set (xb_lanes x). ln_worker l = NoThread))"

lemma resume_idle:
  assumes "crossbar_resume W e m accepting i d x = (r, x')" "\<forall>l \<in> set (xb_lanes x). ln_worker l = NoThread"
  shows "\<forall>l \<in> set (xb_lanes x'). ln_worker l = NoThread"
proof
  note res = crossbar_resume_lanes [OF assms(1)]
  fix l
  assume "l \<in> set (xb_lanes x')"
  then obtain j where "j < length (xb_lanes x)" "l = xb_lanes x' ! j"
    using res(1) by (auto simp: in_set_conv_nth)
  with res(4) assms(2) show "ln_worker l = NoThread" by auto
qed

text \<open>Neither starting it nor anything else but closing or stopping it gives such a pipeline workers.\<close>

lemma dead_stays_dead:
  assumes "dead p" "pl_step P fs W sched oper p = Some (es, p')" "oper \<noteq> OpClosePipeline" "oper \<noteq> OpRequestStop"
  shows "dead p'"
proof -
  obtain x where x: "pl_crossbar p = Some x" "\<not> xb_running x" "\<forall>l \<in> set (xb_lanes x). ln_worker l = NoThread"
    and run: "pl_running p" using assms(1) by (auto simp: dead_def)
  have new: "ln_worker (new_lane W c r) = NoThread" for c r by (simp add: new_lane_def)
  show ?thesis
  proof (cases oper)
    case (OpSubmit e f)
    obtain r es1 p1 where s: "submit P fs W e f p = (r, es1, p1)" by (metis prod_cases3)
    obtain ce c where c: "cached_route_mask fs (pl_routes p) (ev_endpoint e) (pl_cache p) = (ce, c)" by fastforce
    obtain r' x' where q: "crossbar_submit W e (ce_route_mask ce) (pl_accepting p) x = (r', x')" by fastforce
    then have "\<forall>l \<in> set (xb_lanes x'). ln_worker l = NoThread" "xb_running x' = xb_running x"
      using resume_idle x(3) crossbar_resume_lanes(2) unfolding crossbar_submit_def by blast+
    then have "dead p1" using s c q x run by (auto simp: submit_def Let_def dead_def split: if_splits)
    with OpSubmit s assms(2) show ?thesis by simp
  next
    case (OpResume e i d m)
    obtain r' x' where q: "crossbar_resume W e m (pl_accepting p) i d x = (r', x')" by fastforce
    then have "\<forall>l \<in> set (xb_lanes x'). ln_worker l = NoThread" "xb_running x' = xb_running x"
      using resume_idle x(3) crossbar_resume_lanes(2) by blast+
    with OpResume q x run assms(2) show ?thesis by (auto simp: resume_submit_def dead_def)
  next
    case (OpWork i)
    with assms(2) work_at_idle [OF x(3), of P fs W i] x run show ?thesis by (auto simp: work_def dead_def)
  next
    case (OpAddRoute r)
    with assms(2) x run new show ?thesis
      by (auto simp: add_route_def reconfigure_crossbar_def crossbar_configure_def Let_def dead_def)
  next
    case OpClearRoutes
    with assms(2) x run show ?thesis
      by (auto simp: clear_routes_def reconfigure_crossbar_def crossbar_configure_def Let_def dead_def)
  next
    case OpStart
    with assms(1,2) run show ?thesis by (auto simp: start_def Let_def dead_def)
  next
    case (OpConfigure cfg)
    with assms(1,2) run show ?thesis by (auto simp: configure_def Let_def dead_def)
  qed (use assms in \<open>auto simp: add_global_filter_def clear_global_filters_def dead_def\<close>)
qed

fun pl_run ::
  "platform \<Rightarrow> filter_store \<Rightarrow> 'q workers \<Rightarrow> (nat list \<times> pl_op) list \<Rightarrow> 'q pipeline \<Rightarrow> (effect list \<times> 'q pipeline) option" where
  "pl_run P fs W [] p = Some ([], p)"
| "pl_run P fs W ((sched, oper) # opers) p =
     (case pl_step P fs W sched oper p of
        None \<Rightarrow> None
      | Some (es, p1) \<Rightarrow> map_option (\<lambda>(es', p2). (es @ es', p2)) (pl_run P fs W opers p1))"

lemma dead_forever:
  "dead p \<Longrightarrow> pl_run P fs W opers p = Some (es, p') \<Longrightarrow> OpClosePipeline \<notin> snd ` set opers \<Longrightarrow>
   OpRequestStop \<notin> snd ` set opers \<Longrightarrow> dead p' \<and> fst (work P fs W i p') = []"
proof (induction opers arbitrary: p es)
  case Nil
  then have "dead p'" by simp
  moreover from this have "fst (work P fs W i p') = []"
    by (auto simp: dead_def work_def work_at_idle)
  ultimately show ?case ..
next
  case (Cons a opers)
  obtain sched oper where a: "a = (sched, oper)" by fastforce
  with Cons.prems(2) obtain es1 p1 es2 where "pl_step P fs W sched oper p = Some (es1, p1)"
    "pl_run P fs W opers p1 = Some (es2, p')" by (auto split: option.splits)
  moreover have "oper \<noteq> OpClosePipeline" "oper \<noteq> OpRequestStop" using Cons.prems(3,4) a by auto
  moreover from this have "dead p1" using dead_stays_dead [OF Cons.prems(1)] calculation(1) by blast
  ultimately show ?case using Cons.IH Cons.prems(3,4) by simp
qed

text \<open>A thread closes a running pipeline; between the stop and the new crossbar another starts it.\<close>

definition opened :: "ct_action list" where
  "opened =
     [CtBegin 0 (OpConfigure (asynchronous 2)), CtNext 0 [], CtNext 0 [], CtNext 0 [],
      CtBegin 0 (OpAddRoute plain_route), CtNext 0 []]"

definition start_during_close :: "ct_action list" where
  "start_during_close = opened @
     [CtWhole 0 OpStart, CtBegin 0 OpClosePipeline, CtNext 0 [], CtWhole 1 OpStart,
      CtNext 0 [], CtNext 0 [], CtNext 0 []]"

text \<open>The same between the check and the new crossbar of \<open>configure\<close>.\<close>

definition start_during_configure :: "ct_action list" where
  "start_during_configure = opened @
     [CtBegin 0 (OpConfigure (asynchronous 4)), CtNext 0 [], CtWhole 1 OpStart, CtNext 0 [], CtNext 0 []]"

definition ends_dead :: "'q contended \<Rightarrow> bool" where
  "ends_dead s \<longleftrightarrow> ct_at s 0 = None \<and> ct_at s 1 = None \<and> pl_accepting (ct_pipeline s) \<and> pl_running (ct_pipeline s) \<and>
     (case pl_crossbar (ct_pipeline s) of None \<Rightarrow> False
      | Some x \<Rightarrow> \<not> xb_running x \<and> list_all (\<lambda>l. ln_worker l = NoThread) (xb_lanes x))"

lemma ends_dead: "ends_dead s \<Longrightarrow> dead (ct_pipeline s)"
  by (auto simp: ends_dead_def dead_def list_all_iff split: option.splits)

lemma start_during_close_dead:
  obtains es s where "ct_run plain_platform info_store list_workers start_during_close initial_contended = Some (es, s)"
    "ends_dead s"
proof -
  have "case ct_run plain_platform info_store list_workers start_during_close initial_contended of None \<Rightarrow> False
      | Some (es, s) \<Rightarrow> ends_dead s"
    by code_simp
  then show ?thesis using that by (auto split: option.splits)
qed

lemma start_during_configure_dead:
  obtains es s where "ct_run plain_platform info_store list_workers start_during_configure initial_contended = Some (es, s)"
    "ends_dead s"
proof -
  have "case ct_run plain_platform info_store list_workers start_during_configure initial_contended of None \<Rightarrow> False
      | Some (es, s) \<Rightarrow> ends_dead s"
    by code_simp
  then show ?thesis using that by (auto split: option.splits)
qed

text \<open>Two threads add a route each; the lanes for both routes are made before those for the first.\<close>

definition crossed :: "ct_action list" where
  "crossed =
     [CtBegin 0 (OpConfigure (asynchronous 2)), CtNext 0 [], CtNext 0 [], CtNext 0 [],
      CtBegin 0 (OpAddRoute plain_route), CtBegin 1 (OpAddRoute (send_to (Some 1) plain_route)),
      CtNext 1 [], CtNext 0 [],
      CtWhole 0 OpStart, CtWhole 0 (OpSubmit second_event False), CtWhole 0 (OpWork 0),
      CtBegin 0 OpClosePipeline, CtNext 0 [0, 1], CtNext 0 [], CtNext 0 [], CtNext 0 []]"

subsection \<open>Properties\<close>



text \<open>
  C14. However lifecycle calls of any number of threads overlap, with submissions and workers in between:
  the next section of every call returns, under every schedule of the workers, so no call waits for ever
  for a worker; and every call has returned after at most four more sections of its own.
\<close>

theorem overlapping_sections_return:
  assumes "workers_ok W items closed" "ct_run P fs W acts initial_contended = Some (es, s)" "ct_at s t = Some a"
  shows "\<exists>es' s'. ct_step P fs W (CtNext t sched) s = Some (es', s') \<and> sections_left a \<le> 4 \<and>
    (ct_at s' t = None \<or> (\<exists>a'. ct_at s' t = Some a' \<and> sections_left a' < sections_left a))"
  by (rule sections_return [OF assms])

definition halfway :: "ct_action list" where
  "halfway = opened @ [CtWhole 0 OpStart, CtBegin 0 OpClosePipeline, CtNext 0 [], CtWhole 1 OpStart, CtNext 0 []]"

lemma halfway_state:
  obtains es s a where "ct_run plain_platform info_store list_workers halfway initial_contended = Some (es, s)"
    "ct_at s 0 = Some a" "sections_left a = 2"
proof -
  have "case ct_run plain_platform info_store list_workers halfway initial_contended of None \<Rightarrow> False
      | Some (es, s) \<Rightarrow> (case ct_at s 0 of None \<Rightarrow> False | Some a \<Rightarrow> sections_left a = 2)"
    by code_simp
  then show ?thesis using that by (auto split: option.splits)
qed

theorem overlapping_sections_return_witness:
  "\<exists>es s es' s'. ct_run plain_platform info_store list_workers halfway initial_contended = Some (es, s) \<and>
    ct_step plain_platform info_store list_workers (CtNext 0 [0]) s = Some (es', s') \<and>
    (ct_at s' 0 = None \<or> (\<exists>a'. ct_at s' 0 = Some a' \<and> sections_left a' < 2))"
proof -
  obtain es s a where s: "ct_run plain_platform info_store list_workers halfway initial_contended = Some (es, s)"
    "ct_at s 0 = Some a" "sections_left a = 2"
    by (rule halfway_state)
  from overlapping_sections_return [OF list_workers_ok s(1,2), of "[0]"] s(1) show ?thesis
    unfolding s(3) by blast
qed

text \<open>
  C31. A \<open>start\<close> while another thread is inside \<open>close\<close> can leave a pipeline that runs and accepts events but
  has no workers, and has none ever after: whatever operations follow, \<open>start\<close> included, unless they close or
  stop the pipeline, it stays so, and no lane hands out an event.
\<close>

theorem start_during_close_kills:
  assumes "ct_run plain_platform info_store list_workers start_during_close initial_contended = Some (es, s)"
    "pl_run plain_platform info_store list_workers opers (ct_pipeline s) = Some (es', p')"
    "OpClosePipeline \<notin> snd ` set opers" "OpRequestStop \<notin> snd ` set opers"
  shows "ct_at s 0 = None \<and> ct_at s 1 = None \<and> pl_running (ct_pipeline s) \<and> pl_accepting (ct_pipeline s) \<and>
    dead p' \<and> fst (work plain_platform info_store list_workers i p') = []"
proof -
  obtain es1 s1 where "ct_run plain_platform info_store list_workers start_during_close initial_contended = Some (es1, s1)"
    "ends_dead s1" by (rule start_during_close_dead)
  with assms(1) have d: "ends_dead s" by simp
  from dead_forever [OF ends_dead [OF d] assms(2-4), of i] d show ?thesis by (simp add: ends_dead_def)
qed

definition restart_attempt :: "(nat list \<times> pl_op) list" where
  "restart_attempt = [([], OpSubmit second_event False), ([], OpStart), ([], OpWork 0)]"

theorem start_during_close_kills_witness:
  "\<exists>es s es' p'. ct_run plain_platform info_store list_workers start_during_close initial_contended = Some (es, s) \<and>
    pl_run plain_platform info_store list_workers restart_attempt (ct_pipeline s) = Some (es', p') \<and> dead p'"
proof -
  have "case ct_run plain_platform info_store list_workers start_during_close initial_contended of None \<Rightarrow> False
      | Some (es, s) \<Rightarrow> (case pl_run plain_platform info_store list_workers restart_attempt (ct_pipeline s) of
          None \<Rightarrow> False | Some _ \<Rightarrow> True)"
    by code_simp
  then obtain es s es' p' where
    r: "ct_run plain_platform info_store list_workers start_during_close initial_contended = Some (es, s)"
    "pl_run plain_platform info_store list_workers restart_attempt (ct_pipeline s) = Some (es', p')"
    by (auto split: option.splits)
  have "OpClosePipeline \<notin> snd ` set restart_attempt" "OpRequestStop \<notin> snd ` set restart_attempt"
    by (simp_all add: restart_attempt_def)
  from start_during_close_kills [OF r this, of 0] r show ?thesis by blast
qed

text \<open>
  C32. Two threads that add a route each can leave one of the routes without a lane: both calls
  return, the routes are there and select the event, the pipeline is started and closed, and the sink of the
  second route never gets the event, which the first one's has.
\<close>

theorem crossed_add_routes_lose_route:
  "\<exists>es s. ct_run plain_platform info_store list_workers crossed initial_contended = Some (es, s) \<and>
    ct_at s 0 = None \<and> ct_at s 1 = None \<and> map rt_sink (pl_routes (ct_pipeline s)) = [Some 0, Some 1] \<and>
    filters_pass info_store (rt_filters (pl_routes (ct_pipeline s) ! 1)) second_event \<and>
    rt_strategy (pl_routes (ct_pipeline s) ! 1) = Some BlockWhenFull \<and>
    sink_bytes 0 es = ''up'' @ [newline] \<and> sink_bytes 1 es = []"
proof -
  have "case ct_run plain_platform info_store list_workers crossed initial_contended of None \<Rightarrow> False
      | Some (es, s) \<Rightarrow> ct_at s 0 = None \<and> ct_at s 1 = None \<and>
          map rt_sink (pl_routes (ct_pipeline s)) = [Some 0, Some 1] \<and>
          filters_pass info_store (rt_filters (pl_routes (ct_pipeline s) ! 1)) second_event \<and>
          rt_strategy (pl_routes (ct_pipeline s) ! 1) = Some BlockWhenFull \<and>
          sink_bytes 0 es = ''up'' @ [newline] \<and> sink_bytes 1 es = []"
    by code_simp
  then show ?thesis by (auto split: option.splits)
qed

end
