(* ===== verification/Command_Line.thy ===== *)
theory Command_Line
  imports Pattern_Renderer
begin

section \<open>The command line tool\<close>

text \<open>
  \<open>src/tools/sylogctl.cpp\<close>: one command, \<open>version\<close>, over the command line library \<open>argtree\<close>. That library
  belongs to another project and is a parameter: the help text it prints for a program name, and what
  it does with arguments, given the one callback of the schema.
\<close>

record argtree =
  at_help :: "string \<Rightarrow> string"
  at_run :: "string \<Rightarrow> string list \<Rightarrow> string \<times> int" \<comment> \<open>callback's output, \<open>argv\<close>: output, exit code\<close>

definition show_version :: string where
  "show_version = ''sylogctl 0.2'' @ [newline]"

definition sylogctl_main :: "argtree \<Rightarrow> string list \<Rightarrow> string \<times> int" where
  "sylogctl_main A argv =
     (if length argv \<le> 1
      then (at_help A (case argv of [] \<Rightarrow> ''sylogctl'' | name # _ \<Rightarrow> name), 0)
      else at_run A show_version argv)"

text \<open>
  Without arguments the tool prints its help and succeeds, under the name it was called by; the
  version is what a library that runs the callback of a command prints.
\<close>

lemma sylogctl_help:
  "sylogctl_main A [] = (at_help A ''sylogctl'', 0)" "sylogctl_main A [name] = (at_help A name, 0)"
  by (simp_all add: sylogctl_main_def)

lemma sylogctl_version:
  assumes "\<And>out name. at_run A out [name, ''version''] = (out, 0)"
  shows "sylogctl_main A [name, ''version''] = (''sylogctl 0.2'' @ [newline], 0)"
  by (simp add: sylogctl_main_def assms show_version_def)

end
